(* ===== verification/Radv_Prelude.thy ===== *)
theory Radv_Prelude
  imports Main "HOL-Library.Word"
begin

text \<open>
  Shared vocabulary of the development: the machine integers of the C sources, the alignment
  and bit-field macros of \<open>src/src/util/macros.h\<close> and \<open>src/src/util/u_math.h\<close>, the lemmas that move
  machine arithmetic to \<open>nat\<close> where it cannot wrap, and a few list lemmas used by every
  component that keeps a sorted or intrusive list.

  The sources are modelled as the packaged driver is built (\<open>src/build.sh\<close> passes
  \<open>-Db_ndebug=true\<close>): a C \<open>assert\<close> is not executed. Where an assertion states a
  contract between caller and callee it appears as a predicate, and the theorems show that it
  holds.
\<close>

unbundle bit_operations_syntax

type_synonym u8 = "8 word"
type_synonym u16 = "16 word"
type_synonym u32 = "32 word"
type_synonym u64 = "64 word"

text \<open>Facts that turn word arithmetic into arithmetic on \<open>nat\<close>.\<close>

named_theorems word_nat

section \<open>The macros of macros.h and u_math.h\<close>

definition ALIGN_POT :: "'a::len word \<Rightarrow> 'a word \<Rightarrow> 'a word" where
  "ALIGN_POT x pot_align = (x + pot_align - 1) AND NOT (pot_align - 1)"

definition align64 :: "u64 \<Rightarrow> u64 \<Rightarrow> u64" where
  "align64 value alignment = ALIGN_POT value alignment"

definition align32 :: "u32 \<Rightarrow> u32 \<Rightarrow> u32" where
  "align32 value alignment = ALIGN_POT value alignment"

definition BITFIELD64_BIT :: "nat \<Rightarrow> u64" where
  "BITFIELD64_BIT b = push_bit b 1"

definition BITFIELD64_MASK :: "nat \<Rightarrow> u64" where
  "BITFIELD64_MASK b = (if b = 64 then NOT 0 else BITFIELD64_BIT (b mod 64) - 1)"

definition BITFIELD_BIT :: "nat \<Rightarrow> u32" where
  "BITFIELD_BIT b = push_bit b 1"

definition BITFIELD_MASK :: "nat \<Rightarrow> u32" where
  "BITFIELD_MASK b = (if b = 32 then NOT 0 else BITFIELD_BIT (b mod 32) - 1)"

section \<open>Word arithmetic that does not wrap\<close>

lemma unat_add_no_wrap:
  fixes a b :: "'a::len word"
  assumes "unat a + unat b < 2 ^ LENGTH('a)"
  shows "unat (a + b) = unat a + unat b"
  using assms by (simp add: unat_add_lem [THEN iffD1])

lemma unat_mult_no_wrap:
  fixes a b :: "'a::len word"
  assumes "unat a * unat b < 2 ^ LENGTH('a)"
  shows "unat (a * b) = unat a * unat b"
  using assms by (simp add: unat_mult_lem [THEN iffD1])

lemma unat_sub_no_wrap:
  fixes a b :: "'a::len word"
  assumes "unat b \<le> unat a"
  shows "unat (a - b) = unat a - unat b"
  using assms by (simp add: unat_sub word_le_nat_alt)

lemma unat_bound: "unat (x :: 'a::len word) < 2 ^ LENGTH('a)"
  by (rule unsigned_less)

lemma inj_on_unat: "inj_on (unat :: 'a::len word \<Rightarrow> nat) A"
  by (rule inj_onI) (simp add: word_unat_eq_iff)

lemma unat_pow2:
  assumes "k < LENGTH('a::len)"
  shows "unat (2 ^ k :: 'a word) = 2 ^ k"
proof -
  have "unat (of_nat (2 ^ k) :: 'a word) = 2 ^ k mod 2 ^ LENGTH('a)"
    by (rule unat_of_nat)
  then show ?thesis using assms by simp
qed

lemma unat_lt64: "unat (x :: u64) < 18446744073709551616"
  using unat_bound [of x] by simp

lemma unat_lt32: "unat (x :: u32) < 4294967296"
  using unat_bound [of x] by simp

lemma u64_add_wraps_iff:
  fixes a b :: u64
  shows "unat (a + b) = (if unat a + unat b < 2 ^ 64 then unat a + unat b
    else unat a + unat b - 2 ^ 64)"
  using unat_plus_if' [of a b] by simp

lemmas [word_nat] = word_le_nat_alt word_less_nat_alt unat_sub_no_wrap

section \<open>Alignment\<close>

lemma and_not_mask_shift:
  fixes y :: "'a::len word"
  shows "y AND NOT (mask k) = push_bit k (drop_bit k y)"
  by (rule bit_word_eqI) (auto simp: bit_simps)

lemma unat_and_not_mask:
  fixes y :: "'a::len word"
  assumes "k < LENGTH('a)"
  shows "unat (y AND NOT (mask k)) = unat y div 2 ^ k * 2 ^ k"
proof -
  have d: "unat (drop_bit k y) = unat y div 2 ^ k"
    by (metis unat_drop_bit_eq drop_bit_eq_div)
  have "unat y div 2 ^ k * 2 ^ k \<le> unat y" by (rule div_times_less_eq_dividend)
  then have "unat (drop_bit k y) * 2 ^ k < 2 ^ LENGTH('a)"
    unfolding d using unat_bound [of y] by (rule le_less_trans)
  then have "unat (drop_bit k y * 2 ^ k) = unat (drop_bit k y) * 2 ^ k"
    using unat_pow2 [OF assms] unat_mult_no_wrap [of "drop_bit k y" "2 ^ k"] by metis
  then show ?thesis
    unfolding d push_bit_eq_mult and_not_mask_shift .
qed

lemma ALIGN_POT_pow2:
  fixes x :: "'a::len word"
  assumes "k < LENGTH('a)" and "unat x + 2 ^ k \<le> 2 ^ LENGTH('a)"
  shows "unat (ALIGN_POT x (2 ^ k)) = (unat x + 2 ^ k - 1) div 2 ^ k * 2 ^ k"
proof -
  let ?y = "x + 2 ^ k - 1"
  have p: "unat (2 ^ k :: 'a word) = 2 ^ k"
    using assms(1) by (rule unat_pow2)
  have y: "unat ?y = unat x + 2 ^ k - 1"
  proof -
    have pos: "1 \<le> (2::nat) ^ k" by simp
    have m: "unat (2 ^ k - 1 :: 'a word) = 2 ^ k - 1"
      using p pos unat_sub_no_wrap [of 1 "2 ^ k :: 'a word"] by simp
    have "unat x + (2 ^ k - 1) < 2 ^ LENGTH('a)"
      using assms(2) pos by linarith
    then have "unat (x + (2 ^ k - 1)) = unat x + (2 ^ k - 1)"
      using m unat_add_no_wrap [of x "2 ^ k - 1"] by simp
    moreover have "x + (2 ^ k - 1) = ?y" by simp
    moreover have "unat x + (2 ^ k - 1) = unat x + 2 ^ k - 1"
      using pos by linarith
    ultimately show ?thesis by metis
  qed
  have "ALIGN_POT x (2 ^ k) = ?y AND NOT (mask k)"
    unfolding ALIGN_POT_def mask_eq_decr_exp ..
  then show ?thesis
    using y unat_and_not_mask [OF assms(1), of ?y] by metis
qed

section \<open>Casts between 32 and 64 bits\<close>

lemma ucast_u32_u64_u32 [simp]: "(ucast (ucast (x :: u32) :: u64) :: u32) = x"
  by (rule bit_word_eqI) (simp add: bit_ucast_iff)

lemma unat_ucast_u32_u64 [simp, word_nat]: "unat (ucast (x :: u32) :: u64) = unat x"
proof -
  have "unat x < 2 ^ 64" using unat_bound [of x] by simp
  then show ?thesis by (simp add: unsigned_ucast_eq take_bit_nat_eq_self)
qed

lemma unat_ucast_u64_u32: "unat (ucast (x :: u64) :: u32) = unat x mod 2 ^ 32"
  by (simp add: unsigned_ucast_eq unsigned_take_bit_eq take_bit_eq_mod)

lemma ucast_u32_u64_eq [simp]: "(ucast (x :: u32) :: u64) = ucast y \<longleftrightarrow> x = y"
  by (metis ucast_u32_u64_u32)

lemma ucast_u32_u64_less [simp]: "(ucast (x :: u32) :: u64) < ucast y \<longleftrightarrow> x < y"
  by (simp add: word_less_nat_alt)

section \<open>Vulkan results and checked array access\<close>

text \<open>The result codes the modelled entry points return.\<close>

datatype VkResult =
    VK_SUCCESS
  | VK_NOT_READY
  | VK_TIMEOUT
  | VK_ERROR_OUT_OF_HOST_MEMORY
  | VK_ERROR_OUT_OF_DEVICE_MEMORY
  | VK_ERROR_OUT_OF_POOL_MEMORY
  | VK_ERROR_FRAGMENTED_POOL
  | VK_ERROR_DEVICE_LOST
  | VK_ERROR_UNKNOWN
  | VK_ERROR_INVALID_EXTERNAL_HANDLE
  | VK_ERROR_INVALID_OPAQUE_CAPTURE_ADDRESS
  | VK_ERROR_MEMORY_MAP_FAILED

text \<open>Reading or writing a C array outside its bounds is undefined; the model makes it
  the value \<open>None\<close>, and the theorems show that it does not happen.\<close>

definition array_read :: "'a list \<Rightarrow> nat \<Rightarrow> 'a option" where
  "array_read xs i = (if i < length xs then Some (xs ! i) else None)"

definition array_slice :: "'a list \<Rightarrow> nat \<Rightarrow> nat \<Rightarrow> 'a list option" where
  "array_slice xs i n = (if i + n \<le> length xs then Some (take n (drop i xs)) else None)"

definition array_write :: "'a list \<Rightarrow> nat \<Rightarrow> 'a list \<Rightarrow> 'a list option" where
  "array_write xs i ys =
     (if i + length ys \<le> length xs then Some (take i xs @ ys @ drop (i + length ys) xs) else None)"

lemma array_write_length: "array_write xs i ys = Some zs \<Longrightarrow> length zs = length xs"
  by (auto simp: array_write_def split: if_splits)

lemma array_write_in:
  "array_write xs i ys = Some zs \<Longrightarrow> i \<le> k \<Longrightarrow> k < i + length ys \<Longrightarrow> zs ! k = ys ! (k - i)"
  by (auto simp: array_write_def nth_append split: if_splits)

lemma array_write_out:
  "array_write xs i ys = Some zs \<Longrightarrow> k < i \<or> i + length ys \<le> k \<Longrightarrow> k < length xs \<Longrightarrow> zs ! k = xs ! k"
  by (auto simp: array_write_def nth_append split: if_splits)

definition array_set :: "'a list \<Rightarrow> nat \<Rightarrow> 'a \<Rightarrow> 'a list option" where
  "array_set xs i v = (if i < length xs then Some (xs[i := v]) else None)"

end
