(* ===== verification/Range_Allocator.thy ===== *)
theory Range_Allocator
  imports Radv_Prelude
begin

text \<open>
  The contract between a heap of addresses and the code that carves ranges out of it, as a
  locale: what a successful and a failed request promise, and what giving a range back does.
  Inside the locale the client's side is proved once: a client that remembers the ranges it
  holds (its ledger) keeps them pairwise disjoint, apart from the free addresses, and
  together with the free addresses they always make up the whole space.

  The virtual-address heap of \<open>src/src/util/vma.c\<close> provides the contract (theory
  \<open>Vma_Heap\<close>); the descriptor pool of \<open>src/src/amd/vulkan/radv_descriptor_pool.c\<close>
  is its client (theory \<open>Descriptor_Pool\<close>).
\<close>

type_synonym span = "u64 \<times> u64"

fun span_addrs :: "span \<Rightarrow> nat set" where
  "span_addrs (off, sz) = {unat off..<unat off + unat sz}"

definition spans_disjoint :: "span list \<Rightarrow> bool" where
  "spans_disjoint live \<longleftrightarrow> sorted_wrt (\<lambda>s t. span_addrs s \<inter> span_addrs t = {}) live"

definition spans_addrs :: "span list \<Rightarrow> nat set" where
  "spans_addrs live = (\<Union>s\<in>set live. span_addrs s)"

definition ledger_ok :: "nat set \<Rightarrow> nat set \<Rightarrow> span list \<Rightarrow> bool" where
  "ledger_ok space free live \<longleftrightarrow>
     space \<subseteq> {0<..<2 ^ 64} \<and> free \<union> spans_addrs live = space \<and>
     free \<inter> spans_addrs live = {} \<and> spans_disjoint live"

lemma spans_addrs_simps [simp]:
  "spans_addrs [] = {}"
  "spans_addrs (s # live) = span_addrs s \<union> spans_addrs live"
  "spans_addrs (xs @ ys) = spans_addrs xs \<union> spans_addrs ys"
  by (auto simp: spans_addrs_def)

lemma spans_disjoint_append:
  "spans_disjoint (xs @ ys) \<longleftrightarrow>
     spans_disjoint xs \<and> spans_disjoint ys \<and> spans_addrs xs \<inter> spans_addrs ys = {}"
  unfolding spans_disjoint_def spans_addrs_def sorted_wrt_append by blast

lemma spans_disjoint_Cons:
  "spans_disjoint (s # live) \<longleftrightarrow> spans_disjoint live \<and> span_addrs s \<inter> spans_addrs live = {}"
  unfolding spans_disjoint_def spans_addrs_def by auto

lemma spans_disjoint_Nil [simp]: "spans_disjoint []"
  by (simp add: spans_disjoint_def)

lemma ledger_ok_snoc:
  assumes "ledger_ok space free live" "span_addrs s \<subseteq> free"
  shows "ledger_ok space (free - span_addrs s) (live @ [s])"
  using assms unfolding ledger_ok_def spans_disjoint_append
  by (auto simp: spans_disjoint_Cons)

lemma ledger_ok_remove:
  assumes "ledger_ok space free (xs @ s # ys)"
  shows "ledger_ok space (free \<union> span_addrs s) (xs @ ys)"
    and "span_addrs s \<inter> free = {}" and "span_addrs s \<subseteq> space"
  using assms unfolding ledger_ok_def spans_disjoint_append spans_disjoint_Cons
    spans_addrs_simps by blast+

locale range_allocator =
  fixes inv :: "'h \<Rightarrow> bool"
    and free_set :: "'h \<Rightarrow> nat set"
    and take_range :: "'h \<Rightarrow> u64 \<Rightarrow> u64 \<Rightarrow> u64 \<times> 'h"
    and give_back :: "'h \<Rightarrow> u64 \<Rightarrow> u64 \<Rightarrow> 'h"
  assumes take_hit:
      "inv h \<Longrightarrow> 0 < sz \<Longrightarrow> 0 < al \<Longrightarrow> take_range h sz al = (off, h') \<Longrightarrow> off \<noteq> 0 \<Longrightarrow>
       inv h' \<and> span_addrs (off, sz) \<subseteq> free_set h \<and>
       free_set h' = free_set h - span_addrs (off, sz) \<and> unat al dvd unat off"
    and take_miss:
      "inv h \<Longrightarrow> 0 < sz \<Longrightarrow> 0 < al \<Longrightarrow> take_range h sz al = (0, h') \<Longrightarrow>
       h' = h \<and> \<not> (\<exists>a. unat al dvd a \<and> {a..<a + unat sz} \<subseteq> free_set h)"
    and give:
      "inv h \<Longrightarrow> 0 < off \<Longrightarrow> 0 < sz \<Longrightarrow> unat off + unat sz \<le> 2 ^ 64 \<Longrightarrow>
       span_addrs (off, sz) \<inter> free_set h = {} \<Longrightarrow>
       inv (give_back h off sz) \<and>
       free_set (give_back h off sz) = free_set h \<union> span_addrs (off, sz)"
begin

definition books :: "nat set \<Rightarrow> 'h \<Rightarrow> span list \<Rightarrow> bool" where
  "books space h live \<longleftrightarrow> inv h \<and> ledger_ok space (free_set h) live"

lemma books_take:
  assumes "books space h live" "0 < sz" "0 < al" "take_range h sz al = (off, h')" "off \<noteq> 0"
  shows "books space h' (live @ [(off, sz)])"
  using assms take_hit ledger_ok_snoc unfolding books_def by metis

lemma books_give:
  assumes "books space h (xs @ (off, sz) # ys)" "0 < sz"
  shows "books space (give_back h off sz) (xs @ ys)"
proof -
  note rm = ledger_ok_remove [of space "free_set h" xs "(off, sz)" ys]
  have led: "ledger_ok space (free_set h) (xs @ (off, sz) # ys)" and h: "inv h"
    using assms(1) by (simp_all add: books_def)
  have sp: "span_addrs (off, sz) \<subseteq> {0<..<2 ^ 64}"
    using rm(3) [OF led] led by (auto simp: ledger_ok_def)
  have n: "0 < unat sz" using assms(2) by (simp add: word_less_nat_alt)
  have "unat off \<in> span_addrs (off, sz)" "unat off + unat sz - 1 \<in> span_addrs (off, sz)"
    using n by simp_all
  then have "unat off \<in> {0<..<2 ^ 64}" "unat off + unat sz - 1 \<in> {0<..<2 ^ 64}"
    using sp by blast+
  then have "0 < off" and "unat off + unat sz \<le> 2 ^ 64"
    using n by (simp_all add: word_less_nat_alt del: span_addrs.simps)
  then have "inv (give_back h off sz)"
    "free_set (give_back h off sz) = free_set h \<union> span_addrs (off, sz)"
    using give [OF h _ assms(2) _ rm(2) [OF led]] by blast+
  then show ?thesis using rm(1) [OF led] by (simp add: books_def)
qed

lemma books_miss:
  assumes "books space h live" "0 < sz" "0 < al" "take_range h sz al = (0, h')"
  shows "h' = h"
  using assms take_miss unfolding books_def by metis

end

end
