(* ===== verification/Vma_Heap.thy ===== *)
theory Vma_Heap
  imports Range_Allocator
begin

text \<open>
  The virtual-address heap of \<open>src/src/util/vma.c\<close>: a list of free ranges ("holes") ordered
  from high to low addresses. The list of the source is an intrusive doubly linked list whose
  cells are only reached through the heap, so it is a HOL list of records in list order, and a
  pointer to a hole is its index. Offsets and sizes are 64-bit words; the arithmetic wraps as
  in C. The \<open>calloc\<close> calls of the source are used unchecked there; the model, like the
  source, goes on with the new record.

  After the operations come the invariant (the source's own \<open>util_vma_heap_validate\<close>), its
  reading over natural numbers, the set of free addresses it stands for, and the interface of
  a range allocator that the heap implements.
\<close>

section \<open>State and operations\<close>

record util_vma_hole =
  hole_offset :: u64
  hole_size :: u64

record util_vma_heap =
  holes :: "util_vma_hole list"
  free_size :: u64
  alloc_high :: bool
  nospan_shift :: nat

text \<open>\<open>util_vma_heap_validate\<close>: the loop carries the running total and the offset of the
  hole before, \<open>None\<close> for the first (top-most) hole.\<close>

fun vma_validate_loop :: "u64 \<Rightarrow> u64 option \<Rightarrow> util_vma_hole list \<Rightarrow> u64 \<Rightarrow> bool" where
  "vma_validate_loop acc prev [] expected \<longleftrightarrow> acc = expected"
| "vma_validate_loop acc prev (h # hs) expected \<longleftrightarrow>
     hole_offset h > 0 \<and> hole_size h > 0 \<and>
     (case prev of
        None \<Rightarrow> hole_size h + hole_offset h = 0 \<or> hole_size h + hole_offset h > hole_offset h
      | Some prev_offset \<Rightarrow> hole_size h + hole_offset h > hole_offset h \<and>
          hole_size h + hole_offset h < prev_offset) \<and>
     vma_validate_loop (acc + hole_size h) (Some (hole_offset h)) hs expected"

definition util_vma_heap_validate :: "util_vma_heap \<Rightarrow> bool" where
  "util_vma_heap_validate heap \<longleftrightarrow> vma_validate_loop 0 None (holes heap) (free_size heap)"

text \<open>\<open>util_vma_heap_free\<close>: the scan for the neighbours stops at the first hole at or below
  the offset, so the holes above are a prefix of the list and the high neighbour is its last.\<close>

definition vma_free_holes :: "util_vma_hole list \<Rightarrow> u64 \<Rightarrow> u64 \<Rightarrow> util_vma_hole list" where
  "vma_free_holes hs offset sz =
     (let highs = takeWhile (\<lambda>h. offset < hole_offset h) hs;
          lows = dropWhile (\<lambda>h. offset < hole_offset h) hs;
          high_adjacent = (highs \<noteq> [] \<and> offset + sz = hole_offset (last highs));
          low_adjacent = (lows \<noteq> [] \<and> hole_offset (hd lows) + hole_size (hd lows) = offset)
      in if low_adjacent \<and> high_adjacent then
           butlast highs @
           (hd lows)\<lparr>hole_size := hole_size (hd lows) + (sz + hole_size (last highs))\<rparr> # tl lows
         else if low_adjacent then
           highs @ (hd lows)\<lparr>hole_size := hole_size (hd lows) + sz\<rparr> # tl lows
         else if high_adjacent then
           butlast highs @
           (last highs)\<lparr>hole_offset := offset, hole_size := hole_size (last highs) + sz\<rparr> # lows
         else highs @ \<lparr>hole_offset = offset, hole_size = sz\<rparr> # lows)"

definition util_vma_heap_free :: "util_vma_heap \<Rightarrow> u64 \<Rightarrow> u64 \<Rightarrow> util_vma_heap" where
  "util_vma_heap_free heap offset sz =
     heap\<lparr>holes := vma_free_holes (holes heap) offset sz, free_size := free_size heap + sz\<rparr>"

definition util_vma_heap_init :: "u64 \<Rightarrow> u64 \<Rightarrow> util_vma_heap" where
  "util_vma_heap_init start sz =
     (let heap = \<lparr>holes = [], free_size = 0, alloc_high = False, nospan_shift = 0\<rparr>;
          heap = (if sz > 0 then util_vma_heap_free heap start sz else heap)
      in heap\<lparr>alloc_high := True, nospan_shift := 0\<rparr>)"

definition util_vma_heap_finish :: "util_vma_heap \<Rightarrow> util_vma_heap" where
  "util_vma_heap_finish heap = heap\<lparr>holes := []\<rparr>"

text \<open>\<open>util_vma_hole_alloc\<close>: what replaces the hole in the list (nothing, the hole shrunk from
  either end, or a high and a low hole), and the heap after the replacement.\<close>

definition vma_hole_split :: "util_vma_hole \<Rightarrow> u64 \<Rightarrow> u64 \<Rightarrow> util_vma_hole list" where
  "vma_hole_split hole offset sz =
     (if offset = hole_offset hole \<and> sz = hole_size hole then []
      else
        let waste = (hole_size hole - sz) - (offset - hole_offset hole)
        in if waste = 0 then [hole\<lparr>hole_size := hole_size hole - sz\<rparr>]
           else if offset = hole_offset hole then
             [hole\<lparr>hole_offset := hole_offset hole + sz, hole_size := hole_size hole - sz\<rparr>]
           else
             [\<lparr>hole_offset = offset + sz, hole_size = waste\<rparr>,
              hole\<lparr>hole_size := offset - hole_offset hole\<rparr>])"

definition util_vma_hole_alloc :: "util_vma_heap \<Rightarrow> nat \<Rightarrow> u64 \<Rightarrow> u64 \<Rightarrow> util_vma_heap" where
  "util_vma_hole_alloc heap i offset sz =
     heap\<lparr>holes := take i (holes heap) @ vma_hole_split (holes heap ! i) offset sz
            @ drop (Suc i) (holes heap),
          free_size := free_size heap - sz\<rparr>"

text \<open>The bodies of the two loops of \<open>util_vma_heap_alloc\<close>: \<open>None\<close> is \<open>continue\<close>, \<open>Some\<close> the
  offset that is allocated.\<close>

definition vma_fit_high :: "nat \<Rightarrow> u64 \<Rightarrow> u64 \<Rightarrow> util_vma_hole \<Rightarrow> u64 option" where
  "vma_fit_high shift sz alignment hole =
     (if sz > hole_size hole then None
      else
        let offset = (hole_size hole - sz) + hole_offset hole;
            last_byte = offset + sz - 1;
            spans = (shift \<noteq> 0 \<and> drop_bit shift last_byte \<noteq> drop_bit shift offset);
            offset = (if spans then offset - sz else offset)
        in if spans \<and> offset < hole_offset hole then None
           else
             let offset = (offset div alignment) * alignment
             in if offset < hole_offset hole then None else Some offset)"

definition vma_fit_low :: "nat \<Rightarrow> u64 \<Rightarrow> u64 \<Rightarrow> util_vma_hole \<Rightarrow> u64 option" where
  "vma_fit_low shift sz alignment hole =
     (if sz > hole_size hole then None
      else
        let misalign = hole_offset hole mod alignment;
            pad = alignment - misalign
        in if misalign \<noteq> 0 \<and> pad > hole_size hole - sz then None
           else
             let offset = (if misalign \<noteq> 0 then hole_offset hole + pad else hole_offset hole);
                 last_byte = offset + sz - 1
             in if shift \<noteq> 0 \<and> drop_bit shift last_byte \<noteq> drop_bit shift offset then
                  let offset = last_byte AND NOT (BITFIELD64_MASK shift)
                  in if offset + sz > hole_offset hole + hole_size hole then None
                     else Some offset
                else Some offset)"

fun vma_scan :: "(util_vma_hole \<Rightarrow> u64 option) \<Rightarrow> (nat \<times> util_vma_hole) list
    \<Rightarrow> (nat \<times> u64) option" where
  "vma_scan fit [] = None"
| "vma_scan fit ((i, h) # hs) =
     (case fit h of Some offset \<Rightarrow> Some (i, offset) | None \<Rightarrow> vma_scan fit hs)"

definition util_vma_heap_alloc :: "util_vma_heap \<Rightarrow> u64 \<Rightarrow> u64 \<Rightarrow> u64 \<times> util_vma_heap" where
  "util_vma_heap_alloc heap sz alignment =
     (let found =
        (if alloc_high heap
         then vma_scan (vma_fit_high (nospan_shift heap) sz alignment)
                (enumerate 0 (holes heap))
         else vma_scan (vma_fit_low (nospan_shift heap) sz alignment)
                (rev (enumerate 0 (holes heap))))
      in case found of
           Some (i, offset) \<Rightarrow> (offset, util_vma_hole_alloc heap i offset sz)
         | None \<Rightarrow> (0, heap))"

fun vma_find_at :: "u64 \<Rightarrow> nat \<Rightarrow> util_vma_hole list \<Rightarrow> nat option" where
  "vma_find_at offset i [] = None"
| "vma_find_at offset i (h # hs) =
     (if hole_offset h > offset then vma_find_at offset (Suc i) hs else Some i)"

definition util_vma_heap_alloc_addr :: "util_vma_heap \<Rightarrow> u64 \<Rightarrow> u64 \<Rightarrow> bool \<times> util_vma_heap" where
  "util_vma_heap_alloc_addr heap offset sz =
     (case vma_find_at offset 0 (holes heap) of
        None \<Rightarrow> (False, heap)
      | Some i \<Rightarrow>
          if hole_size (holes heap ! i) < offset - hole_offset (holes heap ! i) + sz
          then (False, heap)
          else (True, util_vma_hole_alloc heap i offset sz))"

definition util_vma_heap_get_max_free_continuous_size :: "util_vma_heap \<Rightarrow> u64" where
  "util_vma_heap_get_max_free_continuous_size heap =
     fold (\<lambda>h max_size. max max_size (hole_size h)) (holes heap) 0"

section \<open>The invariant over natural numbers\<close>

abbreviation hlo :: "util_vma_hole \<Rightarrow> nat" where
  "hlo h \<equiv> unat (hole_offset h)"

abbreviation hhi :: "util_vma_hole \<Rightarrow> nat" where
  "hhi h \<equiv> unat (hole_offset h) + unat (hole_size h)"

text \<open>Holes below \<open>b\<close>, in descending order, never empty and never adjacent.\<close>

fun holes_below :: "nat \<Rightarrow> util_vma_hole list \<Rightarrow> bool" where
  "holes_below b [] \<longleftrightarrow> True"
| "holes_below b (h # hs) \<longleftrightarrow> 0 < hlo h \<and> hlo h < hhi h \<and> hhi h < b \<and> holes_below (hlo h) hs"

abbreviation vma_top :: nat where
  "vma_top \<equiv> Suc (2 ^ 64)"

definition holes_total :: "util_vma_hole list \<Rightarrow> nat" where
  "holes_total hs = sum_list (map (\<lambda>h. unat (hole_size h)) hs)"

definition free_addrs :: "util_vma_hole list \<Rightarrow> nat set" where
  "free_addrs hs = (\<Union>h\<in>set hs. {hlo h..<hhi h})"

definition vma_free_set :: "util_vma_heap \<Rightarrow> nat set" where
  "vma_free_set heap = free_addrs (holes heap)"

abbreviation vma_range :: "u64 \<Rightarrow> u64 \<Rightarrow> nat set" where
  "vma_range offset sz \<equiv> span_addrs (offset, sz)"

definition lowest :: "nat \<Rightarrow> util_vma_hole list \<Rightarrow> nat" where
  "lowest b hs = (if hs = [] then b else hlo (last hs))"

lemma free_addrs_simps [simp]:
  "free_addrs [] = {}"
  "free_addrs (h # hs) = {hlo h..<hhi h} \<union> free_addrs hs"
  "free_addrs (xs @ ys) = free_addrs xs \<union> free_addrs ys"
  by (auto simp: free_addrs_def)

lemma holes_total_simps [simp]:
  "holes_total [] = 0"
  "holes_total (h # hs) = unat (hole_size h) + holes_total hs"
  "holes_total (xs @ ys) = holes_total xs + holes_total ys"
  by (simp_all add: holes_total_def)

lemma lowest_simps [simp]:
  "lowest b [] = b"
  "lowest b (h # hs) = lowest (hlo h) hs"
  "lowest b (xs @ ys) = lowest (lowest b xs) ys"
  by (auto simp: lowest_def)

lemma holes_below_append:
  "holes_below b (xs @ ys) \<longleftrightarrow> holes_below b xs \<and> holes_below (lowest b xs) ys"
  by (induction xs arbitrary: b) auto

lemma holes_below_mono: "holes_below b hs \<Longrightarrow> b \<le> c \<Longrightarrow> holes_below c hs"
  by (cases hs) auto

lemma lowest_le: "holes_below b hs \<Longrightarrow> lowest b hs \<le> b"
  by (induction hs arbitrary: b) force+

lemma lowest_mono: "b \<le> c \<Longrightarrow> lowest b hs \<le> lowest c hs"
  by (simp add: lowest_def)

lemma free_addrs_bounds:
  "holes_below b hs \<Longrightarrow> a \<in> free_addrs hs \<Longrightarrow> lowest b hs \<le> a \<and> 0 < a \<and> Suc a < b"
proof (induction hs arbitrary: b)
  case (Cons h hs)
  then show ?case using lowest_le [of "hlo h" hs] by fastforce
qed simp

lemma holes_total_less: "holes_below b hs \<Longrightarrow> 0 < b \<Longrightarrow> holes_total hs < b"
proof (induction hs arbitrary: b)
  case (Cons h hs)
  then have "holes_total hs < hlo h" by simp
  with Cons.prems show ?case by simp
qed simp

subsection \<open>The code's validation is the invariant\<close>

lemma u64_add_gt_iff:
  fixes a b :: u64
  assumes "0 < b"
  shows "a < b + a \<longleftrightarrow> unat a + unat b < 2 ^ 64"
proof -
  have "0 < unat b" using assms by (simp add: word_less_nat_alt)
  then have "unat a < unat (b + a) \<longleftrightarrow> unat a + unat b < 2 ^ 64"
    using unat_lt64 [of b] unfolding u64_add_wraps_iff by (simp split: if_split) linarith
  then show ?thesis by (simp add: word_less_nat_alt)
qed

lemma u64_add_eq_0_iff:
  fixes a b :: u64
  assumes "0 < b"
  shows "b + a = 0 \<longleftrightarrow> unat a + unat b = 2 ^ 64"
proof -
  have "0 < unat b" using assms by (simp add: word_less_nat_alt)
  then have "unat (b + a) = 0 \<longleftrightarrow> unat a + unat b = 2 ^ 64"
    using unat_lt64 [of b] unat_lt64 [of a] unfolding u64_add_wraps_iff by (simp split: if_split) linarith
  then show ?thesis by (simp add: unat_eq_zero)
qed

lemma u64_add_between_iff:
  fixes a b p :: u64
  assumes "0 < b"
  shows "a < b + a \<and> b + a < p \<longleftrightarrow> unat a + unat b < unat p"
proof (cases "unat a + unat b < 2 ^ 64")
  case True
  then have "unat (b + a) = unat a + unat b"
    by (simp add: u64_add_wraps_iff)
  with True show ?thesis
    by (simp add: u64_add_gt_iff [OF assms] word_less_nat_alt [of "b + a"])
next
  case False
  then show ?thesis
    using unat_lt64 [of p] by (simp add: u64_add_gt_iff [OF assms])
qed

lemma vma_validate_loop_Some:
  "vma_validate_loop acc (Some p) hs e \<longleftrightarrow>
     holes_below (unat p) hs \<and> acc + of_nat (holes_total hs) = e"
proof (induction hs arbitrary: acc p)
  case (Cons h hs)
  have "(0 < hole_offset h \<and> 0 < hole_size h \<and>
      hole_offset h < hole_size h + hole_offset h \<and> hole_size h + hole_offset h < p)
    \<longleftrightarrow> (0 < hlo h \<and> hlo h < hhi h \<and> hhi h < unat p)"
    using u64_add_between_iff [of "hole_size h" "hole_offset h" p]
    by (auto simp: word_gt_0 unat_gt_0)
  then show ?case
    by (simp add: Cons.IH add.assoc) blast
qed simp

lemma util_vma_heap_validate_iff:
  "util_vma_heap_validate heap \<longleftrightarrow>
     holes_below vma_top (holes heap) \<and> unat (free_size heap) = holes_total (holes heap)"
proof -
  have tot: "(of_nat (holes_total hs) = e) \<longleftrightarrow> unat e = holes_total hs"
    if "holes_below vma_top hs" for hs and e :: u64
  proof -
    have "holes_total hs \<le> 2 ^ 64 - 1"
      using that
    proof (cases hs)
      case (Cons h ts)
      with that have "holes_total ts < hlo h" and "hhi h \<le> 2 ^ 64" "0 < hlo h"
        using holes_total_less [of "hlo h" ts] by auto
      with Cons show ?thesis by simp
    qed simp
    then have "unat (of_nat (holes_total hs) :: u64) = holes_total hs"
      by (simp add: unat_of_nat)
    then show ?thesis by (metis word_unat_eq_iff)
  qed
  show ?thesis
  proof (cases "holes heap")
    case Nil
    then show ?thesis
      by (auto simp: util_vma_heap_validate_def unat_eq_zero)
  next
    case (Cons h hs)
    have "(hole_size h + hole_offset h = 0 \<or> hole_offset h < hole_size h + hole_offset h)
        \<longleftrightarrow> hhi h < vma_top" if "0 < hole_size h"
      using that u64_add_gt_iff [of "hole_size h" "hole_offset h"]
        u64_add_eq_0_iff [of "hole_size h" "hole_offset h"] by auto
    then have "util_vma_heap_validate heap \<longleftrightarrow>
        holes_below vma_top (holes heap) \<and> of_nat (holes_total (holes heap)) = free_size heap"
      by (auto simp: util_vma_heap_validate_def Cons vma_validate_loop_Some word_less_nat_alt
          unat_gt_0)
    then show ?thesis using tot by blast
  qed
qed

subsection \<open>Taking a range out of a hole\<close>

lemma vma_hole_split_cases:
  assumes lo: "hlo h \<le> unat off" and hi: "unat off + unat sz \<le> hhi h"
    and wf: "0 < hlo h" "hhi h \<le> 2 ^ 64" and sz: "0 < unat sz"
  obtains
    (whole) "vma_hole_split h off sz = []" "unat off = hlo h" "unat sz = unat (hole_size h)"
  | (top) g where "vma_hole_split h off sz = [g]" "hlo g = hlo h" "hhi g = unat off"
      "hlo h < unat off" "unat off + unat sz = hhi h"
  | (bottom) g where "vma_hole_split h off sz = [g]" "hlo g = unat off + unat sz" "hhi g = hhi h"
      "unat off = hlo h" "unat off + unat sz < hhi h"
  | (middle) g k where "vma_hole_split h off sz = [g, k]" "hlo g = unat off + unat sz"
      "hhi g = hhi h" "hlo k = hlo h" "hhi k = unat off" "hlo h < unat off"
      "unat off + unat sz < hhi h"
proof -
  let ?d = "hole_size h - sz" and ?g = "off - hole_offset h"
  let ?w = "?d - ?g"
  have d: "unat ?d = unat (hole_size h) - unat sz"
    using lo hi by (intro unat_sub_no_wrap) linarith
  have g: "unat ?g = unat off - hlo h"
    using lo by (rule unat_sub_no_wrap)
  have w: "unat ?w = hhi h - (unat off + unat sz)"
    using d g lo hi by (subst unat_sub_no_wrap) linarith+
  have w0: "?w = 0 \<longleftrightarrow> unat off + unat sz = hhi h"
    using w hi by (auto simp flip: unat_eq_zero)
  consider "off = hole_offset h" "sz = hole_size h"
    | "\<not> (off = hole_offset h \<and> sz = hole_size h)" "?w = 0"
    | "off = hole_offset h" "?w \<noteq> 0" "sz \<noteq> hole_size h"
    | "off \<noteq> hole_offset h" "?w \<noteq> 0" by blast
  then show thesis
  proof cases
    case 1
    then show thesis by (intro whole) (simp_all add: vma_hole_split_def)
  next
    case 2
    then have eq: "unat off + unat sz = hhi h" using w0 by blast
    have "unat off \<noteq> hlo h"
      using 2(1) eq by (auto simp: word_unat_eq_iff)
    with lo have "hlo h < unat off" by simp
    then show thesis
      using 2 eq d by (intro top [of "h\<lparr>hole_size := ?d\<rparr>"]) (auto simp: vma_hole_split_def)
  next
    case 3
    then have lt: "unat off + unat sz < hhi h" using w0 hi by linarith
    have "unat (hole_offset h + sz) = hlo h + unat sz"
      using lt wf 3(1) by (intro unat_add_no_wrap) simp
    then show thesis
      using 3 lt d
      by (intro bottom [of "h\<lparr>hole_offset := hole_offset h + sz, hole_size := ?d\<rparr>"])
        (auto simp: vma_hole_split_def)
  next
    case 4
    then have lt: "unat off + unat sz < hhi h" using w0 hi by linarith
    have lt': "hlo h < unat off"
      using 4 lo by (metis le_neq_implies_less word_unat_eq_iff)
    have "unat (off + sz) = unat off + unat sz"
      using lt wf by (intro unat_add_no_wrap) simp
    then show thesis
      using 4 lt lt' w g
      by (intro middle [of "\<lparr>hole_offset = off + sz, hole_size = ?w\<rparr>"
            "h\<lparr>hole_size := ?g\<rparr>"]) (auto simp: vma_hole_split_def Let_def)
  qed
qed

lemma vma_hole_split_correct:
  assumes "hlo h \<le> unat off" "unat off + unat sz \<le> hhi h"
    and "0 < hlo h" "hhi h \<le> 2 ^ 64" "0 < unat sz" "hhi h < b"
  shows "holes_below b (vma_hole_split h off sz)"
    and "hlo h \<le> lowest b (vma_hole_split h off sz)"
    and "free_addrs (vma_hole_split h off sz) = {hlo h..<hhi h} - vma_range off sz"
    and "holes_total (vma_hole_split h off sz) + unat sz = unat (hole_size h)"
  using assms
  by (cases rule: vma_hole_split_cases [OF assms(1-5)]; auto simp:)+

lemma holes_below_nth:
  assumes "holes_below b hs" "i < length hs"
  shows "holes_below b (take i hs)" "0 < hlo (hs ! i)" "hlo (hs ! i) < hhi (hs ! i)"
    "hhi (hs ! i) < lowest b (take i hs)" "holes_below (hlo (hs ! i)) (drop (Suc i) hs)"
proof -
  have "hs = take i hs @ hs ! i # drop (Suc i) hs"
    using assms(2) by (rule id_take_nth_drop)
  then have "holes_below b (take i hs @ hs ! i # drop (Suc i) hs)"
    using assms(1) by simp
  then show "holes_below b (take i hs)" "0 < hlo (hs ! i)" "hlo (hs ! i) < hhi (hs ! i)"
    "hhi (hs ! i) < lowest b (take i hs)" "holes_below (hlo (hs ! i)) (drop (Suc i) hs)"
    by (auto simp: holes_below_append)
qed

lemma holes_below_nth_top:
  assumes "holes_below vma_top hs" "i < length hs"
  shows "hhi (hs ! i) \<le> 2 ^ 64"
proof -
  have "lowest vma_top (take i hs) \<le> vma_top"
    using holes_below_nth(1) [OF assms] by (rule lowest_le)
  then show ?thesis using holes_below_nth(4) [OF assms] by simp
qed

lemma util_vma_hole_alloc_correct:
  assumes inv: "util_vma_heap_validate heap"
    and i: "i < length (holes heap)"
    and lo: "hlo (holes heap ! i) \<le> unat off"
    and hi: "unat off + unat sz \<le> hhi (holes heap ! i)"
    and sz: "0 < unat sz"
  shows "util_vma_heap_validate (util_vma_hole_alloc heap i off sz)"
    and "vma_range off sz \<subseteq> vma_free_set heap"
    and "vma_free_set (util_vma_hole_alloc heap i off sz) = vma_free_set heap - vma_range off sz"
proof -
  let ?hs = "holes heap" let ?h = "?hs ! i"
  let ?pre = "take i ?hs" and ?post = "drop (Suc i) ?hs" and ?new = "vma_hole_split ?h off sz"
  have below: "holes_below vma_top ?hs" and tot: "unat (free_size heap) = holes_total ?hs"
    using inv by (simp_all add: util_vma_heap_validate_iff)
  note nth = holes_below_nth [OF below i]
  note split = vma_hole_split_correct [OF lo hi nth(2) holes_below_nth_top [OF below i] sz nth(4)]
  have list: "?hs = ?pre @ ?h # ?post" using i by (rule id_take_nth_drop)
  have post: "holes_below (lowest (lowest vma_top ?pre) ?new) ?post"
    using nth(5) split(2) by (rule holes_below_mono)
  have "holes_below vma_top (?pre @ ?new @ ?post)"
    using nth(1) split(1) post by (simp add: holes_below_append)
  moreover have "holes_total ?hs = holes_total ?pre + unat (hole_size ?h) + holes_total ?post"
    by (subst list) simp
  then have sum: "holes_total (?pre @ ?new @ ?post) + unat sz = holes_total ?hs"
    using split(4) by simp
  then have "unat (free_size heap - sz) = holes_total (?pre @ ?new @ ?post)"
    using tot by (subst unat_sub_no_wrap) linarith+
  ultimately show "util_vma_heap_validate (util_vma_hole_alloc heap i off sz)"
    by (simp add: util_vma_heap_validate_iff util_vma_hole_alloc_def)
  have all: "vma_free_set heap = free_addrs ?pre \<union> {hlo ?h..<hhi ?h} \<union> free_addrs ?post"
    unfolding vma_free_set_def by (subst list) auto
  show "vma_range off sz \<subseteq> vma_free_set heap"
    unfolding all using lo hi by (auto simp:)
  have "free_addrs ?pre \<inter> vma_range off sz = {}"
    using free_addrs_bounds [OF nth(1)] nth(4) hi by (fastforce simp:)
  moreover have "free_addrs ?post \<inter> vma_range off sz = {}"
    using free_addrs_bounds [OF nth(5)] lo by (fastforce simp:)
  ultimately show "vma_free_set (util_vma_hole_alloc heap i off sz) =
      vma_free_set heap - vma_range off sz"
    unfolding all by (auto simp: vma_free_set_def util_vma_hole_alloc_def split(3))
qed

subsection \<open>Where a request fits\<close>

lemma unat_align_down:
  fixes x a :: "'a::len word"
  shows "unat (x div a * a) = unat x div unat a * unat a"
proof -
  have "unat (x div a) * unat a < 2 ^ LENGTH('a)"
    unfolding unat_div_distrib
    using div_times_less_eq_dividend unat_bound by (rule le_less_trans)
  then have "unat (x div a * a) = unat (x div a) * unat a"
    by (rule unat_mult_no_wrap)
  then show ?thesis by (simp only: unat_div_distrib)
qed

lemma dvd_le_align_down:
  fixes a n x :: nat
  assumes "n dvd a" "a \<le> x"
  shows "a \<le> x div n * n"
proof -
  have "a = a div n * n" using assms(1) by simp
  also have "\<dots> \<le> x div n * n" using assms(2) by (intro mult_right_mono div_le_mono) simp_all
  finally show ?thesis .
qed

text \<open>A place is acceptable when it is aligned and does not cross a \<open>2 ^ shift\<close> boundary; \<open>shift = 0\<close>
  means that there is no boundary. One hole: an acceptable place inside it, and none exists when
  the hole is skipped.\<close>

definition place_ok :: "nat \<Rightarrow> u64 \<Rightarrow> u64 \<Rightarrow> nat \<Rightarrow> bool" where
  "place_ok shift sz alignment a \<longleftrightarrow> unat alignment dvd a \<and>
     (shift = 0 \<or> a div 2 ^ shift = (a + unat sz - 1) div 2 ^ shift)"

definition fits_in :: "nat \<Rightarrow> u64 \<Rightarrow> u64 \<Rightarrow> util_vma_hole \<Rightarrow> nat \<Rightarrow> bool" where
  "fits_in shift sz alignment h a \<longleftrightarrow> place_ok shift sz alignment a \<and> hlo h \<le> a \<and> a + unat sz \<le> hhi h"

lemma vma_fit_high_top:
  assumes "sz \<le> hole_size h" "0 < unat sz" "hhi h \<le> 2 ^ 64"
  shows "unat ((hole_size h - sz) + hole_offset h) = hhi h - unat sz"
proof -
  have d: "unat (hole_size h - sz) = unat (hole_size h) - unat sz"
    using assms(1) by (simp add: unat_sub)
  have "unat sz \<le> unat (hole_size h)" using assms(1) by (simp add: word_le_nat_alt)
  then show ?thesis
    using assms d by (subst unat_add_no_wrap) simp_all
qed

lemma vma_fit_high_Some:
  assumes "vma_fit_high 0 sz alignment h = Some off" "0 < unat sz" "hhi h \<le> 2 ^ 64"
  shows "fits_in 0 sz alignment h (unat off)"
proof -
  let ?top = "(hole_size h - sz) + hole_offset h"
  have le: "sz \<le> hole_size h" and off: "off = ?top div alignment * alignment"
    and lo: "hole_offset h \<le> off"
    using assms(1) by (auto simp: vma_fit_high_def Let_def split: if_splits)
  have eq: "unat off = (hhi h - unat sz) div unat alignment * unat alignment"
    unfolding off unat_align_down vma_fit_high_top [OF le assms(2,3)] ..
  then have "unat off \<le> hhi h - unat sz"
    using div_times_less_eq_dividend by metis
  moreover have "unat alignment dvd unat off" unfolding eq by simp
  moreover have "unat sz \<le> hhi h" using le by (simp add: word_le_nat_alt)
  ultimately show ?thesis
    using lo by (auto simp: fits_in_def place_ok_def word_le_nat_alt)
qed

lemma vma_fit_high_None:
  assumes "vma_fit_high 0 sz alignment h = None" "0 < unat sz" "hhi h \<le> 2 ^ 64"
  shows "\<not> fits_in 0 sz alignment h a"
proof
  assume fit: "fits_in 0 sz alignment h a"
  then have le: "sz \<le> hole_size h" by (simp add: fits_in_def place_ok_def word_le_nat_alt)
  let ?top = "(hole_size h - sz) + hole_offset h"
  have "?top div alignment * alignment < hole_offset h"
    using assms(1) le by (auto simp: vma_fit_high_def Let_def split: if_splits)
  then have "(hhi h - unat sz) div unat alignment * unat alignment < hlo h"
    unfolding word_less_nat_alt unat_align_down vma_fit_high_top [OF le assms(2,3)] .
  moreover have "a \<le> (hhi h - unat sz) div unat alignment * unat alignment"
    using fit by (intro dvd_le_align_down) (auto simp: fits_in_def place_ok_def)
  ultimately show False using fit by (simp add: fits_in_def place_ok_def)
qed

lemma align_up_eq:
  fixes n x :: nat
  assumes "0 < n"
  shows "x + (n - x mod n) = n * Suc (x div n)"
proof -
  have "n * (x div n) + x mod n = x" by (rule mult_div_mod_eq)
  moreover have "x mod n < n" using assms by (rule mod_less_divisor)
  ultimately have "x + (n - x mod n) = n * (x div n) + n" by linarith
  then show ?thesis by simp
qed

lemma align_up_dvd:
  fixes n x :: nat
  assumes "0 < n"
  shows "n dvd x + (n - x mod n)"
  unfolding align_up_eq [OF assms] by (rule dvd_triv_left)

lemma align_up_least:
  fixes a n x :: nat
  assumes "0 < n" "n dvd a" "x \<le> a" "x mod n \<noteq> 0"
  shows "x + (n - x mod n) \<le> a"
proof -
  obtain k where k: "a = n * k" using assms(2) by blast
  have "n * (x div n) + x mod n = x" by (rule mult_div_mod_eq)
  then have "n * (x div n) < n * k" using assms(3,4) k by linarith
  then have "x div n < k" using assms(1) by (metis nat_mult_less_cancel1)
  then have "n * Suc (x div n) \<le> n * k" by (intro mult_le_mono2) (rule Suc_leI)
  then show ?thesis unfolding align_up_eq [OF assms(1)] k .
qed

text \<open>The padded start of a hole, as the low-address loop computes it.\<close>

lemma vma_fit_low_pad:
  assumes "0 < unat alignment" "sz \<le> hole_size h" "0 < unat sz" "hhi h \<le> 2 ^ 64"
    and "alignment - hole_offset h mod alignment \<le> hole_size h - sz"
  shows "unat (hole_offset h + (alignment - hole_offset h mod alignment))
      = hlo h + (unat alignment - hlo h mod unat alignment)"
    and "hlo h + (unat alignment - hlo h mod unat alignment) + unat sz \<le> hhi h"
proof -
  have pad: "unat (alignment - hole_offset h mod alignment)
      = unat alignment - hlo h mod unat alignment"
    using assms(1) by (subst unat_sub_no_wrap) (simp_all add: unat_mod_distrib less_imp_le)
  have "unat (hole_size h - sz) = unat (hole_size h) - unat sz"
    using assms(2) by (simp add: unat_sub)
  moreover have "unat sz \<le> unat (hole_size h)"
    using assms(2) by (simp add: word_le_nat_alt)
  ultimately show le: "hlo h + (unat alignment - hlo h mod unat alignment) + unat sz \<le> hhi h"
    using assms(5) pad by (simp add: word_le_nat_alt)
  show "unat (hole_offset h + (alignment - hole_offset h mod alignment))
      = hlo h + (unat alignment - hlo h mod unat alignment)"
    using le assms(3,4) pad by (subst unat_add_no_wrap) simp_all
qed

text \<open>The low-address loop in natural numbers: the padded start of the hole, moved up to the next
  boundary when it would cross one. A boundary needs room below \<open>2 ^ 64\<close>, so that the end of the moved
  range does not wrap.\<close>

definition low_start :: "u64 \<Rightarrow> util_vma_hole \<Rightarrow> nat" where
  "low_start alignment h =
     (if hlo h mod unat alignment = 0 then hlo h else hlo h + (unat alignment - hlo h mod unat alignment))"

definition low_boundary :: "nat \<Rightarrow> u64 \<Rightarrow> u64 \<Rightarrow> nat \<Rightarrow> bool" where
  "low_boundary shift sz alignment hi \<longleftrightarrow>
     shift < 64 \<and> unat sz \<le> 2 ^ shift \<and> unat alignment dvd 2 ^ shift \<and> hi + 2 ^ shift \<le> 2 ^ 64"

lemma low_start_least:
  assumes "0 < unat alignment" "unat alignment dvd a" "hlo h \<le> a"
  shows "low_start alignment h \<le> a"
  using assms align_up_least [of "unat alignment" a "hlo h"] by (simp add: low_start_def)

lemma low_start_dvd: "0 < unat alignment \<Longrightarrow> unat alignment dvd low_start alignment h"
  using align_up_dvd [of "unat alignment" "hlo h"] by (auto simp: low_start_def)

lemma low_start_ge: "hlo h \<le> low_start alignment h"
  by (simp add: low_start_def)

definition low_offset :: "u64 \<Rightarrow> u64 \<Rightarrow> util_vma_hole \<Rightarrow> u64 option" where
  "low_offset sz alignment h =
     (if sz > hole_size h then None
      else let misalign = hole_offset h mod alignment; pad = alignment - misalign
           in if misalign \<noteq> 0 \<and> pad > hole_size h - sz then None
              else Some (if misalign \<noteq> 0 then hole_offset h + pad else hole_offset h))"

lemma low_offset_cases:
  assumes "0 < unat sz" "hhi h \<le> 2 ^ 64" "0 < unat alignment"
  shows "low_offset sz alignment h = None \<and> hhi h < low_start alignment h + unat sz \<or>
    (\<exists>off. low_offset sz alignment h = Some off \<and> unat off = low_start alignment h \<and>
       low_start alignment h + unat sz \<le> hhi h)"
proof (cases "sz \<le> hole_size h")
  case False
  then have "hhi h < hlo h + unat sz" by (simp add: word_le_nat_alt)
  then show ?thesis using False low_start_ge [of h alignment] by (simp add: low_offset_def not_le)
next
  case le: True
  have iff: "hole_offset h mod alignment = 0 \<longleftrightarrow> hlo h mod unat alignment = 0"
    by (metis unat_eq_zero unat_mod_distrib)
  have pad: "unat (alignment - hole_offset h mod alignment) = unat alignment - hlo h mod unat alignment"
    using assms(3) by (subst unat_sub_no_wrap) (simp_all add: unat_mod_distrib less_imp_le)
  have d: "unat (hole_size h - sz) = unat (hole_size h) - unat sz" "unat sz \<le> unat (hole_size h)"
    using le by (simp_all add: unat_sub word_le_nat_alt)
  show ?thesis
  proof (cases "hole_offset h mod alignment = 0")
    case True
    then show ?thesis using le d iff by (simp add: low_offset_def low_start_def)
  next
    case False
    then have start: "low_start alignment h = hlo h + (unat alignment - hlo h mod unat alignment)"
      using iff by (simp add: low_start_def)
    show ?thesis
    proof (cases "alignment - hole_offset h mod alignment \<le> hole_size h - sz")
      case True
      from vma_fit_low_pad [OF assms(3) le assms(1,2) True] show ?thesis
        using False True le start by (simp add: low_offset_def Let_def not_less [symmetric])
    next
      case no: False
      then have "unat (hole_size h - sz) < unat (alignment - hole_offset h mod alignment)"
        by (simp only: word_le_nat_alt not_le)
      then have "hhi h < low_start alignment h + unat sz" using d pad start by linarith
      then show ?thesis using False no le by (simp add: low_offset_def Let_def not_le)
    qed
  qed
qed

lemma fit_low_eq:
  "vma_fit_low shift sz alignment h =
     (case low_offset sz alignment h of None \<Rightarrow> None
      | Some offset \<Rightarrow>
          let last_byte = offset + sz - 1
          in if shift \<noteq> 0 \<and> drop_bit shift last_byte \<noteq> drop_bit shift offset then
               let offset = last_byte AND NOT (BITFIELD64_MASK shift)
               in if offset + sz > hole_offset h + hole_size h then None else Some offset
             else Some offset)"
  by (simp add: vma_fit_low_def low_offset_def Let_def)

lemma drop_bit_u64_eq:
  fixes x y :: u64
  shows "drop_bit k x = drop_bit k y \<longleftrightarrow> unat x div 2 ^ k = unat y div 2 ^ k"
  unfolding word_unat_eq_iff unat_drop_bit_eq by (simp add: drop_bit_eq_div)

text \<open>The place the low-address loop finds, or none: the start moved up to the boundary.\<close>

lemma fit_low_nat:
  assumes sz: "0 < unat sz" and hi: "hhi h \<le> 2 ^ 64" and al: "0 < unat alignment"
    and bd: "shift = 0 \<or> low_boundary shift sz alignment (hhi h)"
  defines "s \<equiv> low_start alignment h"
  defines "b \<equiv> (s + unat sz - 1) div 2 ^ shift * 2 ^ shift"
  shows "map_option unat (vma_fit_low shift sz alignment h) =
    (if hhi h < s + unat sz then None
     else if shift \<noteq> 0 \<and> s div 2 ^ shift \<noteq> (s + unat sz - 1) div 2 ^ shift then
       if hhi h < b + unat sz then None else Some b
     else Some s)"
  using low_offset_cases [OF sz hi al]
proof
  assume "low_offset sz alignment h = None \<and> hhi h < low_start alignment h + unat sz"
  then show ?thesis by (simp add: fit_low_eq s_def)
next
  assume "\<exists>off. low_offset sz alignment h = Some off \<and> unat off = low_start alignment h \<and>
       low_start alignment h + unat sz \<le> hhi h"
  then obtain off where off: "low_offset sz alignment h = Some off" "unat off = s" "s + unat sz \<le> hhi h"
    by (auto simp: s_def)
  have last: "unat (off + sz - 1) = s + unat sz - 1"
  proof -
    have eq: "off + sz - 1 = off + (sz - 1)" by simp
    have "unat (sz - 1) = unat sz - 1" using sz by (simp add: unat_sub_no_wrap)
    moreover have "unat (off + (sz - 1)) = unat off + unat (sz - 1)"
      using off hi sz calculation by (intro unat_add_no_wrap) simp
    ultimately show ?thesis unfolding eq using off(2) sz by simp
  qed
  show ?thesis
  proof (cases "shift \<noteq> 0 \<and> s div 2 ^ shift \<noteq> (s + unat sz - 1) div 2 ^ shift")
    case False
    then have "vma_fit_low shift sz alignment h = Some off"
      unfolding fit_low_eq off(1) using off(2) last by (auto simp: drop_bit_u64_eq Let_def)
    then show ?thesis using False off by auto
  next
    case True
    then have lb: "low_boundary shift sz alignment (hhi h)" using bd by simp
    let ?m = "(off + sz - 1) AND NOT (BITFIELD64_MASK shift)"
    have m: "unat ?m = b"
      using lb last by (simp add: low_boundary_def BITFIELD64_MASK_def BITFIELD64_BIT_def mask_eq_exp_minus_1 [symmetric] unat_and_not_mask b_def)
    have "b \<le> s + unat sz - 1" unfolding b_def by (rule div_times_less_eq_dividend)
    then have "b + unat sz < 2 ^ 64" "hhi h < 2 ^ 64"
      using lb off(3) sz unfolding low_boundary_def by (auto intro: le_less_trans)
    then have "unat (?m + sz) = b + unat sz" "unat (hole_offset h + hole_size h) = hhi h"
      using m by (simp_all add: unat_add_no_wrap)
    then have "vma_fit_low shift sz alignment h = (if hhi h < b + unat sz then None else Some ?m)"
      unfolding fit_low_eq off(1) using True off(2) last by (simp add: drop_bit_u64_eq Let_def word_less_nat_alt)
    then show ?thesis using True off(3) m by simp
  qed
qed

lemma vma_fit_low_Some:
  assumes "vma_fit_low shift sz alignment h = Some off" "0 < unat sz" "hhi h \<le> 2 ^ 64"
    and "0 < unat alignment" "shift = 0 \<or> low_boundary shift sz alignment (hhi h)"
  shows "fits_in shift sz alignment h (unat off)"
proof -
  let ?s = "low_start alignment h" let ?last = "?s + unat sz - 1"
  let ?b = "?last div 2 ^ shift * 2 ^ shift"
  note nat = fit_low_nat [OF assms(2-5), unfolded assms(1)]
  show ?thesis
  proof (cases "shift \<noteq> 0 \<and> ?s div 2 ^ shift \<noteq> ?last div 2 ^ shift")
    case False
    then have "unat off = ?s" "?s + unat sz \<le> hhi h" using nat by (auto split: if_splits)
    then show ?thesis
      using False low_start_dvd [OF assms(4), of h] low_start_ge [of h alignment]
      by (auto simp: fits_in_def place_ok_def)
  next
    case True
    then have off: "unat off = ?b" "?b + unat sz \<le> hhi h" using nat by (auto split: if_splits)
    have lb: "unat sz \<le> 2 ^ shift" "unat alignment dvd 2 ^ shift"
      using True assms(5) by (auto simp: low_boundary_def)
    have "?s div 2 ^ shift \<le> ?last div 2 ^ shift" using assms(2) by (intro div_le_mono) simp
    then have "?s div 2 ^ shift < ?last div 2 ^ shift" using True by simp
    then have "?s < ?b" by (simp add: div_less_iff_less_mult)
    moreover have "(?b + unat sz - 1) div 2 ^ shift = ?last div 2 ^ shift"
      using lb(1) assms(2) by (intro div_nat_eqI) (auto simp: algebra_simps)
    moreover have "?b div 2 ^ shift = ?last div 2 ^ shift" by simp
    ultimately show ?thesis
      using off lb(2) low_start_ge [of h alignment]
      by (auto simp: fits_in_def place_ok_def)
  qed
qed

lemma vma_fit_low_None:
  assumes "vma_fit_low shift sz alignment h = None" "0 < unat sz" "hhi h \<le> 2 ^ 64"
    and "0 < unat alignment" "shift = 0 \<or> low_boundary shift sz alignment (hhi h)"
  shows "\<not> fits_in shift sz alignment h a"
proof
  let ?s = "low_start alignment h" let ?last = "?s + unat sz - 1"
  assume fit: "fits_in shift sz alignment h a"
  then have a: "?s \<le> a" "a + unat sz \<le> hhi h"
    using low_start_least [OF assms(4), of a h] by (auto simp: fits_in_def place_ok_def)
  then have cross: "shift \<noteq> 0" and big: "hhi h < ?last div 2 ^ shift * 2 ^ shift + unat sz"
    using fit_low_nat [OF assms(2-5), unfolded assms(1)] by (auto split: if_splits)
  have "a < ?last div 2 ^ shift * 2 ^ shift" using a(2) big by linarith
  then have "a div 2 ^ shift < ?last div 2 ^ shift" by (simp add: less_mult_imp_div_less)
  also have "\<dots> \<le> (a + unat sz - 1) div 2 ^ shift" using a(1) by (intro div_le_mono) simp
  finally show False using fit cross by (simp add: fits_in_def place_ok_def)
qed

subsection \<open>Allocation\<close>

lemma vma_scan_Some:
  "vma_scan fit xs = Some (i, off) \<Longrightarrow> \<exists>h. (i, h) \<in> set xs \<and> fit h = Some off"
  by (induction fit xs rule: vma_scan.induct) (auto split: option.splits)

lemma vma_scan_None: "vma_scan fit xs = None \<Longrightarrow> (i, h) \<in> set xs \<Longrightarrow> fit h = None"
  by (induction fit xs rule: vma_scan.induct) (auto split: option.splits)

lemma set_enumerate_0: "(i, h) \<in> set (enumerate 0 hs) \<longleftrightarrow> i < length hs \<and> h = hs ! i"
  by (auto simp: in_set_enumerate_eq)

lemma free_range_in_one_hole:
  assumes "holes_below b hs" "{a..<a + n} \<subseteq> free_addrs hs" "0 < n"
  shows "\<exists>h\<in>set hs. hlo h \<le> a \<and> a + n \<le> hhi h"
  using assms
proof (induction hs arbitrary: b)
  case (Cons h hs)
  have rest: "Suc x < hlo h" if "x \<in> free_addrs hs" for x
    using Cons.prems(1) that free_addrs_bounds [of "hlo h" hs x] by simp
  have out: "x \<notin> {a..<a + n}" if "x \<notin> {hlo h..<hhi h}" "x \<notin> free_addrs hs" for x
    using Cons.prems(2) that by auto
  show ?case
  proof (cases "a \<in> {hlo h..<hhi h}")
    case True
    have "hhi h \<notin> {a..<a + n}"
      by (rule out) (use rest [of "hhi h"] in auto)
    with True show ?thesis by auto
  next
    case False
    have "a \<in> {a..<a + n}" using Cons.prems(3) by simp
    with out [of a] False have a: "a \<in> free_addrs hs" by blast
    have "hlo h - 1 \<notin> {a..<a + n}"
      by (rule out) (use rest [of "hlo h - 1"] Cons.prems(1) in auto)
    with rest [OF a] have "a + n < hlo h" by auto
    with Cons.prems(2) have "{a..<a + n} \<subseteq> free_addrs hs" by auto
    with Cons.IH [of "hlo h"] Cons.prems(1,3) show ?thesis by auto
  qed
qed simp

text \<open>The requests a heap can serve: with no boundary set, from either end; with a boundary set,
  from the bottom only, for a size up to the boundary and an alignment that divides it.\<close>

definition nospan_request_ok :: "util_vma_heap \<Rightarrow> u64 \<Rightarrow> u64 \<Rightarrow> bool" where
  "nospan_request_ok heap sz alignment \<longleftrightarrow>
     nospan_shift heap = 0 \<or>
     \<not> alloc_high heap \<and> (\<forall>h\<in>set (holes heap). low_boundary (nospan_shift heap) sz alignment (hhi h))"

definition heap_fit :: "util_vma_heap \<Rightarrow> u64 \<Rightarrow> u64 \<Rightarrow> util_vma_hole \<Rightarrow> u64 option" where
  "heap_fit heap sz alignment =
     (if alloc_high heap then vma_fit_high (nospan_shift heap) sz alignment
      else vma_fit_low (nospan_shift heap) sz alignment)"

lemma heap_fit_Some:
  assumes "nospan_request_ok heap sz alignment" "h \<in> set (holes heap)" "hhi h \<le> 2 ^ 64"
    and "0 < sz" "0 < alignment" "heap_fit heap sz alignment h = Some off"
  shows "fits_in (nospan_shift heap) sz alignment h (unat off)"
  using assms vma_fit_high_Some [of sz alignment h off]
    vma_fit_low_Some [of "nospan_shift heap" sz alignment h off]
  by (auto simp: heap_fit_def nospan_request_ok_def word_gt_0 unat_gt_0 split: if_splits)

lemma heap_fit_None:
  assumes "nospan_request_ok heap sz alignment" "h \<in> set (holes heap)" "hhi h \<le> 2 ^ 64"
    and "0 < sz" "0 < alignment" "heap_fit heap sz alignment h = None"
  shows "\<not> fits_in (nospan_shift heap) sz alignment h a"
  using assms vma_fit_high_None [of sz alignment h a]
    vma_fit_low_None [of "nospan_shift heap" sz alignment h a]
  by (auto simp: heap_fit_def nospan_request_ok_def word_gt_0 unat_gt_0 split: if_splits)

lemma heap_alloc_scan:
  "util_vma_heap_alloc heap sz alignment =
     (case vma_scan (heap_fit heap sz alignment)
        (if alloc_high heap then enumerate 0 (holes heap) else rev (enumerate 0 (holes heap))) of
        Some (i, offset) \<Rightarrow> (offset, util_vma_hole_alloc heap i offset sz)
      | None \<Rightarrow> (0, heap))"
  by (simp add: util_vma_heap_alloc_def heap_fit_def)

lemma heap_scan_Some:
  assumes "util_vma_heap_validate heap" "nospan_request_ok heap sz alignment" "0 < sz" "0 < alignment"
    and "vma_scan (heap_fit heap sz alignment)
      (if alloc_high heap then enumerate 0 (holes heap) else rev (enumerate 0 (holes heap))) = Some (i, off)"
  shows "i < length (holes heap)" "fits_in (nospan_shift heap) sz alignment (holes heap ! i) (unat off)" "off \<noteq> 0"
proof -
  have below: "holes_below vma_top (holes heap)"
    using assms(1) by (simp add: util_vma_heap_validate_iff)
  obtain h where i: "i < length (holes heap)" and h: "h = holes heap ! i" "heap_fit heap sz alignment h = Some off"
    using vma_scan_Some [OF assms(5)] by (auto simp: set_enumerate_0 split: if_splits)
  have "fits_in (nospan_shift heap) sz alignment h (unat off)"
    using i h(1) holes_below_nth_top [OF below i] by (intro heap_fit_Some [OF assms(2) _ _ assms(3,4) h(2)]) simp_all
  then show "fits_in (nospan_shift heap) sz alignment (holes heap ! i) (unat off)" using h by simp
  then show "off \<noteq> 0" using holes_below_nth(2) [OF below i] by (auto simp: fits_in_def)
  show "i < length (holes heap)" by (rule i)
qed

lemma util_vma_heap_alloc_found:
  assumes "util_vma_heap_validate heap" "nospan_request_ok heap sz alignment" "0 < sz" "0 < alignment"
    and "util_vma_heap_alloc heap sz alignment = (off, heap')" "off \<noteq> 0"
  obtains i where "i < length (holes heap)" "fits_in (nospan_shift heap) sz alignment (holes heap ! i) (unat off)"
    "heap' = util_vma_hole_alloc heap i off sz"
  using assms(5,6) heap_scan_Some(1,2) [OF assms(1-4)] that
  unfolding heap_alloc_scan by (auto split: option.splits prod.splits)

lemma util_vma_heap_alloc_not_found:
  assumes "util_vma_heap_validate heap" "nospan_request_ok heap sz alignment" "0 < sz" "0 < alignment"
    and "util_vma_heap_alloc heap sz alignment = (0, heap')"
  shows "heap' = heap" "i < length (holes heap) \<Longrightarrow> \<not> fits_in (nospan_shift heap) sz alignment (holes heap ! i) a"
proof -
  let ?xs = "if alloc_high heap then enumerate 0 (holes heap) else rev (enumerate 0 (holes heap))"
  have below: "holes_below vma_top (holes heap)"
    using assms(1) by (simp add: util_vma_heap_validate_iff)
  have scan: "vma_scan (heap_fit heap sz alignment) ?xs = None"
    using assms(5) heap_scan_Some(3) [OF assms(1-4)]
    unfolding heap_alloc_scan by (auto split: option.splits)
  then show "heap' = heap" using assms(5) unfolding heap_alloc_scan by simp
  assume i: "i < length (holes heap)"
  then have "(i, holes heap ! i) \<in> set ?xs" by (simp add: set_enumerate_0)
  then have "heap_fit heap sz alignment (holes heap ! i) = None" by (rule vma_scan_None [OF scan])
  then show "\<not> fits_in (nospan_shift heap) sz alignment (holes heap ! i) a"
    using i holes_below_nth_top [OF below i] by (intro heap_fit_None [OF assms(2) _ _ assms(3,4)]) simp_all
qed

subsection \<open>Giving a range back\<close>

lemma vma_free_neighbours:
  fixes off sz :: u64
  defines "highs hs \<equiv> takeWhile (\<lambda>h. off < hole_offset h) hs"
    and "lows hs \<equiv> dropWhile (\<lambda>h. off < hole_offset h) hs"
  assumes below: "holes_below vma_top hs" and sz: "0 < unat sz"
    and disj: "vma_range off sz \<inter> free_addrs hs = {}"
  shows "hs = highs hs @ lows hs"
    and "highs hs \<noteq> [] \<Longrightarrow> unat off + unat sz \<le> hlo (last (highs hs))"
    and "lows hs \<noteq> [] \<Longrightarrow> hhi (hd (lows hs)) \<le> unat off"
proof -
  show hs: "hs = highs hs @ lows hs" by (simp add: highs_def lows_def)
  have wf: "hlo h < hhi h \<and> {hlo h..<hhi h} \<subseteq> free_addrs hs" if "h \<in> set hs" for h
  proof
    show "hlo h < hhi h" using that holes_below_nth(3) [OF below] by (metis in_set_conv_nth)
    show "{hlo h..<hhi h} \<subseteq> free_addrs hs" using that by (auto simp: free_addrs_def)
  qed
  show "unat off + unat sz \<le> hlo (last (highs hs))" if "highs hs \<noteq> []"
  proof -
    let ?h = "last (highs hs)"
    have "?h \<in> set hs" using that hs by (metis Un_iff last_in_set set_append)
    then have "hlo ?h \<in> free_addrs hs" using wf [of ?h] by auto
    moreover have "unat off < hlo ?h"
      using that last_in_set [OF that] unfolding highs_def
      by (metis set_takeWhileD word_less_nat_alt)
    moreover have "hlo ?h \<notin> vma_range off sz" using disj calculation(1) by blast
    ultimately show ?thesis by (simp add:)
  qed
  show "hhi (hd (lows hs)) \<le> unat off" if "lows hs \<noteq> []"
  proof -
    let ?h = "hd (lows hs)"
    have "?h \<in> set hs" using that hs by (metis Un_iff list.set_sel(1) set_append)
    moreover have "\<not> off < hole_offset ?h"
      using that unfolding lows_def by (rule hd_dropWhile)
    then have "hlo ?h \<le> unat off" by (simp add: word_less_nat_alt)
    moreover have "unat off \<in> vma_range off sz" using sz by (simp add:)
    then have "unat off \<notin> {hlo ?h..<hhi ?h}"
      using wf [OF calculation(1)] disj by blast
    ultimately show ?thesis by simp
  qed
qed

text \<open>The four ways the source inserts a range between the holes above and below it.\<close>

definition holes_gain :: "util_vma_hole list \<Rightarrow> util_vma_hole list \<Rightarrow> u64 \<Rightarrow> u64 \<Rightarrow> bool" where
  "holes_gain hs hs' off sz \<longleftrightarrow> holes_below vma_top hs' \<and>
     free_addrs hs' = free_addrs hs \<union> vma_range off sz \<and>
     holes_total hs' = holes_total hs + unat sz"

lemma holes_below_top_hhi: "holes_below vma_top hs \<Longrightarrow> h \<in> set hs \<Longrightarrow> hhi h \<le> 2 ^ 64"
  using holes_below_nth_top by (metis in_set_conv_nth)

lemma gain_both:
  assumes "holes_below vma_top (hs1 @ g # l # ls)" "hhi l = unat off"
    and "unat off + unat sz = hlo g"
  shows "holes_gain (hs1 @ g # l # ls)
    (hs1 @ l\<lparr>hole_size := hole_size l + (sz + hole_size g)\<rparr> # ls) off sz"
proof -
  have g: "hhi g \<le> 2 ^ 64" using assms(1) by (rule holes_below_top_hhi) simp
  have l: "0 < hlo l" using assms(1) by (simp add: holes_below_append)
  have "unat (sz + hole_size g) = unat sz + unat (hole_size g)"
    using g l assms(2,3) by (intro unat_add_no_wrap) simp
  moreover have "unat (hole_size l + (sz + hole_size g))
      = unat (hole_size l) + unat (sz + hole_size g)"
    using g l assms(2,3) calculation by (intro unat_add_no_wrap) simp
  ultimately have s: "unat (hole_size l + (sz + hole_size g))
      = unat (hole_size l) + unat sz + unat (hole_size g)" by simp
  have "holes_below vma_top (hs1 @ l\<lparr>hole_size := hole_size l + (sz + hole_size g)\<rparr> # ls)"
    using assms by (simp add: holes_below_append s)
  moreover have "{hlo l..<hlo l + (unat (hole_size l) + unat sz + unat (hole_size g))} =
      {hlo l..<hhi l} \<union> {unat off..<unat off + unat sz} \<union> {hlo g..<hhi g}"
    using assms(2,3) by auto
  ultimately show ?thesis
    by (simp add: holes_gain_def s Un_ac)
qed

lemma gain_low:
  assumes "holes_below vma_top (highs @ l # ls)" "hhi l = unat off"
    and "highs \<noteq> [] \<Longrightarrow> unat off + unat sz < hlo (last highs)" "unat off + unat sz \<le> 2 ^ 64"
  shows "holes_gain (highs @ l # ls)
    (highs @ l\<lparr>hole_size := hole_size l + sz\<rparr> # ls) off sz"
proof -
  have l: "0 < hlo l" using assms(1) by (simp add: holes_below_append)
  then have s: "unat (hole_size l + sz) = unat (hole_size l) + unat sz"
    using assms(2,4) by (intro unat_add_no_wrap) simp
  have "hlo l + (unat (hole_size l) + unat sz) < lowest vma_top highs"
    using assms(2-4) by (auto simp: lowest_def)
  then have "holes_below vma_top (highs @ l\<lparr>hole_size := hole_size l + sz\<rparr> # ls)"
    using assms(1) by (simp add: holes_below_append s)
  moreover have "{hlo l..<hlo l + (unat (hole_size l) + unat sz)} =
      {hlo l..<hhi l} \<union> {unat off..<unat off + unat sz}"
    using assms(2) by auto
  ultimately show ?thesis
    by (simp add: holes_gain_def s Un_ac)
qed

lemma gain_high:
  assumes "holes_below vma_top (hs1 @ g # lows)" "unat off + unat sz = hlo g"
    and "lows \<noteq> [] \<Longrightarrow> hhi (hd lows) < unat off" "0 < unat off"
  shows "holes_gain (hs1 @ g # lows)
    (hs1 @ g\<lparr>hole_offset := off, hole_size := hole_size g + sz\<rparr> # lows) off sz"
proof -
  have g: "hhi g \<le> 2 ^ 64" using assms(1) by (rule holes_below_top_hhi) simp
  have s: "unat (hole_size g + sz) = unat (hole_size g) + unat sz"
    using g assms(2,4) by (intro unat_add_no_wrap) simp
  have "holes_below (unat off) lows"
    using assms(1,3) by (cases lows) (auto simp: holes_below_append)
  then have "holes_below vma_top
      (hs1 @ g\<lparr>hole_offset := off, hole_size := hole_size g + sz\<rparr> # lows)"
    using assms by (simp add: holes_below_append s)
  moreover have "{unat off..<unat off + (unat (hole_size g) + unat sz)} =
      {hlo g..<hhi g} \<union> {unat off..<unat off + unat sz}"
    using assms(2) by auto
  ultimately show ?thesis
    by (simp add: holes_gain_def s Un_ac)
qed

lemma gain_new:
  assumes "holes_below vma_top (highs @ lows)" "0 < unat off" "0 < unat sz"
    and "unat off + unat sz \<le> 2 ^ 64"
    and "highs \<noteq> [] \<Longrightarrow> unat off + unat sz < hlo (last highs)"
    and "lows \<noteq> [] \<Longrightarrow> hhi (hd lows) < unat off"
  shows "holes_gain (highs @ lows)
    (highs @ \<lparr>hole_offset = off, hole_size = sz\<rparr> # lows) off sz"
proof -
  have "holes_below (unat off) lows"
    using assms(1,6) by (cases lows) (auto simp: holes_below_append)
  moreover have "unat off + unat sz < lowest vma_top highs"
    using assms(4,5) by (auto simp: lowest_def)
  ultimately have "holes_below vma_top (highs @ \<lparr>hole_offset = off, hole_size = sz\<rparr> # lows)"
    using assms by (simp add: holes_below_append)
  then show ?thesis
    by (simp add: holes_gain_def Un_ac)
qed

lemma vma_free_holes_correct:
  assumes below: "holes_below vma_top hs"
    and off: "0 < unat off" and sz: "0 < unat sz" and top: "unat off + unat sz \<le> 2 ^ 64"
    and disj: "vma_range off sz \<inter> free_addrs hs = {}"
  shows "holes_gain hs (vma_free_holes hs off sz) off sz"
proof -
  define highs where "highs = takeWhile (\<lambda>h. off < hole_offset h) hs"
  define lows where "lows = dropWhile (\<lambda>h. off < hole_offset h) hs"
  note nb = vma_free_neighbours [OF below sz disj, folded highs_def lows_def]
  define ha where "ha \<longleftrightarrow> highs \<noteq> [] \<and> off + sz = hole_offset (last highs)"
  define la where "la \<longleftrightarrow> lows \<noteq> [] \<and> hole_offset (hd lows) + hole_size (hd lows) = off"
  have all: "holes_below vma_top (highs @ lows)" using below nb(1) by simp
  have ha: "ha \<longleftrightarrow> highs \<noteq> [] \<and> unat off + unat sz = hlo (last highs)"
    using nb(2) unat_lt64 [of "hole_offset (last highs)"]
    by (auto simp: ha_def word_unat_eq_iff u64_add_wraps_iff)
  have la: "la \<longleftrightarrow> lows \<noteq> [] \<and> hhi (hd lows) = unat off"
    using nb(3) unat_lt64 [of off] by (auto simp: la_def word_unat_eq_iff u64_add_wraps_iff)
  have high: "unat off + unat sz < hlo (last highs)" if "highs \<noteq> []" "\<not> ha"
    using nb(2) [OF that(1)] ha that by linarith
  have low: "hhi (hd lows) < unat off" if "lows \<noteq> []" "\<not> la"
    using nb(3) [OF that(1)] la that by linarith
  have new: "vma_free_holes hs off sz =
    (if la \<and> ha then butlast highs @
       (hd lows)\<lparr>hole_size := hole_size (hd lows) + (sz + hole_size (last highs))\<rparr> # tl lows
     else if la then highs @ (hd lows)\<lparr>hole_size := hole_size (hd lows) + sz\<rparr> # tl lows
     else if ha then butlast highs @
       (last highs)\<lparr>hole_offset := off, hole_size := hole_size (last highs) + sz\<rparr> # lows
     else highs @ \<lparr>hole_offset = off, hole_size = sz\<rparr> # lows)"
    unfolding vma_free_holes_def Let_def highs_def [symmetric] lows_def [symmetric]
      ha_def [symmetric] la_def [symmetric] by (rule refl)
  have snoc: "butlast highs @ last highs # xs = highs @ xs" if ha for xs
    using that ha by (metis append.assoc append_Cons append_Nil append_butlast_last_id)
  have "holes_gain (highs @ lows) (vma_free_holes hs off sz) off sz"
  proof (cases la)
    case True
    then have l: "hd lows # tl lows = lows" "hhi (hd lows) = unat off" using la by simp_all
    show ?thesis
    proof (cases ha)
      case ha': True
      have "holes_gain (highs @ lows) (butlast highs @ (hd lows)\<lparr>hole_size :=
          hole_size (hd lows) + (sz + hole_size (last highs))\<rparr> # tl lows) off sz"
        using gain_both [of "butlast highs" "last highs" "hd lows" "tl lows" off sz] all l ha ha'
        unfolding snoc [OF ha'] l(1) by blast
      then show ?thesis using True ha' new by simp
    next
      case False
      then have "holes_gain (highs @ lows)
          (highs @ (hd lows)\<lparr>hole_size := hole_size (hd lows) + sz\<rparr> # tl lows) off sz"
        using gain_low [of highs "hd lows" "tl lows" off sz] all l top high
        unfolding l(1) by blast
      then show ?thesis using True False new by simp
    qed
  next
    case la': False
    show ?thesis
    proof (cases ha)
      case True
      have "holes_gain (highs @ lows) (butlast highs @ (last highs)
          \<lparr>hole_offset := off, hole_size := hole_size (last highs) + sz\<rparr> # lows) off sz"
        using gain_high [of "butlast highs" "last highs" lows off sz] all off low la' ha True
        unfolding snoc [OF True] by blast
      then show ?thesis using la' True new by simp
    next
      case False
      then have "holes_gain (highs @ lows)
          (highs @ \<lparr>hole_offset = off, hole_size = sz\<rparr> # lows) off sz"
        using gain_new [OF all off sz top] high low la' by blast
      then show ?thesis using la' False new by simp
    qed
  qed
  then show ?thesis using nb(1) by simp
qed

subsection \<open>The hole list is determined by the free addresses\<close>

lemma free_addrs_empty_iff: "holes_below b hs \<Longrightarrow> free_addrs hs = {} \<longleftrightarrow> hs = []"
  by (cases hs) auto

lemma holes_canonical:
  assumes "holes_below b hs" "holes_below c gs" "free_addrs hs = free_addrs gs"
  shows "hs = gs"
  using assms
proof (induction hs arbitrary: gs b c)
  case Nil
  then show ?case using free_addrs_empty_iff by fastforce
next
  case (Cons h hs)
  then obtain g gs' where gs: "gs = g # gs'"
    using free_addrs_empty_iff [of b "h # hs"] by (cases gs) auto
  have below_h: "Suc x < hlo h" if "x \<in> free_addrs hs" for x
    using Cons.prems(1) that free_addrs_bounds [of "hlo h" hs x] by simp
  have below_g: "Suc x < hlo g" if "x \<in> free_addrs gs'" for x
    using Cons.prems(2) that gs free_addrs_bounds [of "hlo g" gs' x] by simp
  have wf: "0 < hlo h" "hlo h < hhi h" "0 < hlo g" "hlo g < hhi g"
    using Cons.prems(1,2) gs by simp_all
  have eq: "{hlo h..<hhi h} \<union> free_addrs hs = {hlo g..<hhi g} \<union> free_addrs gs'"
    using Cons.prems(3) gs by simp
  have mem: "x \<in> {hlo h..<hhi h} \<union> free_addrs hs \<longleftrightarrow> x \<in> {hlo g..<hhi g} \<union> free_addrs gs'" for x
    using eq by blast
  have hi: "hhi h = hhi g"
  proof -
    have "hhi h - 1 < hhi g" using mem [of "hhi h - 1"] wf below_g [of "hhi h - 1"] by force
    moreover have "hhi g - 1 < hhi h" using mem [of "hhi g - 1"] wf below_h [of "hhi g - 1"] by force
    ultimately show ?thesis using wf by linarith
  qed
  have lo: "hlo h = hlo g"
  proof (rule ccontr)
    assume "hlo h \<noteq> hlo g"
    then consider "hlo h < hlo g" | "hlo g < hlo h" by linarith
    then show False
    proof cases
      case 1
      then show False
        using mem [of "hlo g - 1"] wf hi below_g [of "hlo g - 1"] by auto
    next
      case 2
      then show False
        using mem [of "hlo h - 1"] wf hi below_h [of "hlo h - 1"] by auto
    qed
  qed
  have "h = g"
    using lo hi by (cases h; cases g) (simp add: word_unat_eq_iff)
  have "free_addrs hs = free_addrs gs'"
  proof (rule set_eqI)
    fix x
    show "x \<in> free_addrs hs \<longleftrightarrow> x \<in> free_addrs gs'"
      using mem [of x] below_h [of x] below_g [of x] \<open>h = g\<close> by auto
  qed
  then have "hs = gs'"
    using Cons.IH [of "hlo h" "hlo g" gs'] Cons.prems(1,2) gs by simp
  with \<open>h = g\<close> gs show ?case by simp
qed

section \<open>What the heap promises\<close>

lemma vma_alloc_hit:
  assumes "util_vma_heap_validate heap" "nospan_request_ok heap sz alignment" "0 < sz" "0 < alignment"
    and "util_vma_heap_alloc heap sz alignment = (off, heap')" "off \<noteq> 0"
  shows "util_vma_heap_validate heap'" "vma_range off sz \<subseteq> vma_free_set heap"
    "vma_free_set heap' = vma_free_set heap - vma_range off sz"
    "place_ok (nospan_shift heap) sz alignment (unat off)"
    "nospan_shift heap' = nospan_shift heap" "alloc_high heap' = alloc_high heap"
    "free_size heap' = free_size heap - sz"
proof -
  obtain i where i: "i < length (holes heap)" "heap' = util_vma_hole_alloc heap i off sz"
    and fit: "fits_in (nospan_shift heap) sz alignment (holes heap ! i) (unat off)"
    using util_vma_heap_alloc_found [OF assms] by blast
  have lo: "hlo (holes heap ! i) \<le> unat off" and hi: "unat off + unat sz \<le> hhi (holes heap ! i)"
    using fit by (simp_all add: fits_in_def)
  have "0 < unat sz" using assms(3) by (simp add: word_less_nat_alt)
  note al = util_vma_hole_alloc_correct [OF assms(1) i(1) lo hi this]
  show "util_vma_heap_validate heap'" "vma_range off sz \<subseteq> vma_free_set heap"
    "vma_free_set heap' = vma_free_set heap - vma_range off sz"
    using al i(2) by simp_all
  show "place_ok (nospan_shift heap) sz alignment (unat off)" using fit by (simp add: fits_in_def)
  show "nospan_shift heap' = nospan_shift heap" "alloc_high heap' = alloc_high heap"
    "free_size heap' = free_size heap - sz"
    using i(2) by (simp_all add: util_vma_hole_alloc_def)
qed

lemma vma_alloc_miss:
  assumes "util_vma_heap_validate heap" "nospan_request_ok heap sz alignment" "0 < sz" "0 < alignment"
    and "util_vma_heap_alloc heap sz alignment = (0, heap')"
  shows "heap' = heap"
    "place_ok (nospan_shift heap) sz alignment a \<Longrightarrow> \<not> {a..<a + unat sz} \<subseteq> vma_free_set heap"
proof -
  have below: "holes_below vma_top (holes heap)"
    using assms(1) by (simp add: util_vma_heap_validate_iff)
  have sz: "0 < unat sz" using assms(3) by (simp add: word_less_nat_alt)
  note none = util_vma_heap_alloc_not_found [OF assms]
  show "heap' = heap" by (rule none(1))
  have no: "\<not> fits_in (nospan_shift heap) sz alignment h x" if "h \<in> set (holes heap)" for h x
    using none(2) that by (metis in_set_conv_nth)
  show "\<not> {a..<a + unat sz} \<subseteq> vma_free_set heap" if "place_ok (nospan_shift heap) sz alignment a"
    using free_range_in_one_hole [OF below _ sz, of a] no that
    by (auto simp: vma_free_set_def fits_in_def)
qed

lemma no_boundary: "nospan_shift heap = 0 \<Longrightarrow> nospan_request_ok heap sz alignment"
  by (simp add: nospan_request_ok_def)

lemma vma_free_gain:
  assumes "util_vma_heap_validate heap" "0 < off" "0 < sz" "unat off + unat sz \<le> 2 ^ 64"
    and "vma_range off sz \<inter> vma_free_set heap = {}"
  shows "util_vma_heap_validate (util_vma_heap_free heap off sz)"
    "vma_free_set (util_vma_heap_free heap off sz) = vma_free_set heap \<union> vma_range off sz"
proof -
  have below: "holes_below vma_top (holes heap)"
    and tot: "unat (free_size heap) = holes_total (holes heap)"
    using assms(1) by (simp_all add: util_vma_heap_validate_iff)
  have gain: "holes_gain (holes heap) (vma_free_holes (holes heap) off sz) off sz"
    using assms below by (intro vma_free_holes_correct)
      (simp_all add: word_less_nat_alt vma_free_set_def)
  let ?hs = "vma_free_holes (holes heap) off sz"
  have b: "holes_below vma_top ?hs" using gain by (simp add: holes_gain_def)
  have "holes_total ?hs < 2 ^ 64"
  proof (cases ?hs)
    case (Cons h ts)
    then have "holes_total ts < hlo h" "hhi h \<le> 2 ^ 64"
      using b holes_total_less [of "hlo h" ts] by auto
    with Cons show ?thesis by simp
  qed simp
  then have "unat (free_size heap + sz) = holes_total ?hs"
    using gain tot by (subst unat_add_no_wrap) (simp_all add: holes_gain_def)
  then show "util_vma_heap_validate (util_vma_heap_free heap off sz)"
    using b by (simp add: util_vma_heap_validate_iff util_vma_heap_free_def)
  show "vma_free_set (util_vma_heap_free heap off sz) = vma_free_set heap \<union> vma_range off sz"
    using gain by (simp add: vma_free_set_def util_vma_heap_free_def holes_gain_def)
qed

text \<open>The heap implements the range-allocator contract, with no boundary to avoid
  (\<open>nospan_shift = 0\<close>, the setting of \<open>util_vma_heap_init\<close>).\<close>

definition vma_ready :: "util_vma_heap \<Rightarrow> bool" where
  "vma_ready heap \<longleftrightarrow> util_vma_heap_validate heap \<and> nospan_shift heap = 0"

interpretation vma: range_allocator vma_ready vma_free_set util_vma_heap_alloc util_vma_heap_free
proof unfold_locales
  fix h sz al off h'
  assume "vma_ready h" "0 < sz" "0 < al" "util_vma_heap_alloc h sz al = (off, h')" "off \<noteq> 0"
  then show "vma_ready h' \<and> vma_range off sz \<subseteq> vma_free_set h \<and>
      vma_free_set h' = vma_free_set h - vma_range off sz \<and> unat al dvd unat off"
    using vma_alloc_hit [of h sz al off h'] by (simp add: vma_ready_def no_boundary place_ok_def)
next
  fix h sz al h'
  assume "vma_ready h" "0 < sz" "0 < al" "util_vma_heap_alloc h sz al = (0, h')"
  then show "h' = h \<and> \<not> (\<exists>a. unat al dvd a \<and> {a..<a + unat sz} \<subseteq> vma_free_set h)"
    using vma_alloc_miss [of h sz al h'] by (auto simp: vma_ready_def no_boundary place_ok_def)
next
  fix h off sz
  assume "vma_ready h" "0 < off" "0 < sz" "unat off + unat sz \<le> 2 ^ 64"
    "vma_range off sz \<inter> vma_free_set h = {}"
  then show "vma_ready (util_vma_heap_free h off sz) \<and>
      vma_free_set (util_vma_heap_free h off sz) = vma_free_set h \<union> vma_range off sz"
    using vma_free_gain [of h off sz] by (simp add: vma_ready_def util_vma_heap_free_def)
qed

subsection \<open>A fixed address, the largest hole\<close>

lemma vma_find_at_Some:
  assumes "vma_find_at off k hs = Some i"
  shows "k \<le> i" "i - k < length hs" "hole_offset (hs ! (i - k)) \<le> off"
    "j < i - k \<Longrightarrow> off < hole_offset (hs ! j)"
proof -
  have "k \<le> i \<and> i - k < length hs \<and> hole_offset (hs ! (i - k)) \<le> off \<and>
      (\<forall>j < i - k. off < hole_offset (hs ! j))"
    using assms
  proof (induction off k hs rule: vma_find_at.induct)
    case (2 off k h hs)
    show ?case
    proof (cases "off < hole_offset h")
      case True
      with 2 have IH: "Suc k \<le> i" "i - Suc k < length hs" "hole_offset (hs ! (i - Suc k)) \<le> off"
        "\<forall>j < i - Suc k. off < hole_offset (hs ! j)" by auto
      then have "i - k = Suc (i - Suc k)" by simp
      with IH True show ?thesis by (auto simp: less_Suc_eq_0_disj)
    next
      case False
      with 2 show ?thesis by simp
    qed
  qed simp
  then show "k \<le> i" "i - k < length hs" "hole_offset (hs ! (i - k)) \<le> off"
    "j < i - k \<Longrightarrow> off < hole_offset (hs ! j)" by blast+
qed

lemma vma_find_at_None:
  "vma_find_at off k hs = None \<Longrightarrow> h \<in> set hs \<Longrightarrow> off < hole_offset h"
  by (induction off k hs rule: vma_find_at.induct) (auto split: if_splits)

lemma holes_below_sorted:
  assumes "holes_below b hs" "i < j" "j < length hs"
  shows "hhi (hs ! j) < hlo (hs ! i)"
proof -
  have i: "i < length hs" using assms by simp
  have "hs ! j \<in> set (drop (Suc i) hs)"
    using assms(2,3) by (auto simp: in_set_conv_nth intro!: exI [of _ "j - Suc i"])
  then obtain k where k: "k < length (drop (Suc i) hs)" "hs ! j = drop (Suc i) hs ! k"
    by (metis in_set_conv_nth)
  note d = holes_below_nth(5) [OF assms(1) i]
  have "hhi (hs ! j) < lowest (hlo (hs ! i)) (take k (drop (Suc i) hs))"
    using holes_below_nth(4) [OF d k(1)] k(2) by simp
  also have "\<dots> \<le> hlo (hs ! i)"
    using holes_below_nth(1) [OF d k(1)] by (rule lowest_le)
  finally show ?thesis .
qed

lemma vma_alloc_addr_found:
  assumes "util_vma_heap_validate heap" "0 < sz" "unat off + unat sz \<le> 2 ^ 64"
    and "vma_find_at off 0 (holes heap) = Some i"
  shows "i < length (holes heap)" "hlo (holes heap ! i) \<le> unat off"
    and "\<not> hole_size (holes heap ! i) < off - hole_offset (holes heap ! i) + sz \<longleftrightarrow>
      unat off + unat sz \<le> hhi (holes heap ! i)"
    and "vma_range off sz \<subseteq> vma_free_set heap \<Longrightarrow> unat off + unat sz \<le> hhi (holes heap ! i)"
proof -
  let ?h = "holes heap ! i"
  have below: "holes_below vma_top (holes heap)"
    using assms(1) by (simp add: util_vma_heap_validate_iff)
  have sz: "0 < unat sz" using assms(2) by (simp add: word_less_nat_alt)
  note at = vma_find_at_Some [OF assms(4)]
  show i: "i < length (holes heap)" using at(2) by simp
  show lo: "hlo ?h \<le> unat off" using at(3) by (simp add: word_le_nat_alt)
  have "0 < hlo ?h" using holes_below_nth(2) [OF below i] .
  then have "unat (off - hole_offset ?h + sz) = unat off - hlo ?h + unat sz"
    using lo assms(3) by (simp add: unat_sub_no_wrap u64_add_wraps_iff)
  then show "\<not> hole_size ?h < off - hole_offset ?h + sz \<longleftrightarrow> unat off + unat sz \<le> hhi ?h"
    using lo by (auto simp: word_less_nat_alt)
  show "unat off + unat sz \<le> hhi ?h" if sub: "vma_range off sz \<subseteq> vma_free_set heap"
  proof -
    have sub': "{unat off..<unat off + unat sz} \<subseteq> free_addrs (holes heap)"
      using sub by (simp add: vma_free_set_def)
    obtain j where j: "j < length (holes heap)" "hlo (holes heap ! j) \<le> unat off"
      "unat off + unat sz \<le> hhi (holes heap ! j)"
      using free_range_in_one_hole [OF below sub' sz] by (metis in_set_conv_nth)
    have "\<not> j < i" using at(4) [of j] j(2) by (auto simp: word_less_nat_alt)
    moreover have "\<not> i < j"
      using holes_below_sorted [OF below _ j(1), of i] lo j(3) sz by auto
    ultimately have "i = j" by simp
    with j(3) show ?thesis by simp
  qed
qed

lemma fold_max_iff:
  "(x::u64) \<le> fold (\<lambda>h m. max m (hole_size h)) hs m \<longleftrightarrow> x \<le> m \<or> (\<exists>h\<in>set hs. x \<le> hole_size h)"
  by (induction hs arbitrary: m) (auto simp: le_max_iff_disj)

lemma card_free_addrs: "holes_below b hs \<Longrightarrow> card (free_addrs hs) = holes_total hs"
proof (induction hs arbitrary: b)
  case (Cons h hs)
  then have "free_addrs hs \<subseteq> {..<hlo h}" using free_addrs_bounds [of "hlo h" hs] by fastforce
  moreover have "finite (free_addrs hs)" by (simp add: free_addrs_def)
  ultimately have "card ({hlo h..<hhi h} \<union> free_addrs hs) = card {hlo h..<hhi h} + card (free_addrs hs)"
    by (intro card_Un_disjoint) auto
  with Cons show ?case by auto
qed simp

lemma card_vma_free_set:
  "util_vma_heap_validate heap \<Longrightarrow> unat (free_size heap) = card (vma_free_set heap)"
  using card_free_addrs by (auto simp: util_vma_heap_validate_iff vma_free_set_def)

text \<open>A valid heap is determined by its free addresses and its two settings.\<close>

lemma vma_heap_eqI:
  fixes h h' :: util_vma_heap
  assumes "util_vma_heap_validate h" "util_vma_heap_validate h'" "vma_free_set h = vma_free_set h'"
    and "alloc_high h = alloc_high h'" "nospan_shift h = nospan_shift h'"
  shows "h = h'"
proof -
  have "holes h = holes h'"
    using assms(1-3)
    by (intro holes_canonical [of vma_top _ vma_top])
      (simp_all add: util_vma_heap_validate_iff vma_free_set_def)
  moreover have "free_size h = free_size h'"
    using card_vma_free_set [OF assms(1)] card_vma_free_set [OF assms(2)] assms(3)
    by (simp add: word_unat_eq_iff)
  ultimately show ?thesis using assms(4,5) by simp
qed

lemma vma_free_flags [simp]:
  "alloc_high (util_vma_heap_free h off sz) = alloc_high h"
  "nospan_shift (util_vma_heap_free h off sz) = nospan_shift h"
  by (simp_all add: util_vma_heap_free_def)

section \<open>Properties\<close>

text \<open>An example heap for the witnesses: two holes, \<open>[4096, 8192)\<close> and \<open>[32, 96)\<close>.\<close>

definition vma_example :: util_vma_heap where
  "vma_example = \<lparr>holes = [\<lparr>hole_offset = 4096, hole_size = 4096\<rparr>,
     \<lparr>hole_offset = 32, hole_size = 64\<rparr>], free_size = 4160, alloc_high = False, nospan_shift = 0\<rparr>"

lemma vma_example_ok: "util_vma_heap_validate vma_example"
  by (simp add: vma_example_def util_vma_heap_validate_def)

text \<open>A heap for requests that must not cross 64-byte boundaries: one hole, \<open>[40, 1024)\<close>.\<close>

definition nospan_example :: util_vma_heap where
  "nospan_example = \<lparr>holes = [\<lparr>hole_offset = 40, hole_size = 984\<rparr>], free_size = 984,
     alloc_high = False, nospan_shift = 6\<rparr>"

lemma nospan_example_ok:
  "util_vma_heap_validate nospan_example" "nospan_request_ok nospan_example 48 8"
  by (simp_all add: nospan_example_def util_vma_heap_validate_def nospan_request_ok_def low_boundary_def)

lemma nospan_example_alloc:
  "util_vma_heap_alloc nospan_example 48 8 = (64, snd (util_vma_heap_alloc nospan_example 48 8))"
  by (simp add: nospan_example_def util_vma_heap_alloc_def vma_fit_low_def BITFIELD64_MASK_def BITFIELD64_BIT_def)

text \<open>C4. On a heap without a boundary (\<open>nospan_shift\<close> 0), or for a request that \<open>nospan_request_ok\<close> allows with
  one (allocation from the bottom, a size up to the boundary, an alignment that divides it, holes
  that end at least a boundary below \<open>2 ^ 64\<close>), a successful allocation returns an aligned range that
  was entirely free and does not cross a boundary, takes exactly that range out of the free
  addresses and the byte count, and leaves a heap that passes the code's own validation.\<close>

theorem vma_alloc_sound:
  assumes "util_vma_heap_validate heap" "nospan_request_ok heap sz alignment" "0 < sz" "0 < alignment"
    and "util_vma_heap_alloc heap sz alignment = (off, heap')" "off \<noteq> 0"
  shows "util_vma_heap_validate heap' \<and> vma_range off sz \<subseteq> vma_free_set heap \<and>
    vma_free_set heap' = vma_free_set heap - vma_range off sz \<and>
    unat alignment dvd unat off \<and>
    (nospan_shift heap \<noteq> 0 \<longrightarrow>
      unat off div 2 ^ nospan_shift heap = (unat off + unat sz - 1) div 2 ^ nospan_shift heap) \<and>
    unat (free_size heap') = card (vma_free_set heap')"
proof -
  note hit = vma_alloc_hit [OF assms]
  show ?thesis using hit(1-4) card_vma_free_set [OF hit(1)] by (auto simp: place_ok_def)
qed

theorem vma_alloc_sound_witness:
  "util_vma_heap_validate (snd (util_vma_heap_alloc vma_example 48 16)) \<and>
   fst (util_vma_heap_alloc vma_example 48 16) = 32 \<and>
   util_vma_heap_validate (snd (util_vma_heap_alloc nospan_example 48 8)) \<and>
   fst (util_vma_heap_alloc nospan_example 48 8) = 64"
proof -
  have eq: "util_vma_heap_alloc vma_example 48 16 =
      (32, snd (util_vma_heap_alloc vma_example 48 16))"
    by (simp add: vma_example_def util_vma_heap_alloc_def vma_fit_low_def)
  have "nospan_request_ok vma_example 48 16" by (simp add: vma_example_def no_boundary)
  then show ?thesis
    using vma_alloc_sound [OF vma_example_ok _ _ _ eq] eq [THEN arg_cong, of fst]
      vma_alloc_sound [OF nospan_example_ok _ _ nospan_example_alloc]
      nospan_example_alloc [THEN arg_cong, of fst] by simp
qed

text \<open>C5. On a heap without a boundary, or for a request that \<open>nospan_request_ok\<close> allows, allocation fails exactly when no free range of the requested size that
  is aligned and, if a boundary is set, does not cross it exists anywhere in the heap, and a failed
  allocation changes nothing.\<close>

theorem vma_alloc_complete:
  assumes "util_vma_heap_validate heap" "nospan_request_ok heap sz alignment" "0 < sz" "0 < alignment"
    and "util_vma_heap_alloc heap sz alignment = (off, heap')"
  shows "(off = 0 \<longleftrightarrow>
      (\<nexists>a. unat alignment dvd a \<and>
         (nospan_shift heap = 0 \<or> a div 2 ^ nospan_shift heap = (a + unat sz - 1) div 2 ^ nospan_shift heap) \<and>
         {a..<a + unat sz} \<subseteq> vma_free_set heap)) \<and>
    (off = 0 \<longrightarrow> heap' = heap)"
proof (cases "off = 0")
  case True
  note miss = vma_alloc_miss [OF assms(1-4) assms(5) [unfolded True]]
  show ?thesis using True miss(1) miss(2) [unfolded place_ok_def] by blast
next
  case False
  then show ?thesis using vma_alloc_hit(2,4) [OF assms] by (auto simp: place_ok_def)
qed

theorem vma_alloc_complete_witness:
  "util_vma_heap_alloc vma_example 8192 16 = (0, vma_example) \<and>
   (\<nexists>a. 16 dvd a \<and> {a..<a + 8192} \<subseteq> vma_free_set vma_example) \<and>
   (\<exists>a. 8 dvd a \<and> a div 64 = (a + 48 - 1) div 64 \<and> {a..<a + 48} \<subseteq> vma_free_set nospan_example)"
proof -
  have eq: "util_vma_heap_alloc vma_example 8192 16 = (0, vma_example)"
    by (simp add: vma_example_def util_vma_heap_alloc_def vma_fit_low_def)
  have "nospan_shift vma_example = 0" "nospan_shift nospan_example = 6"
    by (simp_all add: vma_example_def nospan_example_def)
  then show ?thesis
    using vma_alloc_complete [OF vma_example_ok no_boundary _ _ eq] eq
      vma_alloc_complete [OF nospan_example_ok _ _ nospan_example_alloc] by (auto simp: conj_ac)
qed

text \<open>C6. Giving back a range that is not free, and does not reach beyond \<open>2 ^ 64\<close>, merges it
  with both neighbours as needed: the result is valid and its free addresses are the old ones
  and the range.\<close>

theorem vma_free_sound:
  assumes "util_vma_heap_validate heap" "0 < off" "0 < sz" "unat off + unat sz \<le> 2 ^ 64"
    and "vma_range off sz \<inter> vma_free_set heap = {}"
  shows "util_vma_heap_validate (util_vma_heap_free heap off sz) \<and>
    vma_free_set (util_vma_heap_free heap off sz) = vma_free_set heap \<union> vma_range off sz"
  using vma_free_gain [OF assms] by simp

theorem vma_free_sound_witness:
  "util_vma_heap_validate (util_vma_heap_free vma_example 96 4000) \<and>
   holes (util_vma_heap_free vma_example 96 4000) = [\<lparr>hole_offset = 32, hole_size = 8160\<rparr>]"
proof -
  have "vma_range 96 4000 \<inter> vma_free_set vma_example = {}"
    by (auto simp: vma_free_set_def vma_example_def)
  then have "util_vma_heap_validate (util_vma_heap_free vma_example 96 4000)"
    using vma_free_sound [OF vma_example_ok, of 96 4000] by simp
  moreover have "holes (util_vma_heap_free vma_example 96 4000) =
      [\<lparr>hole_offset = 32, hole_size = 8160\<rparr>]"
    by (simp add: util_vma_heap_free_def vma_free_holes_def vma_example_def)
  ultimately show ?thesis by blast
qed

text \<open>C15. On a heap without a boundary, or for a request that \<open>nospan_request_ok\<close> allows, freeing what was just allocated restores the heap exactly, down to
  the order and the extent of every hole.\<close>

theorem vma_alloc_free_roundtrip:
  assumes "util_vma_heap_validate heap" "nospan_request_ok heap sz alignment" "0 < sz" "0 < alignment"
    and "util_vma_heap_alloc heap sz alignment = (off, heap')" "off \<noteq> 0"
  shows "util_vma_heap_free heap' off sz = heap"
proof -
  note hit = vma_alloc_hit [OF assms]
  have below: "holes_below vma_top (holes heap)"
    using assms(1) by (simp add: util_vma_heap_validate_iff)
  have "0 < unat sz" using assms(3) by (simp add: word_less_nat_alt)
  then have "unat off + unat sz - 1 \<in> vma_free_set heap" using hit(2) by auto
  then have top: "unat off + unat sz \<le> 2 ^ 64"
    using free_addrs_bounds [OF below] by (fastforce simp: vma_free_set_def)
  have off: "0 < off" using assms(6) by (simp add: word_gt_0)
  note free = vma_free_gain [OF hit(1) off assms(3) top]
  have "vma_free_set (util_vma_heap_free heap' off sz) = vma_free_set heap"
    using free(2) hit(2,3) by auto
  then show ?thesis
    using free(1) hit(3,5,6) assms(1)
    by (intro vma_heap_eqI) (auto simp: util_vma_heap_free_def)
qed

theorem vma_alloc_free_roundtrip_witness:
  "util_vma_heap_free (snd (util_vma_heap_alloc vma_example 48 16)) 32 48 = vma_example \<and>
   util_vma_heap_free (snd (util_vma_heap_alloc nospan_example 48 8)) 64 48 = nospan_example"
proof -
  have "util_vma_heap_alloc vma_example 48 16 =
      (32, snd (util_vma_heap_alloc vma_example 48 16))"
    by (simp add: vma_example_def util_vma_heap_alloc_def vma_fit_low_def)
  then show ?thesis
    using vma_alloc_free_roundtrip [OF vma_example_ok no_boundary, of 48 16 32]
      vma_alloc_free_roundtrip [OF nospan_example_ok _ _ nospan_example_alloc] by (simp add: vma_example_def)
qed

text \<open>C16. Allocating at a given address succeeds exactly when every address of the range is
  free; it then removes exactly that range, and otherwise leaves the heap as it was.\<close>

theorem vma_alloc_addr_exact:
  assumes "util_vma_heap_validate heap" "0 < sz" "unat off + unat sz \<le> 2 ^ 64"
    and "util_vma_heap_alloc_addr heap off sz = (ok, heap')"
  shows "(ok \<longleftrightarrow> vma_range off sz \<subseteq> vma_free_set heap) \<and> util_vma_heap_validate heap' \<and>
    vma_free_set heap' = (if ok then vma_free_set heap - vma_range off sz else vma_free_set heap)"
proof (cases "vma_find_at off 0 (holes heap)")
  case None
  have "\<not> vma_range off sz \<subseteq> vma_free_set heap"
  proof
    assume "vma_range off sz \<subseteq> vma_free_set heap"
    moreover have "unat off \<in> vma_range off sz"
      using assms(2) by (simp add: word_less_nat_alt)
    ultimately have "unat off \<in> vma_free_set heap" by blast
    then obtain h where "h \<in> set (holes heap)" "hlo h \<le> unat off"
      by (auto simp: vma_free_set_def free_addrs_def)
    then show False using vma_find_at_None [OF None] by (fastforce simp: word_less_nat_alt)
  qed
  with None assms(1,4) show ?thesis by (auto simp: util_vma_heap_alloc_addr_def)
next
  case (Some i)
  note at = vma_alloc_addr_found [OF assms(1-3) Some]
  show ?thesis
  proof (cases "unat off + unat sz \<le> hhi (holes heap ! i)")
    case True
    then have "ok" "heap' = util_vma_hole_alloc heap i off sz"
      using assms(4) at(3) Some by (auto simp: util_vma_heap_alloc_addr_def split: if_splits)
    moreover have "0 < unat sz" using assms(2) by (simp add: word_less_nat_alt)
    ultimately show ?thesis
      using util_vma_hole_alloc_correct [OF assms(1) at(1,2) True] by simp
  next
    case False
    then have "\<not> ok" "heap' = heap"
      using assms(4) at(3) Some by (auto simp: util_vma_heap_alloc_addr_def split: if_splits)
    with False at(4) assms(1) show ?thesis by auto
  qed
qed

theorem vma_alloc_addr_exact_witness:
  "fst (util_vma_heap_alloc_addr vma_example 4608 512) \<and>
   vma_range 4608 512 \<subseteq> vma_free_set vma_example"
proof -
  have eq: "util_vma_heap_alloc_addr vma_example 4608 512 =
      (True, snd (util_vma_heap_alloc_addr vma_example 4608 512))"
    by (simp add: util_vma_heap_alloc_addr_def vma_example_def)
  have "fst (util_vma_heap_alloc_addr vma_example 4608 512)" by (subst eq) simp
  then show ?thesis using vma_alloc_addr_exact [OF vma_example_ok _ _ eq] by simp
qed

text \<open>C17. The largest-hole query is exact: a positive number of bytes is free in one piece
  somewhere in the heap exactly when it does not exceed the reported size.\<close>

theorem vma_max_free_exact:
  assumes "util_vma_heap_validate heap" "0 < n"
  shows "(\<exists>a. {a..<a + n} \<subseteq> vma_free_set heap) \<longleftrightarrow>
    n \<le> unat (util_vma_heap_get_max_free_continuous_size heap)"
proof
  have below: "holes_below vma_top (holes heap)"
    using assms(1) by (simp add: util_vma_heap_validate_iff)
  assume "\<exists>a. {a..<a + n} \<subseteq> vma_free_set heap"
  then obtain a where "{a..<a + n} \<subseteq> free_addrs (holes heap)" by (auto simp: vma_free_set_def)
  then obtain h where "h \<in> set (holes heap)" "hlo h \<le> a" "a + n \<le> hhi h"
    using free_range_in_one_hole [OF below _ assms(2)] by blast
  moreover from this have "unat (hole_size h) \<le>
      unat (util_vma_heap_get_max_free_continuous_size heap)"
    using fold_max_iff [of "hole_size h" "holes heap" 0]
    by (auto simp: util_vma_heap_get_max_free_continuous_size_def word_le_nat_alt)
  ultimately show "n \<le> unat (util_vma_heap_get_max_free_continuous_size heap)" by linarith
next
  let ?m = "util_vma_heap_get_max_free_continuous_size heap"
  assume n: "n \<le> unat ?m"
  with assms(2) have "?m \<noteq> 0" by auto
  then obtain h where h: "h \<in> set (holes heap)" "?m \<le> hole_size h"
    using fold_max_iff [of ?m "holes heap" 0]
    by (auto simp: util_vma_heap_get_max_free_continuous_size_def)
  then have "{hlo h..<hlo h + n} \<subseteq> {hlo h..<hhi h}" using n by (auto simp: word_le_nat_alt)
  then show "\<exists>a. {a..<a + n} \<subseteq> vma_free_set heap"
    using h(1) by (auto simp: vma_free_set_def free_addrs_def intro!: exI [of _ "hlo h"])
qed

theorem vma_max_free_exact_witness:
  "\<exists>a. {a..<a + 4096} \<subseteq> vma_free_set vma_example"
  using vma_max_free_exact [OF vma_example_ok, of 4096]
  by (simp add: util_vma_heap_get_max_free_continuous_size_def vma_example_def)

section \<open>A deviation\<close>

text \<open>When a request from the top of a hole would cross a \<open>2 ^ nospan_shift\<close> boundary, the code
  moves it down by its own size instead of below the boundary. On a valid heap with
  one free range \<open>[1, 33)\<close> and 16-byte boundaries, a 12-byte request therefore gets
  \<open>[9, 21)\<close>, which crosses the boundary at 16 although \<open>[16, 28)\<close> was free; and on the
  free range \<open>[1, 17)\<close> it gets an address outside the heap and an invalid heap. No code of the
  repository sets \<open>nospan_shift\<close>.\<close>

lemma nospan_high_crosses:
  "let heap = \<lparr>holes = [\<lparr>hole_offset = 1, hole_size = 32\<rparr>], free_size = 32,
                alloc_high = True, nospan_shift = 4\<rparr>;
       small = \<lparr>holes = [\<lparr>hole_offset = 1, hole_size = 16\<rparr>], free_size = 16,
                alloc_high = True, nospan_shift = 4\<rparr>
   in util_vma_heap_validate heap \<and> fst (util_vma_heap_alloc heap 12 1) = 9 \<and>
      drop_bit 4 (9 :: u64) \<noteq> drop_bit 4 (9 + 12 - 1) \<and>
      vma_range 16 12 \<subseteq> vma_free_set heap \<and>
      util_vma_heap_validate small \<and>
      fst (util_vma_heap_alloc small 12 1) = 18446744073709551609 \<and>
      \<not> util_vma_heap_validate (snd (util_vma_heap_alloc small 12 1))"
  by (simp add: util_vma_heap_validate_def util_vma_heap_alloc_def vma_fit_high_def
      util_vma_hole_alloc_def vma_hole_split_def vma_free_set_def)

end
