(* ===== verification/Descriptor_Layout.thy ===== *)
theory Descriptor_Layout
  imports Radv_Prelude "HOL-Library.Monad_Syntax" "HOL-Library.Multiset"
begin

text \<open>
  Descriptor set layouts: \<open>src/src/amd/vulkan/radv_descriptors.c\<close> (sizes and alignments of the
  descriptor types), \<open>radv_CreateDescriptorSetLayout\<close> and
  \<open>radv_GetDescriptorSetLayoutSupport\<close> of \<open>src/src/amd/vulkan/radv_descriptor_set.c\<close>, and
  \<open>vk_create_sorted_bindings\<close> of \<open>src/src/vulkan/runtime/vk_descriptors.c\<close>.

  A layout object is one block of memory: the header, the array \<open>binding\<close>, the immutable
  sampler words, the table of YCbCr offsets and the YCbCr conversion states. The model keeps the
  arrays as lists of the length the code allocates; an access outside them, or through a missing
  \<open>pNext\<close> structure, is \<open>None\<close>. The size of the header (\<open>offsetof (binding)\<close>), the plane
  count of a format (a generated table) and the BLAKE3 hash are parameters.
\<close>

section \<open>Descriptor types\<close>

datatype VkDescriptorType =
    VK_DESCRIPTOR_TYPE_SAMPLER
  | VK_DESCRIPTOR_TYPE_COMBINED_IMAGE_SAMPLER
  | VK_DESCRIPTOR_TYPE_SAMPLED_IMAGE
  | VK_DESCRIPTOR_TYPE_STORAGE_IMAGE
  | VK_DESCRIPTOR_TYPE_UNIFORM_TEXEL_BUFFER
  | VK_DESCRIPTOR_TYPE_STORAGE_TEXEL_BUFFER
  | VK_DESCRIPTOR_TYPE_UNIFORM_BUFFER
  | VK_DESCRIPTOR_TYPE_STORAGE_BUFFER
  | VK_DESCRIPTOR_TYPE_UNIFORM_BUFFER_DYNAMIC
  | VK_DESCRIPTOR_TYPE_STORAGE_BUFFER_DYNAMIC
  | VK_DESCRIPTOR_TYPE_INPUT_ATTACHMENT
  | VK_DESCRIPTOR_TYPE_INLINE_UNIFORM_BLOCK
  | VK_DESCRIPTOR_TYPE_ACCELERATION_STRUCTURE_KHR
  | VK_DESCRIPTOR_TYPE_ACCELERATION_STRUCTURE_NV
  | VK_DESCRIPTOR_TYPE_SAMPLE_WEIGHT_IMAGE_QCOM
  | VK_DESCRIPTOR_TYPE_BLOCK_MATCH_IMAGE_QCOM
  | VK_DESCRIPTOR_TYPE_TENSOR_ARM
  | VK_DESCRIPTOR_TYPE_MUTABLE_EXT
  | VK_DESCRIPTOR_TYPE_PARTITIONED_ACCELERATION_STRUCTURE_NV

definition RADV_SAMPLER_DESC_SIZE :: u32 where "RADV_SAMPLER_DESC_SIZE = 16"
definition RADV_STORAGE_IMAGE_DESC_SIZE :: u32 where "RADV_STORAGE_IMAGE_DESC_SIZE = 32"
definition RADV_BUFFER_DESC_SIZE :: u32 where "RADV_BUFFER_DESC_SIZE = 16"
definition RADV_ACCEL_STRUCT_DESC_SIZE :: u32 where "RADV_ACCEL_STRUCT_DESC_SIZE = 16"

lemmas desc_size_defs = RADV_SAMPLER_DESC_SIZE_def RADV_STORAGE_IMAGE_DESC_SIZE_def
  RADV_BUFFER_DESC_SIZE_def RADV_ACCEL_STRUCT_DESC_SIZE_def

text \<open>The two facts about the physical device that the descriptor sizes depend on.\<close>

record radv_physical_device =
  use_fmask :: bool
  force_64_byte_sampled_image :: bool

definition radv_get_sampled_image_desc_size :: "radv_physical_device \<Rightarrow> u32" where
  "radv_get_sampled_image_desc_size pdev =
     32 + (if use_fmask pdev \<or> force_64_byte_sampled_image pdev then 32 else 0)"

definition radv_get_combined_image_sampler_desc_size :: "radv_physical_device \<Rightarrow> u32" where
  "radv_get_combined_image_sampler_desc_size pdev =
     align32 (radv_get_sampled_image_desc_size pdev + RADV_SAMPLER_DESC_SIZE) 32"

definition radv_get_combined_image_sampler_offset :: "radv_physical_device \<Rightarrow> u32" where
  "radv_get_combined_image_sampler_offset pdev =
     radv_get_combined_image_sampler_desc_size pdev - RADV_SAMPLER_DESC_SIZE"

fun radv_descriptor_alignment :: "VkDescriptorType \<Rightarrow> u32" where
  "radv_descriptor_alignment VK_DESCRIPTOR_TYPE_UNIFORM_BUFFER = 16"
| "radv_descriptor_alignment VK_DESCRIPTOR_TYPE_STORAGE_BUFFER = 16"
| "radv_descriptor_alignment VK_DESCRIPTOR_TYPE_UNIFORM_TEXEL_BUFFER = 16"
| "radv_descriptor_alignment VK_DESCRIPTOR_TYPE_STORAGE_TEXEL_BUFFER = 16"
| "radv_descriptor_alignment VK_DESCRIPTOR_TYPE_SAMPLER = 16"
| "radv_descriptor_alignment VK_DESCRIPTOR_TYPE_INLINE_UNIFORM_BLOCK = 16"
| "radv_descriptor_alignment VK_DESCRIPTOR_TYPE_ACCELERATION_STRUCTURE_KHR = 16"
| "radv_descriptor_alignment VK_DESCRIPTOR_TYPE_STORAGE_IMAGE = 32"
| "radv_descriptor_alignment VK_DESCRIPTOR_TYPE_SAMPLED_IMAGE = 32"
| "radv_descriptor_alignment VK_DESCRIPTOR_TYPE_INPUT_ATTACHMENT = 32"
| "radv_descriptor_alignment VK_DESCRIPTOR_TYPE_COMBINED_IMAGE_SAMPLER = 32"
| "radv_descriptor_alignment VK_DESCRIPTOR_TYPE_MUTABLE_EXT = 32"
| "radv_descriptor_alignment _ = 1"

text \<open>The size of one member of a mutable type list; \<open>None\<close> is the \<open>default\<close> branch.\<close>

fun mutable_member_size :: "radv_physical_device \<Rightarrow> VkDescriptorType \<Rightarrow> u32 option" where
  "mutable_member_size pdev VK_DESCRIPTOR_TYPE_UNIFORM_BUFFER = Some RADV_BUFFER_DESC_SIZE"
| "mutable_member_size pdev VK_DESCRIPTOR_TYPE_STORAGE_BUFFER = Some RADV_BUFFER_DESC_SIZE"
| "mutable_member_size pdev VK_DESCRIPTOR_TYPE_UNIFORM_TEXEL_BUFFER = Some RADV_BUFFER_DESC_SIZE"
| "mutable_member_size pdev VK_DESCRIPTOR_TYPE_STORAGE_TEXEL_BUFFER = Some RADV_BUFFER_DESC_SIZE"
| "mutable_member_size pdev VK_DESCRIPTOR_TYPE_ACCELERATION_STRUCTURE_KHR =
     Some RADV_BUFFER_DESC_SIZE"
| "mutable_member_size pdev VK_DESCRIPTOR_TYPE_SAMPLER = Some RADV_SAMPLER_DESC_SIZE"
| "mutable_member_size pdev VK_DESCRIPTOR_TYPE_STORAGE_IMAGE = Some RADV_STORAGE_IMAGE_DESC_SIZE"
| "mutable_member_size pdev VK_DESCRIPTOR_TYPE_SAMPLED_IMAGE =
     Some (radv_get_sampled_image_desc_size pdev)"
| "mutable_member_size pdev _ = None"

text \<open>The loop of \<open>radv_mutable_descriptor_type_size_alignment\<close> with its running maxima; the
  function returns \<open>false\<close>, and does not write its results, on an unsupported type.\<close>

fun mutable_size_loop ::
  "radv_physical_device \<Rightarrow> VkDescriptorType list \<Rightarrow> u32 \<Rightarrow> u32 \<Rightarrow> (u32 \<times> u32) option" where
  "mutable_size_loop pdev [] max_size max_align = Some (max_size, max_align)"
| "mutable_size_loop pdev (ty # tys) max_size max_align =
     (case mutable_member_size pdev ty of
        None \<Rightarrow> None
      | Some sz \<Rightarrow> mutable_size_loop pdev tys (max max_size sz)
                    (max max_align (radv_descriptor_alignment ty)))"

definition radv_mutable_descriptor_type_size_alignment ::
  "radv_physical_device \<Rightarrow> VkDescriptorType list \<Rightarrow> (u64 \<times> u64) option" where
  "radv_mutable_descriptor_type_size_alignment pdev tys =
     map_option (\<lambda>(sz, al). (ucast sz, ucast al)) (mutable_size_loop pdev tys 0 0)"

section \<open>The create info and the layout object\<close>

type_synonym dwords4 = "u32 \<times> u32 \<times> u32 \<times> u32"

fun dwords4_list :: "dwords4 \<Rightarrow> u32 list" where
  "dwords4_list (a, b, c, d) = [a, b, c, d]"

record vk_ycbcr_conversion_state =
  yc_format :: u32
  yc_model :: u32
  yc_range :: u32
  yc_mapping :: dwords4
  yc_chroma_offsets :: "u32 \<times> u32"
  yc_chroma_filter :: u32
  yc_chroma_reconstruction :: bool

definition ycbcr_zero :: vk_ycbcr_conversion_state where
  "ycbcr_zero = \<lparr>yc_format = 0, yc_model = 0, yc_range = 0, yc_mapping = (0, 0, 0, 0),
     yc_chroma_offsets = (0, 0), yc_chroma_filter = 0, yc_chroma_reconstruction = False\<rparr>"

definition VK_FORMAT_UNDEFINED :: u32 where "VK_FORMAT_UNDEFINED = 0"

record radv_sampler =
  sampler_state :: dwords4
  ycbcr_conversion :: "vk_ycbcr_conversion_state option"

record VkDescriptorSetLayoutBinding =
  binding :: u32
  descriptorType :: VkDescriptorType
  descriptorCount :: u32
  stageFlags :: u32
  pImmutableSamplers :: "radv_sampler list option"

record VkDescriptorSetLayoutCreateInfo =
  ci_flags :: u32
  pBindings :: "VkDescriptorSetLayoutBinding list"
  pBindingFlags :: "u32 list option"
  pMutableDescriptorTypeLists :: "VkDescriptorType list list option"

record radv_descriptor_set_binding_layout =
  bl_type :: VkDescriptorType
  array_size :: u32
  bl_offset :: u32
  dynamic_offset_offset :: u16
  dynamic_offset_count :: u16
  bl_size :: u32
  immutable_samplers_offset :: u32
  has_ycbcr_sampler :: bool

definition binding_layout_zero :: radv_descriptor_set_binding_layout where
  "binding_layout_zero = \<lparr>bl_type = VK_DESCRIPTOR_TYPE_SAMPLER, array_size = 0, bl_offset = 0,
     dynamic_offset_offset = 0, dynamic_offset_count = 0, bl_size = 0,
     immutable_samplers_offset = 0, has_ycbcr_sampler = False\<rparr>"

record radv_descriptor_set_layout =
  ref_cnt :: u32
  layout_hash :: "u8 list"
  layout_flags :: u32
  layout_size :: u32
  dynamic_shader_stages :: u16
  layout_dynamic_offset_count :: u16
  has_immutable_samplers :: bool
  has_variable_descriptors :: bool
  ycbcr_sampler_offsets_offset :: u32
  bindings :: "radv_descriptor_set_binding_layout list"
  sampler_words :: "u32 list"
  ycbcr_offsets :: "u32 list"
  ycbcr_states :: "vk_ycbcr_conversion_state list"

section \<open>Sorting the bindings\<close>

text \<open>\<open>mem i\<close> says whether the \<open>i\<close>-th \<open>malloc\<close> of the call succeeds. Binding numbers are
  distinct in a valid create info, so \<open>qsort\<close> has one possible result.\<close>

definition vk_create_sorted_bindings ::
  "(nat \<Rightarrow> bool) \<Rightarrow> VkDescriptorSetLayoutBinding list \<Rightarrow> u32 list option \<Rightarrow>
   VkResult + VkDescriptorSetLayoutBinding list \<times> u32 list option" where
  "vk_create_sorted_bindings mem bs flags_info =
     (if bs = [] then Inr ([], None)
      else if \<not> mem 0 then Inl VK_ERROR_OUT_OF_HOST_MEMORY
      else
        let flags_info = (if flags_info = Some [] then None else flags_info)
        in if flags_info \<noteq> None \<and> \<not> mem 1 then Inl VK_ERROR_OUT_OF_HOST_MEMORY
           else if \<not> mem 2 then Inl VK_ERROR_OUT_OF_HOST_MEMORY
           else
             let bwfs = sort_key (\<lambda>bf. binding (fst bf))
                   (zip bs (case flags_info of Some fs \<Rightarrow> fs | None \<Rightarrow> map (\<lambda>_. 0) bs))
             in Inr (map fst bwfs, map_option (\<lambda>_. map snd bwfs) flags_info))"

section \<open>Creating a layout\<close>

text \<open>The counting loop at the start: the number of bindings, of immutable samplers and of
  YCbCr samplers.\<close>

record layout_counts =
  num_bindings :: u32
  immutable_sampler_count :: u32
  ycbcr_sampler_count :: u32

definition has_immutable :: "VkDescriptorSetLayoutBinding \<Rightarrow> bool" where
  "has_immutable b \<longleftrightarrow>
     (descriptorType b = VK_DESCRIPTOR_TYPE_COMBINED_IMAGE_SAMPLER \<or>
      descriptorType b = VK_DESCRIPTOR_TYPE_SAMPLER) \<and> pImmutableSamplers b \<noteq> None"

text \<open>The first \<open>descriptorCount\<close> entries of \<open>pImmutableSamplers\<close>, all read by the code.\<close>

definition immutable_samplers :: "VkDescriptorSetLayoutBinding \<Rightarrow> radv_sampler list option" where
  "immutable_samplers b =
     (case pImmutableSamplers b of
        None \<Rightarrow> None
      | Some ss \<Rightarrow> array_slice ss 0 (unat (descriptorCount b)))"

definition count_binding ::
  "VkDescriptorSetLayoutBinding \<Rightarrow> layout_counts \<Rightarrow> layout_counts option" where
  "count_binding b c =
     (let c = c\<lparr>num_bindings := max (num_bindings c) (binding b + 1)\<rparr>
      in if has_immutable b then do {
           ss \<leftarrow> immutable_samplers b;
           let c = c\<lparr>immutable_sampler_count := immutable_sampler_count c + descriptorCount b\<rparr>;
           Some (if \<exists>s\<in>set ss. ycbcr_conversion s \<noteq> None
                 then c\<lparr>ycbcr_sampler_count := ycbcr_sampler_count c + descriptorCount b\<rparr>
                 else c)
         } else Some c)"

fun count_bindings ::
  "VkDescriptorSetLayoutBinding list \<Rightarrow> layout_counts \<Rightarrow> layout_counts option" where
  "count_bindings [] c = Some c"
| "count_bindings (b # bs) c = Option.bind (count_binding b c) (count_bindings bs)"

text \<open>\<open>mutable_info->pMutableDescriptorTypeLists[j]\<close>: \<open>None\<close> when the structure is missing or
  too short.\<close>

definition mutable_list :: "VkDescriptorSetLayoutCreateInfo \<Rightarrow> nat \<Rightarrow> VkDescriptorType list option"
where
  "mutable_list ci j =
     (case pMutableDescriptorTypeLists ci of None \<Rightarrow> None | Some ls \<Rightarrow> array_read ls j)"

text \<open>The outputs stay zero when the function returns \<open>false\<close>.\<close>

definition mutable_size_align ::
  "radv_physical_device \<Rightarrow> VkDescriptorSetLayoutCreateInfo \<Rightarrow> nat \<Rightarrow> (u64 \<times> u64) option" where
  "mutable_size_align pdev ci j =
     map_option (\<lambda>tys. case radv_mutable_descriptor_type_size_alignment pdev tys of
         Some r \<Rightarrow> r | None \<Rightarrow> (0, 0)) (mutable_list ci j)"

definition first_alignment_of ::
  "radv_physical_device \<Rightarrow> VkDescriptorSetLayoutCreateInfo \<Rightarrow>
   VkDescriptorSetLayoutBinding list \<Rightarrow> u32 option" where
  "first_alignment_of pdev ci bs =
     (if bs = [] then Some 32
      else do {
        last_alignment \<leftarrow>
          (if descriptorType (last bs) = VK_DESCRIPTOR_TYPE_MUTABLE_EXT
           then map_option (\<lambda>(sz, al). ucast al) (mutable_size_align pdev ci (length bs - 1))
           else Some (radv_descriptor_alignment (descriptorType (last bs))));
        Some (if last_alignment = 32 then 16 else 32)
      })"

definition RADV_RT_STAGE_BITS :: u32 where "RADV_RT_STAGE_BITS = 0x3f00"
definition VK_SHADER_STAGE_COMPUTE_BIT :: u32 where "VK_SHADER_STAGE_COMPUTE_BIT = 0x20"

text \<open>The largest plane count of the YCbCr samplers of a combined image sampler binding, and
  whether there is one.\<close>

definition combined_planes ::
  "(u32 \<Rightarrow> u32) \<Rightarrow> VkDescriptorSetLayoutBinding \<Rightarrow> (u32 \<times> bool) option" where
  "combined_planes planes b =
     (if descriptorType b = VK_DESCRIPTOR_TYPE_COMBINED_IMAGE_SAMPLER \<and>
         pImmutableSamplers b \<noteq> None
      then do {
        ss \<leftarrow> immutable_samplers b;
        Some (fold (\<lambda>s (m, has). case ycbcr_conversion s of
                      None \<Rightarrow> (m, has)
                    | Some c \<Rightarrow> (max m (planes (yc_format c)), True)) ss (1, False))
      }
      else Some (1, False))"

text \<open>The \<open>switch\<close> on the descriptor type: it sets the element size in the binding's entry
  \<open>bl\<close> (and the dynamic stages), and gives the alignment and the number of elements.\<close>

definition layout_switch ::
  "radv_physical_device \<Rightarrow> VkDescriptorSetLayoutCreateInfo \<Rightarrow> nat \<Rightarrow> u32 \<Rightarrow>
   VkDescriptorSetLayoutBinding \<Rightarrow> radv_descriptor_set_binding_layout \<Rightarrow> u16 \<Rightarrow>
   (radv_descriptor_set_binding_layout \<times> u16 \<times> u32 \<times> u32) option" where
  "layout_switch pdev ci j max_planes b bl stages =
     (let alignment = radv_descriptor_alignment (descriptorType b);
          n = descriptorCount b;
          sized = (\<lambda>sz. Some (bl\<lparr>bl_size := sz\<rparr>, stages, alignment, n));
          dynamic = Some (bl\<lparr>dynamic_offset_count := 1, bl_size := 0\<rparr>,
            let s = ucast (ucast stages OR stageFlags b)
            in if stageFlags b AND RADV_RT_STAGE_BITS \<noteq> 0
               then ucast (ucast s OR VK_SHADER_STAGE_COMPUTE_BIT) else s,
            alignment, n)
      in case descriptorType b of
           VK_DESCRIPTOR_TYPE_UNIFORM_BUFFER_DYNAMIC \<Rightarrow> dynamic
         | VK_DESCRIPTOR_TYPE_STORAGE_BUFFER_DYNAMIC \<Rightarrow> dynamic
         | VK_DESCRIPTOR_TYPE_UNIFORM_BUFFER \<Rightarrow> sized RADV_BUFFER_DESC_SIZE
         | VK_DESCRIPTOR_TYPE_STORAGE_BUFFER \<Rightarrow> sized RADV_BUFFER_DESC_SIZE
         | VK_DESCRIPTOR_TYPE_UNIFORM_TEXEL_BUFFER \<Rightarrow> sized RADV_BUFFER_DESC_SIZE
         | VK_DESCRIPTOR_TYPE_STORAGE_TEXEL_BUFFER \<Rightarrow> sized RADV_BUFFER_DESC_SIZE
         | VK_DESCRIPTOR_TYPE_STORAGE_IMAGE \<Rightarrow> sized RADV_STORAGE_IMAGE_DESC_SIZE
         | VK_DESCRIPTOR_TYPE_SAMPLED_IMAGE \<Rightarrow> sized (radv_get_sampled_image_desc_size pdev)
         | VK_DESCRIPTOR_TYPE_INPUT_ATTACHMENT \<Rightarrow> sized (radv_get_sampled_image_desc_size pdev)
         | VK_DESCRIPTOR_TYPE_COMBINED_IMAGE_SAMPLER \<Rightarrow>
             sized (max_planes * radv_get_combined_image_sampler_desc_size pdev)
         | VK_DESCRIPTOR_TYPE_SAMPLER \<Rightarrow> sized RADV_SAMPLER_DESC_SIZE
         | VK_DESCRIPTOR_TYPE_MUTABLE_EXT \<Rightarrow>
             map_option (\<lambda>(sz, al). (bl\<lparr>bl_size := ucast sz\<rparr>, stages, ucast al, n))
               (mutable_size_align pdev ci j)
         | VK_DESCRIPTOR_TYPE_INLINE_UNIFORM_BLOCK \<Rightarrow>
             Some (bl\<lparr>bl_size := n\<rparr>, stages, alignment, 1)
         | VK_DESCRIPTOR_TYPE_ACCELERATION_STRUCTURE_KHR \<Rightarrow> sized RADV_ACCEL_STRUCT_DESC_SIZE
         | _ \<Rightarrow> Some (bl, stages, alignment, n))"

text \<open>The locals of the placement loop besides the layout object: the positions in the sampler
  words and in the YCbCr states, and the running byte offset and dynamic offset count.\<close>

record layout_cursor =
  lay :: radv_descriptor_set_layout
  samplers :: nat
  samplers_offset :: u32
  ycbcr_samplers :: nat
  ycbcr_base :: u32
  dynamic_count :: u32

definition SIZEOF_BINDING_LAYOUT :: u64 where "SIZEOF_BINDING_LAYOUT = 28"
definition SIZEOF_YCBCR_STATE :: u64 where "SIZEOF_YCBCR_STATE = 44"
definition ALIGNOF_YCBCR_STATE :: u64 where "ALIGNOF_YCBCR_STATE = 4"

definition ycbcr_entry ::
  "radv_sampler \<Rightarrow> vk_ycbcr_conversion_state \<Rightarrow> vk_ycbcr_conversion_state" where
  "ycbcr_entry s old = (case ycbcr_conversion s of
     Some c \<Rightarrow> c | None \<Rightarrow> old\<lparr>yc_format := VK_FORMAT_UNDEFINED\<rparr>)"

text \<open>Copying the immutable samplers of a binding behind the bindings, with their YCbCr states.\<close>

definition layout_samplers ::
  "VkDescriptorSetLayoutBinding \<Rightarrow> bool \<Rightarrow> layout_cursor \<Rightarrow> layout_cursor option" where
  "layout_samplers b has_ycbcr cur = do {
     ss \<leftarrow> immutable_samplers b;
     let i = unat (binding b);
     let l = lay cur;
     let bl = (bindings l ! i)\<lparr>immutable_samplers_offset := samplers_offset cur\<rparr>;
     ws \<leftarrow> array_write (sampler_words l) (samplers cur)
             (concat (map (\<lambda>s. dwords4_list (sampler_state s)) ss));
     let l = l\<lparr>bindings := (bindings l)[i := bl], has_immutable_samplers := True,
               sampler_words := ws\<rparr>;
     let cur = cur\<lparr>lay := l, samplers := samplers cur + unat (4 * descriptorCount b),
                   samplers_offset := samplers_offset cur + 16 * descriptorCount b\<rparr>;
     (if has_ycbcr then do {
        offs \<leftarrow> array_write (ycbcr_offsets l) i
                  [ycbcr_base cur + ucast SIZEOF_YCBCR_STATE * of_nat (ycbcr_samplers cur)];
        old \<leftarrow> array_slice (ycbcr_states l) (ycbcr_samplers cur) (length ss);
        states \<leftarrow> array_write (ycbcr_states l) (ycbcr_samplers cur) (map2 ycbcr_entry ss old);
        Some (cur\<lparr>lay := l\<lparr>ycbcr_offsets := offs, ycbcr_states := states\<rparr>,
                  ycbcr_samplers := ycbcr_samplers cur + unat (descriptorCount b)\<rparr>)
      } else Some cur)
   }"

definition VK_DESCRIPTOR_BINDING_VARIABLE_DESCRIPTOR_COUNT_BIT :: u32 where
  "VK_DESCRIPTOR_BINDING_VARIABLE_DESCRIPTOR_COUNT_BIT = 8"

text \<open>\<open>variable_flags && j < variable_flags->bindingCount && (pBindingFlags[j] & ...)\<close>\<close>

definition variable_at :: "VkDescriptorSetLayoutCreateInfo \<Rightarrow> nat \<Rightarrow> bool" where
  "variable_at ci j =
     (case pBindingFlags ci of
        None \<Rightarrow> False
      | Some fs \<Rightarrow> j < length fs \<and>
          fs ! j AND VK_DESCRIPTOR_BINDING_VARIABLE_DESCRIPTOR_COUNT_BIT \<noteq> 0)"

text \<open>A binding is skipped in the pass that is not its own.\<close>

definition skipped :: "'a::len word \<Rightarrow> nat \<Rightarrow> 'a word \<Rightarrow> bool" where
  "skipped first pass al \<longleftrightarrow> (pass = 0 \<and> al \<noteq> first) \<or> (pass = 1 \<and> al = first)"

text \<open>One iteration of the placement loop.\<close>

definition layout_step ::
  "radv_physical_device \<Rightarrow> (u32 \<Rightarrow> u32) \<Rightarrow> VkDescriptorSetLayoutCreateInfo \<Rightarrow> u32 \<Rightarrow>
   nat \<times> nat \<times> VkDescriptorSetLayoutBinding \<Rightarrow> layout_cursor \<Rightarrow> layout_cursor option" where
  "layout_step pdev planes ci first_alignment item cur = do {
     let (pass, j, b) = item;
     let i = unat (binding b);
     (max_planes, has_ycbcr) \<leftarrow> combined_planes planes b;
     bl \<leftarrow> array_read (bindings (lay cur)) i;
     (bl, stages, alignment, n) \<leftarrow>
       layout_switch pdev ci j max_planes b bl (dynamic_shader_stages (lay cur));
     let l = (lay cur)\<lparr>dynamic_shader_stages := stages, bindings := (bindings (lay cur))[i := bl]\<rparr>;
     (if skipped first_alignment pass alignment
      then Some (cur\<lparr>lay := l\<rparr>)
      else do {
        let sz = align32 (layout_size l) alignment;
        let bl = bl\<lparr>bl_type := descriptorType b, array_size := n, bl_offset := sz,
                    dynamic_offset_offset := ucast (dynamic_count cur),
                    has_ycbcr_sampler := has_ycbcr\<rparr>;
        let l = l\<lparr>layout_size := sz, bindings := (bindings l)[i := bl],
                  has_variable_descriptors := has_variable_descriptors l \<or> variable_at ci j\<rparr>;
        cur \<leftarrow> (if has_immutable b then layout_samplers b has_ycbcr (cur\<lparr>lay := l\<rparr>)
                else Some (cur\<lparr>lay := l\<rparr>));
        Some (cur\<lparr>lay := (lay cur)\<lparr>layout_size := layout_size (lay cur) + n * bl_size bl\<rparr>,
                  dynamic_count := dynamic_count cur + n * ucast (dynamic_offset_count bl)\<rparr>)
      })
   }"

fun layout_loop ::
  "radv_physical_device \<Rightarrow> (u32 \<Rightarrow> u32) \<Rightarrow> VkDescriptorSetLayoutCreateInfo \<Rightarrow> u32 \<Rightarrow>
   (nat \<times> nat \<times> VkDescriptorSetLayoutBinding) list \<Rightarrow> layout_cursor \<Rightarrow> layout_cursor option" where
  "layout_loop pdev planes ci first_alignment [] cur = Some cur"
| "layout_loop pdev planes ci first_alignment (item # items) cur =
     Option.bind (layout_step pdev planes ci first_alignment item cur)
       (layout_loop pdev planes ci first_alignment items)"

text \<open>The iterations of \<open>for (pass < 2) for (j < bindingCount)\<close>.\<close>

definition layout_items ::
  "VkDescriptorSetLayoutBinding list \<Rightarrow> (nat \<times> nat \<times> VkDescriptorSetLayoutBinding) list" where
  "layout_items bs =
     map (\<lambda>(j, b). (0, j, b)) (enumerate 0 bs) @ map (\<lambda>(j, b). (1, j, b)) (enumerate 0 bs)"

definition layout_alloc_size :: "u64 \<Rightarrow> layout_counts \<Rightarrow> u64" where
  "layout_alloc_size hdr c =
     (let off = ucast (ucast (hdr + SIZEOF_BINDING_LAYOUT * ucast (num_bindings c)) :: u32);
          sz = off + ucast (immutable_sampler_count c * 4) * 4
      in if 0 < ycbcr_sampler_count c
         then ALIGN_POT (sz + ucast (num_bindings c) * 4) ALIGNOF_YCBCR_STATE +
              ucast (ycbcr_sampler_count c) * SIZEOF_YCBCR_STATE
         else sz)"

text \<open>The object after \<open>vk_descriptor_set_layout_zalloc\<close> and the assignments before the loop,
  with the loop's locals.\<close>

definition layout_start ::
  "u64 \<Rightarrow> VkDescriptorSetLayoutCreateInfo \<Rightarrow> layout_counts \<Rightarrow> layout_cursor" where
  "layout_start hdr ci c =
     (let off = ucast (hdr + SIZEOF_BINDING_LAYOUT * ucast (num_bindings c));
          ycbcr = 0 < ycbcr_sampler_count c;
          table = off + 4 * (4 * immutable_sampler_count c)
      in \<lparr>lay = \<lparr>ref_cnt = 1, layout_hash = [], layout_flags = ci_flags ci, layout_size = 0,
             dynamic_shader_stages = 0, layout_dynamic_offset_count = 0,
             has_immutable_samplers = False, has_variable_descriptors = False,
             ycbcr_sampler_offsets_offset = (if ycbcr then table else 0),
             bindings = replicate (unat (num_bindings c)) binding_layout_zero,
             sampler_words = replicate (unat (immutable_sampler_count c * 4)) 0,
             ycbcr_offsets = replicate (if ycbcr then unat (num_bindings c) else 0) 0,
             ycbcr_states = replicate (unat (ycbcr_sampler_count c)) ycbcr_zero\<rparr>,
          samplers = 0, samplers_offset = off, ycbcr_samplers = 0,
          ycbcr_base = ALIGN_POT (table + 4 * num_bindings c) (ucast ALIGNOF_YCBCR_STATE),
          dynamic_count = 0\<rparr>)"

definition layout_finish ::
  "(radv_descriptor_set_layout \<Rightarrow> u8 list) \<Rightarrow> layout_cursor \<Rightarrow> radv_descriptor_set_layout" where
  "layout_finish blake3 cur =
     (let l = (lay cur)\<lparr>layout_dynamic_offset_count := ucast (dynamic_count cur)\<rparr>
      in l\<lparr>layout_hash := blake3 l\<rparr>)"

definition radv_CreateDescriptorSetLayout ::
  "radv_physical_device \<Rightarrow> (u32 \<Rightarrow> u32) \<Rightarrow> (radv_descriptor_set_layout \<Rightarrow> u8 list) \<Rightarrow> u64 \<Rightarrow>
   (u64 \<Rightarrow> bool) \<Rightarrow> (nat \<Rightarrow> bool) \<Rightarrow> VkDescriptorSetLayoutCreateInfo \<Rightarrow>
   (VkResult + radv_descriptor_set_layout) option" where
  "radv_CreateDescriptorSetLayout pdev planes blake3 hdr zalloc mem ci = do {
     c \<leftarrow> count_bindings (pBindings ci)
            \<lparr>num_bindings = 0, immutable_sampler_count = 0, ycbcr_sampler_count = 0\<rparr>;
     (if \<not> zalloc (layout_alloc_size hdr c) then Some (Inl VK_ERROR_OUT_OF_HOST_MEMORY)
      else case vk_create_sorted_bindings mem (pBindings ci) None of
             Inl e \<Rightarrow> Some (Inl e)
           | Inr (bs, _) \<Rightarrow> do {
               first \<leftarrow> first_alignment_of pdev ci bs;
               cur \<leftarrow> layout_loop pdev planes ci first (layout_items bs) (layout_start hdr ci c);
               Some (Inr (layout_finish blake3 cur))
             })
   }"

section \<open>Querying the support of a layout\<close>

text \<open>\<open>maxVariableDescriptorCount\<close> is \<open>None\<close> when the caller does not chain the structure that
  receives it. The \<open>switch\<close> of the query: size, alignment and count of a binding, and whether its mutable
  type list is supported.\<close>

definition support_switch ::
  "radv_physical_device \<Rightarrow> VkDescriptorSetLayoutCreateInfo \<Rightarrow> nat \<Rightarrow>
   VkDescriptorSetLayoutBinding \<Rightarrow> (u64 \<times> u64 \<times> u32 \<times> bool) option" where
  "support_switch pdev ci j b =
     (let alignment = ucast (radv_descriptor_alignment (descriptorType b));
          n = descriptorCount b;
          sized = (\<lambda>sz :: u32. Some (ucast sz, alignment, n, True))
      in case descriptorType b of
           VK_DESCRIPTOR_TYPE_UNIFORM_BUFFER \<Rightarrow> sized RADV_BUFFER_DESC_SIZE
         | VK_DESCRIPTOR_TYPE_STORAGE_BUFFER \<Rightarrow> sized RADV_BUFFER_DESC_SIZE
         | VK_DESCRIPTOR_TYPE_UNIFORM_TEXEL_BUFFER \<Rightarrow> sized RADV_BUFFER_DESC_SIZE
         | VK_DESCRIPTOR_TYPE_STORAGE_TEXEL_BUFFER \<Rightarrow> sized RADV_BUFFER_DESC_SIZE
         | VK_DESCRIPTOR_TYPE_STORAGE_IMAGE \<Rightarrow> sized RADV_STORAGE_IMAGE_DESC_SIZE
         | VK_DESCRIPTOR_TYPE_SAMPLED_IMAGE \<Rightarrow> sized (radv_get_sampled_image_desc_size pdev)
         | VK_DESCRIPTOR_TYPE_INPUT_ATTACHMENT \<Rightarrow> sized (radv_get_sampled_image_desc_size pdev)
         | VK_DESCRIPTOR_TYPE_COMBINED_IMAGE_SAMPLER \<Rightarrow>
             sized (radv_get_combined_image_sampler_desc_size pdev)
         | VK_DESCRIPTOR_TYPE_SAMPLER \<Rightarrow> sized RADV_SAMPLER_DESC_SIZE
         | VK_DESCRIPTOR_TYPE_INLINE_UNIFORM_BLOCK \<Rightarrow> Some (ucast n, alignment, 1, True)
         | VK_DESCRIPTOR_TYPE_MUTABLE_EXT \<Rightarrow> do {
             tys \<leftarrow> mutable_list ci j;
             Some (case radv_mutable_descriptor_type_size_alignment pdev tys of
                     Some (sz, al) \<Rightarrow> (sz, al, n, True)
                   | None \<Rightarrow> (0, alignment, n, False))
           }
         | VK_DESCRIPTOR_TYPE_ACCELERATION_STRUCTURE_KHR \<Rightarrow> sized RADV_ACCEL_STRUCT_DESC_SIZE
         | _ \<Rightarrow> sized 0)"

record layout_support =
  supported :: bool
  support_size :: u64
  maxVariableDescriptorCount :: "u32 option"

definition INT32_MAX :: u64 where "INT32_MAX = 0x7fffffff"
definition MAX_INLINE_UNIFORM_BLOCK_SIZE :: u64 where
  "MAX_INLINE_UNIFORM_BLOCK_SIZE = 4 * 1024 * 1024"

definition support_step ::
  "radv_physical_device \<Rightarrow> VkDescriptorSetLayoutCreateInfo \<Rightarrow> u32 \<Rightarrow>
   nat \<times> nat \<times> VkDescriptorSetLayoutBinding \<Rightarrow> layout_support \<Rightarrow> layout_support option" where
  "support_step pdev ci first_alignment item st = do {
     let (pass, j, b) = item;
     (descriptor_size, alignment, n, known) \<leftarrow> support_switch pdev ci j b;
     let st = st\<lparr>supported := supported st \<and> known\<rparr>;
     (if skipped (ucast first_alignment) pass alignment
      then Some st
      else do {
        let sz = align64 (support_size st) alignment;
        let max_count =
          (if descriptorType b = VK_DESCRIPTOR_TYPE_INLINE_UNIFORM_BLOCK
           then MAX_INLINE_UNIFORM_BLOCK_SIZE - sz
           else if descriptor_size \<noteq> 0 then (INT32_MAX - sz) div descriptor_size
           else INT32_MAX);
        Some \<lparr>supported = supported st \<and> \<not> (support_size st \<noteq> 0 \<and> sz = 0) \<and>
                 \<not> max_count < ucast n,
              support_size = sz + ucast n * descriptor_size,
              maxVariableDescriptorCount =
                (if variable_at ci j
                 then map_option (\<lambda>_. ucast (min 0xffffffff max_count))
                        (maxVariableDescriptorCount st)
                 else maxVariableDescriptorCount st)\<rparr>
      })
   }"

fun support_loop ::
  "radv_physical_device \<Rightarrow> VkDescriptorSetLayoutCreateInfo \<Rightarrow> u32 \<Rightarrow>
   (nat \<times> nat \<times> VkDescriptorSetLayoutBinding) list \<Rightarrow> layout_support \<Rightarrow> layout_support option" where
  "support_loop pdev ci first_alignment [] st = Some st"
| "support_loop pdev ci first_alignment (item # items) st =
     Option.bind (support_step pdev ci first_alignment item st)
       (support_loop pdev ci first_alignment items)"

definition radv_GetDescriptorSetLayoutSupport ::
  "radv_physical_device \<Rightarrow> (nat \<Rightarrow> bool) \<Rightarrow> VkDescriptorSetLayoutCreateInfo \<Rightarrow> u32 option \<Rightarrow>
   layout_support option" where
  "radv_GetDescriptorSetLayoutSupport pdev mem ci variable_count =
     (case vk_create_sorted_bindings mem (pBindings ci) None of
        Inl e \<Rightarrow> Some \<lparr>supported = False, support_size = 0,
                      maxVariableDescriptorCount = variable_count\<rparr>
      | Inr (bs, _) \<Rightarrow> do {
          first \<leftarrow> first_alignment_of pdev ci bs;
          support_loop pdev ci first (layout_items bs)
            \<lparr>supported = True, support_size = 0,
              maxVariableDescriptorCount = map_option (\<lambda>_. 0) variable_count\<rparr>
        })"

section \<open>Sequential placement\<close>

text \<open>What the loop computes, without the machine: each item is put at the next multiple of its
  alignment behind the previous one.\<close>

definition align_up :: "nat \<Rightarrow> nat \<Rightarrow> nat" where
  "align_up al s = (s + (al - 1)) div al * al"

fun place :: "(nat \<times> nat) list \<Rightarrow> nat \<Rightarrow> nat list" where
  "place [] s = []"
| "place ((al, n) # items) s = align_up al s # place items (align_up al s + n)"

fun place_end :: "(nat \<times> nat) list \<Rightarrow> nat \<Rightarrow> nat" where
  "place_end [] s = s"
| "place_end ((al, n) # items) s = place_end items (align_up al s + n)"

lemma align_up_ge: "0 < al \<Longrightarrow> s \<le> align_up al s"
proof -
  assume "0 < al"
  then have "(s + (al - 1)) mod al < al" by simp
  moreover have "(s + (al - 1)) div al * al + (s + (al - 1)) mod al = s + (al - 1)" by simp
  ultimately show ?thesis unfolding align_up_def by linarith
qed

lemma align_up_less: "0 < al \<Longrightarrow> align_up al s < s + al"
proof -
  assume "0 < al"
  moreover have "(s + (al - 1)) div al * al \<le> s + (al - 1)" by simp
  ultimately show ?thesis unfolding align_up_def by linarith
qed

lemma align_up_multiple: "al dvd align_up al s"
  by (simp add: align_up_def)

lemma length_place [simp]: "length (place items s) = length items"
  by (induction items s rule: place.induct) auto

lemma place_end_ge: "\<forall>(al, n)\<in>set items. 0 < al \<Longrightarrow> s \<le> place_end items s"
proof (induction items s rule: place_end.induct)
  case (2 al n items s)
  then show ?case using align_up_ge [of al s] by fastforce
qed simp



lemma align32_up:
  assumes "k < 32" "align_up (2 ^ k) (unat s) < 2 ^ 32"
  shows "unat (align32 s (2 ^ k)) = align_up (2 ^ k) (unat s)"
proof -
  have "(2::nat) ^ k dvd 2 ^ 32 - align_up (2 ^ k) (unat s)"
    using assms(1) by (intro dvd_diff_nat align_up_multiple le_imp_power_dvd) simp
  then have "2 ^ k \<le> 2 ^ 32 - align_up (2 ^ k) (unat s)"
    using assms(2) by (intro dvd_imp_le) auto
  moreover have "unat s \<le> align_up (2 ^ k) (unat s)" by (simp add: align_up_ge)
  ultimately have "unat s + 2 ^ k \<le> 2 ^ 32" using assms(2) by linarith
  then show ?thesis
    using ALIGN_POT_pow2 [of k s] assms(1) by (simp add: align32_def align_up_def)
qed

text \<open>The alignments in use.\<close>

definition align_ok :: "u32 \<Rightarrow> bool" where
  "align_ok al \<longleftrightarrow> al = 1 \<or> al = 16 \<or> al = 32"

lemma align32_ok:
  assumes "align_ok al" "align_up (unat al) (unat s) < 2 ^ 32"
  shows "unat (align32 s al) = align_up (unat al) (unat s)"
proof -
  have "\<exists>k<32. al = 2 ^ k \<and> unat al = 2 ^ k"
    using assms(1) unfolding align_ok_def
    by (elim disjE) (rule exI [of _ 0] exI [of _ 4] exI [of _ 5]; simp)+
  then show ?thesis using align32_up assms(2) by metis
qed

section \<open>The shape of a binding\<close>

text \<open>Alignment, element size, number of elements and presence of YCbCr samplers, as the loop
  computes them for binding \<open>j\<close> on a zeroed entry.\<close>

type_synonym shape = "u32 \<times> u32 \<times> u32 \<times> bool"

definition binding_shape ::
  "radv_physical_device \<Rightarrow> (u32 \<Rightarrow> u32) \<Rightarrow> VkDescriptorSetLayoutCreateInfo \<Rightarrow> nat \<Rightarrow>
   VkDescriptorSetLayoutBinding \<Rightarrow> shape option" where
  "binding_shape pdev planes ci j b = do {
     (max_planes, has_ycbcr) \<leftarrow> combined_planes planes b;
     (bl, _, alignment, n) \<leftarrow> layout_switch pdev ci j max_planes b binding_layout_zero 0;
     Some (alignment, bl_size bl, n, has_ycbcr)
   }"

lemma layout_switch_again:
  assumes "layout_switch pdev ci j mp b binding_layout_zero 0 = Some (z, s0, al, n)"
    and "bl_size bl = 0 \<or> bl_size bl = bl_size z"
  shows "\<exists>dyn st. layout_switch pdev ci j mp b bl stages =
    Some (bl\<lparr>bl_size := bl_size z, dynamic_offset_count := dyn\<rparr>, st, al, n)"
proof (rule exI [of _ "if descriptorType b = VK_DESCRIPTOR_TYPE_UNIFORM_BUFFER_DYNAMIC \<or>
    descriptorType b = VK_DESCRIPTOR_TYPE_STORAGE_BUFFER_DYNAMIC then 1
    else dynamic_offset_count bl"])
  show "\<exists>st. layout_switch pdev ci j mp b bl stages = Some (bl\<lparr>bl_size := bl_size z,
    dynamic_offset_count := (if descriptorType b = VK_DESCRIPTOR_TYPE_UNIFORM_BUFFER_DYNAMIC \<or>
      descriptorType b = VK_DESCRIPTOR_TYPE_STORAGE_BUFFER_DYNAMIC then 1
      else dynamic_offset_count bl)\<rparr>, st, al, n)"
    using assms
    by (cases "descriptorType b") (auto simp: layout_switch_def Let_def binding_layout_zero_def)
qed

lemma binding_shape_switch:
  assumes "binding_shape pdev planes ci j b = Some (al, sz, n, yc)"
    and "bl_size bl = 0 \<or> bl_size bl = sz"
  obtains mp dyn st where "combined_planes planes b = Some (mp, yc)"
    "layout_switch pdev ci j mp b bl stages =
       Some (bl\<lparr>bl_size := sz, dynamic_offset_count := dyn\<rparr>, st, al, n)"
proof -
  obtain mp z s0 where "combined_planes planes b = Some (mp, yc)"
    "layout_switch pdev ci j mp b binding_layout_zero 0 = Some (z, s0, al, n)" "bl_size z = sz"
    using assms(1) by (auto simp: binding_shape_def bind_eq_Some_conv split: prod.splits)
  then show ?thesis using layout_switch_again [of pdev ci j mp b z s0 al n bl stages] assms(2) that
    by auto
qed

section \<open>One iteration\<close>

text \<open>What an iteration needs: room for the samplers it copies.\<close>

definition sampler_need :: "VkDescriptorSetLayoutBinding \<Rightarrow> nat" where
  "sampler_need b = (if has_immutable b then unat (descriptorCount b) else 0)"

definition sampler_dwords :: "VkDescriptorSetLayoutBinding \<Rightarrow> u32 list" where
  "sampler_dwords b = (case immutable_samplers b of
     Some ss \<Rightarrow> concat (map (\<lambda>s. dwords4_list (sampler_state s)) ss) | None \<Rightarrow> [])"

lemma length_dwords4 [simp]: "length (dwords4_list d) = 4"
  by (cases d) simp

lemma length_concat_dwords4 [simp]:
  "length (concat (map (\<lambda>s. dwords4_list (sampler_state s)) ss)) = 4 * length ss"
  by (induction ss) auto

lemma immutable_samplers_length:
  "immutable_samplers b = Some ss \<Longrightarrow> length ss = unat (descriptorCount b)"
  by (auto simp: immutable_samplers_def array_slice_def split: option.splits if_splits)

lemma length_sampler_dwords:
  "immutable_samplers b = Some ss \<Longrightarrow> length (sampler_dwords b) = 4 * unat (descriptorCount b)"
  using immutable_samplers_length by (simp add: sampler_dwords_def)

definition room_for :: "VkDescriptorSetLayoutBinding \<Rightarrow> bool \<Rightarrow> layout_cursor \<Rightarrow> bool" where
  "room_for b has_ycbcr cur \<longleftrightarrow> has_immutable b \<longrightarrow>
     immutable_samplers b \<noteq> None \<and> 4 * unat (descriptorCount b) < 2 ^ 32 \<and>
     samplers cur + 4 * unat (descriptorCount b) \<le> length (sampler_words (lay cur)) \<and>
     (has_ycbcr \<longrightarrow> unat (binding b) < length (ycbcr_offsets (lay cur)) \<and>
        ycbcr_samplers cur + unat (descriptorCount b) \<le> length (ycbcr_states (lay cur)))"

text \<open>The parts of the cursor that later iterations depend on, before and after.\<close>

definition sampler_effect ::
  "VkDescriptorSetLayoutBinding \<Rightarrow> bool \<Rightarrow> layout_cursor \<Rightarrow> layout_cursor \<Rightarrow> bool" where
  "sampler_effect b has_ycbcr cur cur' \<longleftrightarrow>
     samplers cur' = samplers cur + 4 * sampler_need b \<and>
     samplers_offset cur' = samplers_offset cur + of_nat (16 * sampler_need b) \<and>
     ycbcr_samplers cur' = ycbcr_samplers cur + (if has_ycbcr then sampler_need b else 0) \<and>
     length (sampler_words (lay cur')) = length (sampler_words (lay cur)) \<and>
     length (ycbcr_offsets (lay cur')) = length (ycbcr_offsets (lay cur)) \<and>
     length (ycbcr_states (lay cur')) = length (ycbcr_states (lay cur)) \<and>
     (\<forall>k < samplers cur. k < length (sampler_words (lay cur)) \<longrightarrow>
        sampler_words (lay cur') ! k = sampler_words (lay cur) ! k) \<and>
     (has_immutable b \<longrightarrow>
        (\<forall>k<4 * unat (descriptorCount b).
           sampler_words (lay cur') ! (samplers cur + k) = sampler_dwords b ! k))"

lemma layout_samplers_ok:
  assumes "has_immutable b" "room_for b yc cur"
  obtains cur' where "layout_samplers b yc cur = Some cur'" "sampler_effect b yc cur cur'"
    "bindings (lay cur') = (bindings (lay cur))[unat (binding b) :=
       (bindings (lay cur) ! unat (binding b))\<lparr>immutable_samplers_offset := samplers_offset cur\<rparr>]"
    "layout_size (lay cur') = layout_size (lay cur)" "dynamic_count cur' = dynamic_count cur"
proof -
  obtain ss where ss: "immutable_samplers b = Some ss"
    and len: "length ss = unat (descriptorCount b)"
    using assms immutable_samplers_length by (auto simp: room_for_def)
  have n: "unat (4 * descriptorCount b) = 4 * unat (descriptorCount b)"
    using assms unat_mult_no_wrap [of 4 "descriptorCount b"] by (simp add: room_for_def)
  let ?ds = "concat (map (\<lambda>s. dwords4_list (sampler_state s)) ss)"
  have ds: "sampler_dwords b = ?ds" by (simp add: sampler_dwords_def ss)
  obtain ws where ws: "array_write (sampler_words (lay cur)) (samplers cur) ?ds = Some ws"
    using assms len by (simp add: room_for_def array_write_def)
  have words: "length ws = length (sampler_words (lay cur))"
    "\<And>k. k < samplers cur \<Longrightarrow> k < length (sampler_words (lay cur)) \<Longrightarrow>
       ws ! k = sampler_words (lay cur) ! k"
    "\<And>k. k < 4 * unat (descriptorCount b) \<Longrightarrow> ws ! (samplers cur + k) = ?ds ! k"
    using array_write_length [OF ws] array_write_out [OF ws]
      array_write_in [OF ws, of "samplers cur + k" for k] len by auto
  obtain cur' where c: "layout_samplers b yc cur = Some cur'"
    and "samplers cur' = samplers cur + 4 * unat (descriptorCount b)"
    and "samplers_offset cur' = samplers_offset cur + 16 * descriptorCount b"
    and "ycbcr_samplers cur' =
      ycbcr_samplers cur + (if yc then unat (descriptorCount b) else 0)"
    and "sampler_words (lay cur') = ws"
    and "length (ycbcr_offsets (lay cur')) = length (ycbcr_offsets (lay cur))"
    and "length (ycbcr_states (lay cur')) = length (ycbcr_states (lay cur))"
    and "layout_size (lay cur') = layout_size (lay cur)" "dynamic_count cur' = dynamic_count cur"
    and "bindings (lay cur') = (bindings (lay cur))[unat (binding b) :=
       (bindings (lay cur) ! unat (binding b))\<lparr>immutable_samplers_offset := samplers_offset cur\<rparr>]"
  proof (cases yc)
    case True
    then have "unat (binding b) < length (ycbcr_offsets (lay cur))"
      "ycbcr_samplers cur + length ss \<le> length (ycbcr_states (lay cur))"
      using assms len by (auto simp: room_for_def)
    then obtain old offs states where w:
      "array_slice (ycbcr_states (lay cur)) (ycbcr_samplers cur) (length ss) = Some old"
      "array_write (ycbcr_offsets (lay cur)) (unat (binding b))
         [ycbcr_base cur + ucast SIZEOF_YCBCR_STATE * of_nat (ycbcr_samplers cur)] = Some offs"
      "array_write (ycbcr_states (lay cur)) (ycbcr_samplers cur) (map2 ycbcr_entry ss old) =
         Some states"
      by (simp add: array_slice_def array_write_def)
    with True that show ?thesis
      using array_write_length [OF w(2)] array_write_length [OF w(3)]
      by (simp add: layout_samplers_def ss ws n Let_def)
  next
    case False
    with that show ?thesis by (simp add: layout_samplers_def ss ws n Let_def)
  qed
  moreover from this have "sampler_effect b yc cur cur'"
    using assms(1) words by (simp add: sampler_effect_def sampler_need_def ds)
  ultimately show ?thesis using that by blast
qed

lemma layout_step_skip:
  assumes "binding_shape pdev planes ci j b = Some (al, sz, n, yc)" "skipped first pass al"
    and "unat (binding b) < length (bindings (lay cur))"
    and "bl_size (bindings (lay cur) ! unat (binding b)) = 0 \<or>
      bl_size (bindings (lay cur) ! unat (binding b)) = sz"
  obtains dyn st where "layout_step pdev planes ci first (pass, j, b) cur =
    Some (cur\<lparr>lay := (lay cur)\<lparr>dynamic_shader_stages := st, bindings := (bindings (lay cur))
      [unat (binding b) := (bindings (lay cur) ! unat (binding b))
         \<lparr>bl_size := sz, dynamic_offset_count := dyn\<rparr>]\<rparr>\<rparr>)"
proof -
  obtain mp dyn st where "combined_planes planes b = Some (mp, yc)"
    "layout_switch pdev ci j mp b (bindings (lay cur) ! unat (binding b))
       (dynamic_shader_stages (lay cur)) = Some ((bindings (lay cur) ! unat (binding b))
         \<lparr>bl_size := sz, dynamic_offset_count := dyn\<rparr>, st, al, n)"
    using binding_shape_switch [OF assms(1,4)] by blast
  then show ?thesis
    using that [of dyn st] assms(2,3) by (simp add: layout_step_def array_read_def Let_def)
qed

lemma layout_step_place:
  assumes "binding_shape pdev planes ci j b = Some (al, sz, n, yc)" "\<not> skipped first pass al"
    and "unat (binding b) < length (bindings (lay cur))"
    and "bl_size (bindings (lay cur) ! unat (binding b)) = 0 \<or>
      bl_size (bindings (lay cur) ! unat (binding b)) = sz"
    and "room_for b yc cur"
  obtains cur' bl where "layout_step pdev planes ci first (pass, j, b) cur = Some cur'"
    "sampler_effect b yc cur cur'"
    "bindings (lay cur') = (bindings (lay cur))[unat (binding b) := bl]"
    "bl_offset bl = align32 (layout_size (lay cur)) al" "bl_size bl = sz" "array_size bl = n"
    "bl_type bl = descriptorType b"
    "has_immutable b \<longrightarrow> immutable_samplers_offset bl = samplers_offset cur"
    "layout_size (lay cur') = align32 (layout_size (lay cur)) al + n * sz"
proof -
  let ?i = "unat (binding b)" and ?s = "align32 (layout_size (lay cur)) al"
  obtain mp dyn st where sw: "combined_planes planes b = Some (mp, yc)"
    "layout_switch pdev ci j mp b (bindings (lay cur) ! ?i)
       (dynamic_shader_stages (lay cur)) = Some ((bindings (lay cur) ! ?i)
         \<lparr>bl_size := sz, dynamic_offset_count := dyn\<rparr>, st, al, n)"
    using binding_shape_switch [OF assms(1,4)] by blast
  define bl where "bl = (bindings (lay cur) ! ?i)\<lparr>bl_size := sz, dynamic_offset_count := dyn,
    bl_type := descriptorType b, array_size := n, bl_offset := ?s,
    dynamic_offset_offset := ucast (dynamic_count cur), has_ycbcr_sampler := yc\<rparr>"
  define c where "c = cur\<lparr>lay := (lay cur)\<lparr>dynamic_shader_stages := st, layout_size := ?s,
    bindings := (bindings (lay cur))[?i := bl],
    has_variable_descriptors := has_variable_descriptors (lay cur) \<or> variable_at ci j\<rparr>\<rparr>"
  define f where "f c = c\<lparr>lay := (lay c)\<lparr>layout_size := layout_size (lay c) + n * sz\<rparr>,
    dynamic_count := dynamic_count c + n * ucast dyn\<rparr>" for c :: layout_cursor
  have step: "layout_step pdev planes ci first (pass, j, b) cur =
    Option.bind (if has_immutable b then layout_samplers b yc c else Some c) (\<lambda>c. Some (f c))"
    using assms(2,3) sw
    by (simp add: layout_step_def array_read_def Let_def c_def bl_def f_def)
  show ?thesis
  proof (cases "has_immutable b")
    case True
    have "room_for b yc c" using assms(5) by (simp add: room_for_def c_def)
    then obtain c' where c': "layout_samplers b yc c = Some c'" "sampler_effect b yc c c'"
      "bindings (lay c') = (bindings (lay c))[?i :=
         (bindings (lay c) ! ?i)\<lparr>immutable_samplers_offset := samplers_offset c\<rparr>]"
      "layout_size (lay c') = layout_size (lay c)"
      using layout_samplers_ok [OF True] by metis
    show ?thesis
    proof (rule that [of "f c'" "bl\<lparr>immutable_samplers_offset := samplers_offset cur\<rparr>"])
      show "layout_step pdev planes ci first (pass, j, b) cur = Some (f c')"
        using step c'(1) True by simp
      show "sampler_effect b yc cur (f c')"
        using c'(2) by (simp add: sampler_effect_def f_def c_def)
    qed (use c'(3,4) assms(3) in \<open>simp_all add: f_def c_def bl_def\<close>)
  next
    case False
    show ?thesis
    proof (rule that [of "f c" bl])
      show "sampler_effect b yc cur (f c)"
        using False by (simp add: sampler_effect_def sampler_need_def f_def c_def)
    qed (use step False in \<open>simp_all add: f_def c_def bl_def\<close>)
  qed
qed

section \<open>The whole loop\<close>

type_synonym item = "nat \<times> nat \<times> VkDescriptorSetLayoutBinding"

definition item_binding :: "item \<Rightarrow> VkDescriptorSetLayoutBinding" where
  "item_binding it = snd (snd it)"

definition item_index :: "item \<Rightarrow> nat" where
  "item_index it = unat (binding (item_binding it))"

fun extent :: "shape \<Rightarrow> nat \<times> nat" where
  "extent (al, sz, n, yc) = (unat al, unat n * unat sz)"

definition placed :: "u32 \<Rightarrow> (nat \<Rightarrow> shape) \<Rightarrow> item list \<Rightarrow> item list" where
  "placed first sh = filter (\<lambda>it. \<not> skipped first (fst it) (fst (sh (item_index it))))"

definition extents :: "(nat \<Rightarrow> shape) \<Rightarrow> item list \<Rightarrow> (nat \<times> nat) list" where
  "extents sh = map (\<lambda>it. extent (sh (item_index it)))"

text \<open>\<open>sh\<close> gives the shape of each binding number; \<open>item_ready\<close> is what an iteration needs of
  its binding, \<open>loop_ready\<close> what the loop needs.\<close>

fun item_ready ::
  "radv_physical_device \<Rightarrow> (u32 \<Rightarrow> u32) \<Rightarrow> VkDescriptorSetLayoutCreateInfo \<Rightarrow> (nat \<Rightarrow> shape) \<Rightarrow>
   layout_cursor \<Rightarrow> item \<Rightarrow> bool" where
  "item_ready pdev planes ci sh cur (pass, j, b) \<longleftrightarrow>
     (let i = unat (binding b); (al, sz, n, yc) = sh i; old = bl_size (bindings (lay cur) ! i)
      in binding_shape pdev planes ci j b = Some (al, sz, n, yc) \<and> align_ok al \<and>
         i < length (bindings (lay cur)) \<and> (old = 0 \<or> old = sz) \<and>
         (has_immutable b \<longrightarrow> immutable_samplers b \<noteq> None \<and>
            4 * unat (descriptorCount b) < 2 ^ 32 \<and>
            (yc \<longrightarrow> i < length (ycbcr_offsets (lay cur)))))"

definition ycbcr_need :: "(nat \<Rightarrow> shape) \<Rightarrow> item \<Rightarrow> nat" where
  "ycbcr_need sh it =
     (if snd (snd (snd (sh (item_index it)))) then sampler_need (item_binding it) else 0)"

definition loop_ready ::
  "radv_physical_device \<Rightarrow> (u32 \<Rightarrow> u32) \<Rightarrow> VkDescriptorSetLayoutCreateInfo \<Rightarrow> u32 \<Rightarrow>
   (nat \<Rightarrow> shape) \<Rightarrow> item list \<Rightarrow> layout_cursor \<Rightarrow> bool" where
  "loop_ready pdev planes ci first sh items cur \<longleftrightarrow>
     (\<forall>it\<in>set items. item_ready pdev planes ci sh cur it) \<and>
     distinct (map item_index (placed first sh items)) \<and>
     place_end (extents sh (placed first sh items)) (unat (layout_size (lay cur))) < 2 ^ 32 \<and>
     samplers cur + 4 * (\<Sum>it\<leftarrow>placed first sh items. sampler_need (item_binding it)) \<le>
       length (sampler_words (lay cur)) \<and>
     ycbcr_samplers cur + (\<Sum>it\<leftarrow>placed first sh items. ycbcr_need sh it) \<le>
       length (ycbcr_states (lay cur))"

text \<open>The entry of a placed binding, and where its samplers are.\<close>

definition entry_placed :: "shape \<Rightarrow> VkDescriptorSetLayoutBinding \<Rightarrow> nat \<Rightarrow>
  radv_descriptor_set_binding_layout \<Rightarrow> bool" where
  "entry_placed s b off bl \<longleftrightarrow> unat (bl_offset bl) = off \<and> array_size bl = fst (snd (snd s)) \<and>
     bl_type bl = descriptorType b"

definition samplers_at :: "layout_cursor \<Rightarrow> radv_descriptor_set_layout \<Rightarrow>
  VkDescriptorSetLayoutBinding \<Rightarrow> bool" where
  "samplers_at cur l b \<longleftrightarrow> has_immutable b \<longrightarrow>
     (\<exists>pos\<ge>samplers cur.
        immutable_samplers_offset (bindings l ! unat (binding b)) =
          samplers_offset cur + of_nat (4 * (pos - samplers cur)) \<and>
        pos + 4 * unat (descriptorCount b) \<le> length (sampler_words l) \<and>
        (\<forall>k<4 * unat (descriptorCount b). sampler_words l ! (pos + k) = sampler_dwords b ! k))"

definition same_place ::
  "radv_descriptor_set_binding_layout \<Rightarrow> radv_descriptor_set_binding_layout \<Rightarrow> bool" where
  "same_place bl bl' \<longleftrightarrow> bl_offset bl' = bl_offset bl \<and> array_size bl' = array_size bl \<and>
     bl_type bl' = bl_type bl \<and> immutable_samplers_offset bl' = immutable_samplers_offset bl"

definition loop_result ::
  "u32 \<Rightarrow> (nat \<Rightarrow> shape) \<Rightarrow> item list \<Rightarrow> layout_cursor \<Rightarrow> layout_cursor \<Rightarrow> bool" where
  "loop_result first sh items cur cur' \<longleftrightarrow>
     (let pl = placed first sh items; s = unat (layout_size (lay cur));
          bs = bindings (lay cur); bs' = bindings (lay cur')
      in length bs' = length bs \<and>
         unat (layout_size (lay cur')) = place_end (extents sh pl) s \<and>
         (\<forall>k<length pl. let b = item_binding (pl ! k) in
            entry_placed (sh (unat (binding b))) b (place (extents sh pl) s ! k)
              (bs' ! unat (binding b)) \<and> samplers_at cur (lay cur') b) \<and>
         (\<forall>i<length bs. i \<notin> item_index ` set pl \<longrightarrow> same_place (bs ! i) (bs' ! i)) \<and>
         (\<forall>i<length bs. bl_size (bs' ! i) =
            (if i \<in> item_index ` set items then fst (snd (sh i)) else bl_size (bs ! i))) \<and>
         length (sampler_words (lay cur')) = length (sampler_words (lay cur)) \<and>
         (\<forall>k < samplers cur. k < length (sampler_words (lay cur)) \<longrightarrow>
            sampler_words (lay cur') ! k = sampler_words (lay cur) ! k))"

lemma extent_pos: "align_ok (fst s) \<Longrightarrow> 0 < fst (extent s)"
  by (cases s) (auto simp: align_ok_def)

lemma placed_Cons:
  "placed first sh (it # items) =
     (if skipped first (fst it) (fst (sh (item_index it))) then placed first sh items
      else it # placed first sh items)"
  by (simp add: placed_def)

lemma set_placed: "set (placed first sh items) \<subseteq> set items"
  by (auto simp: placed_def)

text \<open>Both kinds of iteration keep the rest of the loop ready.\<close>

lemma item_ready_keep:
  assumes "item_ready pdev planes ci sh cur it" "length (bindings (lay cur')) = length (bindings (lay cur))"
    and "length (ycbcr_offsets (lay cur')) = length (ycbcr_offsets (lay cur))"
    and "bl_size (bindings (lay cur') ! item_index it) = bl_size (bindings (lay cur) ! item_index it) \<or>
      bl_size (bindings (lay cur') ! item_index it) = fst (snd (sh (item_index it)))"
  shows "item_ready pdev planes ci sh cur' it"
  using assms by (cases it) (auto simp: item_index_def item_binding_def Let_def split: prod.splits)

lemma loop_resultI:
  assumes "length (bindings (lay cur')) = length (bindings (lay cur))"
    and "unat (layout_size (lay cur')) =
      place_end (extents sh (placed first sh items)) (unat (layout_size (lay cur)))"
    and "\<And>k b. k < length (placed first sh items) \<Longrightarrow> b = item_binding (placed first sh items ! k) \<Longrightarrow>
      entry_placed (sh (unat (binding b))) b
        (place (extents sh (placed first sh items)) (unat (layout_size (lay cur))) ! k)
        (bindings (lay cur') ! unat (binding b)) \<and> samplers_at cur (lay cur') b"
    and "\<And>i. i < length (bindings (lay cur)) \<Longrightarrow> i \<notin> item_index ` set (placed first sh items) \<Longrightarrow>
      same_place (bindings (lay cur) ! i) (bindings (lay cur') ! i)"
    and "\<And>i. i < length (bindings (lay cur)) \<Longrightarrow> bl_size (bindings (lay cur') ! i) =
      (if i \<in> item_index ` set items then fst (snd (sh i)) else bl_size (bindings (lay cur) ! i))"
    and "length (sampler_words (lay cur')) = length (sampler_words (lay cur))"
    and "\<And>k. k < samplers cur \<Longrightarrow> k < length (sampler_words (lay cur)) \<Longrightarrow>
      sampler_words (lay cur') ! k = sampler_words (lay cur) ! k"
  shows "loop_result first sh items cur cur'"
  using assms unfolding loop_result_def Let_def by blast

lemma loop_resultD:
  assumes "loop_result first sh items cur cur'"
  shows "length (bindings (lay cur')) = length (bindings (lay cur))"
    and "unat (layout_size (lay cur')) =
      place_end (extents sh (placed first sh items)) (unat (layout_size (lay cur)))"
    and "k < length (placed first sh items) \<Longrightarrow> b = item_binding (placed first sh items ! k) \<Longrightarrow>
      entry_placed (sh (unat (binding b))) b
        (place (extents sh (placed first sh items)) (unat (layout_size (lay cur))) ! k)
        (bindings (lay cur') ! unat (binding b)) \<and> samplers_at cur (lay cur') b"
    and "i < length (bindings (lay cur)) \<Longrightarrow> i \<notin> item_index ` set (placed first sh items) \<Longrightarrow>
      same_place (bindings (lay cur) ! i) (bindings (lay cur') ! i)"
    and "i < length (bindings (lay cur)) \<Longrightarrow> bl_size (bindings (lay cur') ! i) =
      (if i \<in> item_index ` set items then fst (snd (sh i)) else bl_size (bindings (lay cur) ! i))"
    and "length (sampler_words (lay cur')) = length (sampler_words (lay cur))"
    and "m < samplers cur \<Longrightarrow> m < length (sampler_words (lay cur)) \<Longrightarrow>
      sampler_words (lay cur') ! m = sampler_words (lay cur) ! m"
  using assms unfolding loop_result_def Let_def by blast+

lemma layout_loop_skip:
  assumes ready: "loop_ready pdev planes ci first sh ((pass, j, b) # items) cur"
    and skip: "skipped first pass (fst (sh (unat (binding b))))"
  obtains cur1 where "layout_step pdev planes ci first (pass, j, b) cur = Some cur1"
    "loop_ready pdev planes ci first sh items cur1"
    "\<And>cur'. loop_result first sh items cur1 cur' \<Longrightarrow>
       loop_result first sh ((pass, j, b) # items) cur cur'"
proof -
  let ?i = "unat (binding b)"
  obtain al sz n yc where sh: "sh ?i = (al, sz, n, yc)" by (metis prod_cases4)
  have it: "binding_shape pdev planes ci j b = Some (al, sz, n, yc)"
    "?i < length (bindings (lay cur))"
    "bl_size (bindings (lay cur) ! ?i) = 0 \<or> bl_size (bindings (lay cur) ! ?i) = sz"
    using ready sh by (auto simp: loop_ready_def Let_def)
  have sk: "skipped first pass al" using skip sh by simp
  obtain dyn st where step: "layout_step pdev planes ci first (pass, j, b) cur =
    Some (cur\<lparr>lay := (lay cur)\<lparr>dynamic_shader_stages := st, bindings := (bindings (lay cur))
      [?i := (bindings (lay cur) ! ?i)\<lparr>bl_size := sz, dynamic_offset_count := dyn\<rparr>]\<rparr>\<rparr>)"
    (is "_ = Some ?c") using layout_step_skip [OF it(1) sk it(2,3)] by blast
  have pl: "placed first sh ((pass, j, b) # items) = placed first sh items"
    using skip by (simp add: placed_Cons item_index_def item_binding_def)
  define c where "c = ?c"
  have keep: "same_place (bindings (lay cur) ! i) (bindings (lay c) ! i)"
    "bl_size (bindings (lay c) ! i) = (if i = ?i then sz else bl_size (bindings (lay cur) ! i))" for i
    using it(2) by (auto simp: same_place_def nth_list_update c_def)
  have rest: "length (bindings (lay c)) = length (bindings (lay cur))"
    "layout_size (lay c) = layout_size (lay cur)" "sampler_words (lay c) = sampler_words (lay cur)"
    "ycbcr_offsets (lay c) = ycbcr_offsets (lay cur)" "ycbcr_states (lay c) = ycbcr_states (lay cur)"
    "samplers c = samplers cur" "samplers_offset c = samplers_offset cur"
    "ycbcr_samplers c = ycbcr_samplers cur"
    by (simp_all add: c_def)
  have "item_ready pdev planes ci sh c x" if "x \<in> set items" for x
  proof -
    have "item_ready pdev planes ci sh cur x" using ready that by (simp add: loop_ready_def)
    then show ?thesis
      by (rule item_ready_keep) (use keep(2) [of "item_index x"] sh rest in \<open>simp_all split: if_splits\<close>)
  qed
  then have ready1: "loop_ready pdev planes ci first sh items c"
    using ready pl rest by (simp add: loop_ready_def)
  have result: "loop_result first sh ((pass, j, b) # items) cur cur'"
    if res: "loop_result first sh items c cur'" for cur'
  proof (rule loop_resultI, unfold pl)
    fix i assume i: "i < length (bindings (lay cur))"
    show "bl_size (bindings (lay cur') ! i) = (if i \<in> item_index ` set ((pass, j, b) # items)
        then fst (snd (sh i)) else bl_size (bindings (lay cur) ! i))"
      using loop_resultD(5) [OF res, of i] i keep(2) [of i] sh rest(1)
      by (cases "i = ?i") (simp_all add: item_index_def item_binding_def)
    assume "i \<notin> item_index ` set (placed first sh items)"
    then show "same_place (bindings (lay cur) ! i) (bindings (lay cur') ! i)"
      using loop_resultD(4) [OF res, of i] i keep(1) [of i] rest(1) by (simp add: same_place_def)
  next
    fix k x assume "k < length (placed first sh items)" "x = item_binding (placed first sh items ! k)"
    then show "entry_placed (sh (unat (binding x))) x
        (place (extents sh (placed first sh items)) (unat (layout_size (lay cur))) ! k)
        (bindings (lay cur') ! unat (binding x)) \<and> samplers_at cur (lay cur') x"
      using loop_resultD(3) [OF res, of k x] rest by (simp add: samplers_at_def)
  qed (use loop_resultD(1,2,6,7) [OF res] rest in simp_all)
  have "layout_step pdev planes ci first (pass, j, b) cur = Some c" using step by (simp add: c_def)
  then show ?thesis using result by (rule that [OF _ ready1])
qed

lemma samplers_at_later:
  assumes "samplers c = samplers cur + 4 * m"
    and "samplers_offset c = samplers_offset cur + of_nat (16 * m)" and "samplers_at c l x"
  shows "samplers_at cur l x"
  unfolding samplers_at_def
proof
  assume "has_immutable x"
  then obtain pos where pos: "samplers c \<le> pos"
    "immutable_samplers_offset (bindings l ! unat (binding x)) =
      samplers_offset c + of_nat (4 * (pos - samplers c))"
    "pos + 4 * unat (descriptorCount x) \<le> length (sampler_words l)"
    "\<forall>k<4 * unat (descriptorCount x). sampler_words l ! (pos + k) = sampler_dwords x ! k"
    using assms(3) by (auto simp: samplers_at_def)
  have "16 * m + 4 * (pos - samplers c) = 4 * (pos - samplers cur)"
    using pos(1) assms(1) by linarith
  then have "of_nat (16 * m) + of_nat (4 * (pos - samplers c)) =
      (of_nat (4 * (pos - samplers cur)) :: u32)" by (metis of_nat_add)
  then have "immutable_samplers_offset (bindings l ! unat (binding x)) =
      samplers_offset cur + of_nat (4 * (pos - samplers cur))"
    using pos(2) assms(2) by (simp add: add.assoc)
  then show "\<exists>pos\<ge>samplers cur. immutable_samplers_offset (bindings l ! unat (binding x)) =
      samplers_offset cur + of_nat (4 * (pos - samplers cur)) \<and>
      pos + 4 * unat (descriptorCount x) \<le> length (sampler_words l) \<and>
      (\<forall>k<4 * unat (descriptorCount x). sampler_words l ! (pos + k) = sampler_dwords x ! k)"
    using pos(1,3,4) assms(1) by (intro exI [of _ pos]) simp
qed

lemma ready_extents_pos:
  assumes "loop_ready pdev planes ci first sh items cur"
  shows "\<forall>(al, n)\<in>set (extents sh (placed first sh items)). 0 < al"
proof -
  have "align_ok (fst (sh (item_index x)))" if "x \<in> set (placed first sh items)" for x
  proof -
    have "item_ready pdev planes ci sh cur x"
      using that assms set_placed by (force simp: loop_ready_def)
    then show ?thesis
      by (cases x) (auto simp: item_index_def item_binding_def Let_def split: prod.splits)
  qed
  then show ?thesis using extent_pos by (auto simp: extents_def case_prod_unfold)
qed

text \<open>No addition or product of a placing iteration wraps.\<close>

lemma placing_sizes:
  assumes ready: "loop_ready pdev planes ci first sh ((pass, j, b) # items) cur"
    and sh: "sh (unat (binding b)) = (al, sz, n, yc)" and place: "\<not> skipped first pass al"
  shows "unat (align32 (layout_size (lay cur)) al) = align_up (unat al) (unat (layout_size (lay cur)))"
    and "unat (align32 (layout_size (lay cur)) al + n * sz) =
      align_up (unat al) (unat (layout_size (lay cur))) + unat n * unat sz"
proof -
  let ?s = "unat (layout_size (lay cur))"
  have idx: "item_index (pass, j, b) = unat (binding b)"
    by (simp add: item_index_def item_binding_def)
  have ext: "extents sh (placed first sh ((pass, j, b) # items)) =
      (unat al, unat n * unat sz) # extents sh (placed first sh items)"
    using place sh idx by (simp add: placed_Cons extents_def)
  have al: "align_ok al" using ready sh by (auto simp: loop_ready_def Let_def)
  have "align_up (unat al) ?s + unat n * unat sz \<le>
      place_end (extents sh (placed first sh items)) (align_up (unat al) ?s + unat n * unat sz)"
    using ready_extents_pos [OF ready] ext by (intro place_end_ge) simp
  moreover have "place_end (extents sh (placed first sh items))
      (align_up (unat al) ?s + unat n * unat sz) < 2 ^ 32"
    using ready ext by (simp add: loop_ready_def)
  ultimately have fit: "align_up (unat al) ?s + unat n * unat sz < 2 ^ 32" by linarith
  then show s: "unat (align32 (layout_size (lay cur)) al) = align_up (unat al) ?s"
    by (intro align32_ok [OF al]) simp
  show "unat (align32 (layout_size (lay cur)) al + n * sz) = align_up (unat al) ?s + unat n * unat sz"
    using s fit unat_mult_no_wrap [of n sz]
      unat_add_no_wrap [of "align32 (layout_size (lay cur)) al" "n * sz"] by simp
qed

lemma layout_loop_place:
  assumes ready: "loop_ready pdev planes ci first sh ((pass, j, b) # items) cur"
    and place: "\<not> skipped first pass (fst (sh (unat (binding b))))"
  obtains cur1 where "layout_step pdev planes ci first (pass, j, b) cur = Some cur1"
    "loop_ready pdev planes ci first sh items cur1"
    "\<And>cur'. loop_result first sh items cur1 cur' \<Longrightarrow>
       loop_result first sh ((pass, j, b) # items) cur cur'"
proof -
  let ?i = "unat (binding b)" and ?s = "unat (layout_size (lay cur))"
  obtain al sz n yc where sh: "sh ?i = (al, sz, n, yc)" by (metis prod_cases4)
  have idx: "item_index (pass, j, b) = ?i" "item_binding (pass, j, b) = b"
    by (simp_all add: item_index_def item_binding_def)
  have pl: "placed first sh ((pass, j, b) # items) = (pass, j, b) # placed first sh items"
    using place by (simp add: placed_Cons idx)
  have it: "binding_shape pdev planes ci j b = Some (al, sz, n, yc)" "align_ok al"
    "?i < length (bindings (lay cur))"
    "bl_size (bindings (lay cur) ! ?i) = 0 \<or> bl_size (bindings (lay cur) ! ?i) = sz"
    using ready sh by (auto simp: loop_ready_def Let_def)
  have ns: "\<not> skipped first pass al" using place sh by simp
  have room: "room_for b yc cur"
    using ready sh pl
    by (auto simp: loop_ready_def Let_def room_for_def sampler_need_def ycbcr_need_def idx)
  obtain c bl where c: "layout_step pdev planes ci first (pass, j, b) cur = Some c"
    "sampler_effect b yc cur c" "bindings (lay c) = (bindings (lay cur))[?i := bl]"
    "bl_offset bl = align32 (layout_size (lay cur)) al" "bl_size bl = sz" "array_size bl = n"
    "bl_type bl = descriptorType b"
    "has_immutable b \<longrightarrow> immutable_samplers_offset bl = samplers_offset cur"
    "layout_size (lay c) = align32 (layout_size (lay cur)) al + n * sz"
    using layout_step_place [OF it(1) ns it(3,4) room] by blast
  have size: "unat (align32 (layout_size (lay cur)) al) = align_up (unat al) ?s"
    "unat (layout_size (lay c)) = align_up (unat al) ?s + unat n * unat sz"
    using placing_sizes [OF ready sh ns] c(9) by simp_all
  have lens: "length (bindings (lay c)) = length (bindings (lay cur))" using c(3) by simp
  have keep: "bl_size (bindings (lay c) ! i) = (if i = ?i then sz else bl_size (bindings (lay cur) ! i))"
    "i \<noteq> ?i \<Longrightarrow> bindings (lay c) ! i = bindings (lay cur) ! i" for i
    using it(3) c(3,5) by (auto simp: nth_list_update)
  have "item_ready pdev planes ci sh c x" if "x \<in> set items" for x
  proof -
    have "item_ready pdev planes ci sh cur x" using ready that by (simp add: loop_ready_def)
    then show ?thesis
      by (rule item_ready_keep)
        (use keep(1) [of "item_index x"] sh lens c(2) in \<open>simp_all add: sampler_effect_def\<close>)
  qed
  moreover have yn: "ycbcr_need sh (pass, j, b) = (if yc then sampler_need b else 0)"
    using sh idx by (simp add: ycbcr_need_def)
  ultimately have ready1: "loop_ready pdev planes ci first sh items c"
    using ready pl c(2) sh idx size(2)
    by (simp add: loop_ready_def sampler_effect_def extents_def)
  have new: "?i \<notin> item_index ` set (placed first sh items)"
    using ready pl idx by (simp add: loop_ready_def)
  have eff: "samplers c = samplers cur + 4 * sampler_need b"
    "samplers_offset c = samplers_offset cur + of_nat (16 * sampler_need b)"
    "length (sampler_words (lay c)) = length (sampler_words (lay cur))"
    "\<And>k. k < samplers cur \<Longrightarrow> k < length (sampler_words (lay cur)) \<Longrightarrow>
        sampler_words (lay c) ! k = sampler_words (lay cur) ! k"
    "\<And>k. has_immutable b \<Longrightarrow> k < 4 * unat (descriptorCount b) \<Longrightarrow>
        sampler_words (lay c) ! (samplers cur + k) = sampler_dwords b ! k"
    using c(2) unfolding sampler_effect_def by blast+
  have ext: "extents sh (placed first sh ((pass, j, b) # items)) =
      (unat al, unat n * unat sz) # extents sh (placed first sh items)"
    using pl sh idx by (simp add: extents_def)
  have result: "loop_result first sh ((pass, j, b) # items) cur cur'"
    if res: "loop_result first sh items c cur'" for cur'
  proof (rule loop_resultI, unfold ext)
    fix i assume i: "i < length (bindings (lay cur))"
    show "bl_size (bindings (lay cur') ! i) = (if i \<in> item_index ` set ((pass, j, b) # items)
        then fst (snd (sh i)) else bl_size (bindings (lay cur) ! i))"
      using loop_resultD(5) [OF res, of i] i keep(1) [of i] sh lens
      by (cases "i = ?i") (simp_all add: idx)
    assume "i \<notin> item_index ` set (placed first sh ((pass, j, b) # items))"
    then have "i \<notin> item_index ` set (placed first sh items)" "i \<noteq> ?i" using pl idx by auto
    then show "same_place (bindings (lay cur) ! i) (bindings (lay cur') ! i)"
      using loop_resultD(4) [OF res, of i] i keep(2) [of i] lens by simp
  next
    fix k x
    assume k: "k < length (placed first sh ((pass, j, b) # items))"
      and x: "x = item_binding (placed first sh ((pass, j, b) # items) ! k)"
    show "entry_placed (sh (unat (binding x))) x
        (place ((unat al, unat n * unat sz) # extents sh (placed first sh items)) ?s ! k)
        (bindings (lay cur') ! unat (binding x)) \<and> samplers_at cur (lay cur') x"
    proof (cases k)
      case 0
      then have "x = b" using x pl idx by simp
      have "bindings (lay c) ! ?i = bl" using c(3) it(3) by simp
      then have bl: "same_place bl (bindings (lay cur') ! ?i)"
        using loop_resultD(4) [OF res, of ?i] new it(3) lens by simp
      then have "entry_placed (sh ?i) b (align_up (unat al) ?s) (bindings (lay cur') ! ?i)"
        using c(4,6,7) size(1) sh by (simp add: entry_placed_def same_place_def)
      moreover have "samplers_at cur (lay cur') b"
        unfolding samplers_at_def
      proof (intro impI exI [of _ "samplers cur"] conjI allI)
        assume imm: "has_immutable b"
        show "immutable_samplers_offset (bindings (lay cur') ! ?i) =
            samplers_offset cur + of_nat (4 * (samplers cur - samplers cur))"
          using bl c(8) imm by (simp add: same_place_def)
        show fit: "samplers cur + 4 * unat (descriptorCount b) \<le> length (sampler_words (lay cur'))"
          using room imm loop_resultD(6) [OF res] eff(3) by (simp add: room_for_def)
        fix k assume "k < 4 * unat (descriptorCount b)"
        then show "sampler_words (lay cur') ! (samplers cur + k) = sampler_dwords b ! k"
          using loop_resultD(7) [OF res, of "samplers cur + k"] eff(1,5) imm fit
            loop_resultD(6) [OF res] by (simp add: sampler_need_def)
      qed simp
      ultimately show ?thesis using 0 \<open>x = b\<close> by simp
    next
      case (Suc m)
      then have "x = item_binding (placed first sh items ! m)" "m < length (placed first sh items)"
        using k x pl by simp_all
      then show ?thesis
        using loop_resultD(3) [OF res, of m x] Suc samplers_at_later [OF eff(1,2)] size(2) by simp
    qed
  next
    fix k assume "k < samplers cur" "k < length (sampler_words (lay cur))"
    then show "sampler_words (lay cur') ! k = sampler_words (lay cur) ! k"
      using loop_resultD(7) [OF res, of k] eff(1,3,4) by simp
  qed (use loop_resultD(1,2,6) [OF res] lens eff(3) size(2) in simp_all)
  show ?thesis using c(1) ready1 result by (rule that)
qed

lemma layout_loop_ok:
  "loop_ready pdev planes ci first sh items cur \<Longrightarrow>
   \<exists>cur'. layout_loop pdev planes ci first items cur = Some cur' \<and> loop_result first sh items cur cur'"
proof (induction items arbitrary: cur)
  case Nil
  then show ?case
    by (auto intro!: loop_resultI simp: placed_def extents_def same_place_def)
next
  case (Cons it items)
  obtain pass j b where it: "it = (pass, j, b)" by (metis prod_cases3)
  obtain cur1 where "layout_step pdev planes ci first it cur = Some cur1"
    "loop_ready pdev planes ci first sh items cur1"
    "\<And>cur'. loop_result first sh items cur1 cur' \<Longrightarrow> loop_result first sh (it # items) cur cur'"
    using layout_loop_skip [of pdev planes ci first sh pass j b items cur]
      layout_loop_place [of pdev planes ci first sh pass j b items cur] Cons.prems
    unfolding it by blast
  then show ?case using Cons.IH [of cur1] by auto
qed

section \<open>Valid create infos\<close>

text \<open>What the Vulkan specification asks of the application: binding numbers are distinct, immutable
  sampler arrays are as long as the descriptor count, and a binding of mutable type has a
  non-empty list of supported types at its position in \<open>pBindings\<close>. A binding number has to be
  below \<open>2 ^ 32 - 1\<close>, since the code adds one to it.\<close>

definition mutable_list_ok :: "radv_physical_device \<Rightarrow> VkDescriptorType list option \<Rightarrow> bool" where
  "mutable_list_ok pdev l =
     (case l of
        None \<Rightarrow> False
      | Some tys \<Rightarrow> tys \<noteq> [] \<and> (\<forall>ty\<in>set tys. mutable_member_size pdev ty \<noteq> None))"

definition layout_info_valid ::
  "radv_physical_device \<Rightarrow> VkDescriptorSetLayoutCreateInfo \<Rightarrow> bool" where
  "layout_info_valid pdev ci \<longleftrightarrow>
     distinct (map binding (pBindings ci)) \<and>
     (\<forall>b\<in>set (pBindings ci). binding b < 0xffffffff \<and>
        (has_immutable b \<longrightarrow> immutable_samplers b \<noteq> None)) \<and>
     (\<forall>(i, b)\<in>set (enumerate 0 (pBindings ci)).
        descriptorType b = VK_DESCRIPTOR_TYPE_MUTABLE_EXT \<longrightarrow> mutable_list_ok pdev (mutable_list ci i))"

text \<open>The code reads the mutable type lists at the positions the bindings have after they were
  sorted by number. \<open>mutable_lists_match\<close> says that it finds there the list the application gave for
  the binding; it holds when the bindings are listed in the order of their numbers, and when
  none is of mutable type. \<open>layout_info_ok\<close> is what the code relies on, in terms of the sorted
  positions; it follows from the two.\<close>

definition sorted_bindings :: "VkDescriptorSetLayoutCreateInfo \<Rightarrow> VkDescriptorSetLayoutBinding list"
where
  "sorted_bindings ci = sort_key binding (pBindings ci)"

definition layout_info_ok ::
  "radv_physical_device \<Rightarrow> VkDescriptorSetLayoutCreateInfo \<Rightarrow> bool" where
  "layout_info_ok pdev ci \<longleftrightarrow>
     distinct (map binding (pBindings ci)) \<and>
     (\<forall>b\<in>set (pBindings ci). binding b < 0xffffffff \<and>
        (has_immutable b \<longrightarrow> immutable_samplers b \<noteq> None)) \<and>
     (\<forall>(j, b)\<in>set (enumerate 0 (sorted_bindings ci)).
        descriptorType b = VK_DESCRIPTOR_TYPE_MUTABLE_EXT \<longrightarrow> mutable_list_ok pdev (mutable_list ci j))"

definition mutable_lists_match :: "VkDescriptorSetLayoutCreateInfo \<Rightarrow> bool" where
  "mutable_lists_match ci \<longleftrightarrow>
     (\<forall>(j, b)\<in>set (enumerate 0 (sorted_bindings ci)). descriptorType b = VK_DESCRIPTOR_TYPE_MUTABLE_EXT \<longrightarrow>
        (\<forall>i<length (pBindings ci). pBindings ci ! i = b \<longrightarrow> mutable_list ci i = mutable_list ci j))"

lemma valid_info_ok:
  assumes valid: "layout_info_valid pdev ci" and match: "mutable_lists_match ci"
  shows "layout_info_ok pdev ci"
proof -
  have "mutable_list_ok pdev (mutable_list ci j)"
    if jb: "(j, b) \<in> set (enumerate 0 (sorted_bindings ci))" "descriptorType b = VK_DESCRIPTOR_TYPE_MUTABLE_EXT" for j b
  proof -
    have "b \<in> set (pBindings ci)"
      using jb(1) by (auto simp: enumerate_eq_zip sorted_bindings_def dest: set_zip_rightD)
    then obtain i where i: "i < length (pBindings ci)" "pBindings ci ! i = b" by (auto simp: in_set_conv_nth)
    then have "(i, b) \<in> set (enumerate 0 (pBindings ci))" by (auto simp: in_set_enumerate_eq)
    then have "mutable_list_ok pdev (mutable_list ci i)" using valid jb(2) unfolding layout_info_valid_def by blast
    moreover have "mutable_list ci i = mutable_list ci j" using match jb i unfolding mutable_lists_match_def by blast
    ultimately show ?thesis by simp
  qed
  then show ?thesis using valid unfolding layout_info_ok_def layout_info_valid_def by blast
qed

lemma in_order_match:
  assumes "distinct (map binding (pBindings ci))" "sorted (map binding (pBindings ci))"
  shows "mutable_lists_match ci"
proof -
  have eq: "sorted_bindings ci = pBindings ci" using assms(2) by (simp add: sorted_bindings_def sort_key_id_if_sorted)
  have inj: "i = j" if "i < length (pBindings ci)" "j < length (pBindings ci)" "pBindings ci ! i = pBindings ci ! j" for i j
    using that assms(1) by (metis distinct_conv_nth length_map nth_map)
  show ?thesis
    unfolding mutable_lists_match_def eq
  proof (intro ballI impI allI, unfold case_prod_unfold, intro impI allI)
    fix x i assume "x \<in> set (enumerate 0 (pBindings ci))" "i < length (pBindings ci)" "pBindings ci ! i = snd x"
    then have "i = fst x" by (intro inj) (auto simp: in_set_enumerate_eq)
    then show "mutable_list ci i = mutable_list ci (fst x)" by simp
  qed
qed

text \<open>The shapes in the order in which the two passes place them, and the resulting size.\<close>

definition shapes ::
  "radv_physical_device \<Rightarrow> (u32 \<Rightarrow> u32) \<Rightarrow> VkDescriptorSetLayoutCreateInfo \<Rightarrow> shape list" where
  "shapes pdev planes ci =
     map (\<lambda>(j, b). the (binding_shape pdev planes ci j b)) (enumerate 0 (sorted_bindings ci))"

definition layout_total ::
  "radv_physical_device \<Rightarrow> (u32 \<Rightarrow> u32) \<Rightarrow> VkDescriptorSetLayoutCreateInfo \<Rightarrow> nat" where
  "layout_total pdev planes ci =
     (let first = the (first_alignment_of pdev ci (sorted_bindings ci));
          ss = shapes pdev planes ci
      in place_end (map extent (filter (\<lambda>s. fst s = first) ss @ filter (\<lambda>s. fst s \<noteq> first) ss)) 0)"

definition layout_fits ::
  "radv_physical_device \<Rightarrow> (u32 \<Rightarrow> u32) \<Rightarrow> VkDescriptorSetLayoutCreateInfo \<Rightarrow> bool" where
  "layout_fits pdev planes ci \<longleftrightarrow>
     layout_total pdev planes ci < 2 ^ 32 \<and>
     4 * (\<Sum>b\<leftarrow>pBindings ci. sampler_need b) < 2 ^ 32"

lemma mutable_size_loop_ok:
  assumes "\<forall>ty\<in>set tys. mutable_member_size pdev ty \<noteq> None" "ma = 0 \<or> align_ok ma"
  shows "\<exists>sz al. mutable_size_loop pdev tys ms ma = Some (sz, al) \<and>
    (tys \<noteq> [] \<or> ma \<noteq> 0 \<longrightarrow> align_ok al)"
  using assms
proof (induction tys arbitrary: ms ma)
  case (Cons ty tys)
  then obtain s where s: "mutable_member_size pdev ty = Some s" by auto
  have "align_ok (radv_descriptor_alignment ty)"
    by (cases ty) (simp_all add: align_ok_def)
  then have "align_ok (max ma (radv_descriptor_alignment ty))"
    using Cons.prems(2) by (auto simp: max_def align_ok_def)
  then show ?case
    using Cons.IH [of "max ma (radv_descriptor_alignment ty)" "max ms s"] Cons.prems s
    by (auto simp: align_ok_def)
qed auto

lemma combined_planes_ok:
  assumes "has_immutable b \<longrightarrow> immutable_samplers b \<noteq> None"
  shows "\<exists>mp yc. combined_planes planes b = Some (mp, yc)"
proof -
  have "\<exists>p. combined_planes planes b = Some p"
    using assms by (auto simp: combined_planes_def has_immutable_def)
  then show ?thesis by auto
qed

lemma sampler_fold_ycbcr:
  "snd (fold (\<lambda>s (m, has). case ycbcr_conversion s of None \<Rightarrow> (m, has)
     | Some c \<Rightarrow> (max m (planes (yc_format c)), True)) ss (m, has)) \<longleftrightarrow>
   has \<or> (\<exists>s\<in>set ss. ycbcr_conversion s \<noteq> None)"
  by (induction ss arbitrary: m has) (auto split: option.splits)

lemma combined_planes_ycbcr:
  assumes "combined_planes planes b = Some (mp, True)"
  obtains ss where "has_immutable b" "immutable_samplers b = Some ss"
    "\<exists>s\<in>set ss. ycbcr_conversion s \<noteq> None"
proof -
  obtain ss where "has_immutable b" "immutable_samplers b = Some ss"
    and f: "fold (\<lambda>s (m, has). case ycbcr_conversion s of None \<Rightarrow> (m, has)
     | Some c \<Rightarrow> (max m (planes (yc_format c)), True)) ss (1, False) = (mp, True)"
    using assms
    by (auto simp: combined_planes_def has_immutable_def bind_eq_Some_conv split: if_splits)
  then show ?thesis using that sampler_fold_ycbcr [of planes ss 1 False] by auto
qed

lemma sorted_bindings_in:
  "(j, b) \<in> set (enumerate 0 (sorted_bindings ci)) \<Longrightarrow> b \<in> set (pBindings ci)"
  by (auto simp: enumerate_eq_zip sorted_bindings_def dest: set_zip_rightD)

lemma binding_shape_ok:
  assumes "layout_info_ok pdev ci" "(j, b) \<in> set (enumerate 0 (sorted_bindings ci))"
  obtains al sz n yc where "binding_shape pdev planes ci j b = Some (al, sz, n, yc)" "align_ok al"
    "descriptorType b \<noteq> VK_DESCRIPTOR_TYPE_MUTABLE_EXT \<longrightarrow>
       al = radv_descriptor_alignment (descriptorType b)"
    "descriptorType b = VK_DESCRIPTOR_TYPE_MUTABLE_EXT \<longrightarrow> mutable_size_align pdev ci j = Some (ucast sz, ucast al)"
proof -
  obtain mp yc where mp: "combined_planes planes b = Some (mp, yc)"
    using assms(1) combined_planes_ok sorted_bindings_in [OF assms(2)]
    unfolding layout_info_ok_def by metis
  show ?thesis
  proof (cases "descriptorType b = VK_DESCRIPTOR_TYPE_MUTABLE_EXT")
    case True
    then have "mutable_list_ok pdev (mutable_list ci j)"
      using assms unfolding layout_info_ok_def by blast
    then obtain tys where tys: "mutable_list ci j = Some tys" "tys \<noteq> []"
      "\<forall>ty\<in>set tys. mutable_member_size pdev ty \<noteq> None"
      by (auto simp: mutable_list_ok_def split: option.splits)
    then obtain sz al where loop: "mutable_size_loop pdev tys 0 0 = Some (sz, al)" and al: "align_ok al"
      using mutable_size_loop_ok [OF tys(3), of 0 0] by auto
    then have "mutable_size_align pdev ci j = Some (ucast sz, ucast al)"
      using tys(1) by (simp add: mutable_size_align_def radv_mutable_descriptor_type_size_alignment_def)
    moreover from loop have "binding_shape pdev planes ci j b = Some (al, sz, descriptorCount b, yc)"
      using True mp tys(1)
      by (simp add: binding_shape_def layout_switch_def mutable_size_align_def
          radv_mutable_descriptor_type_size_alignment_def binding_layout_zero_def)
    ultimately show ?thesis using al True that by blast
  next
    case False
    then obtain sz n where
      "binding_shape pdev planes ci j b = Some (radv_descriptor_alignment (descriptorType b), sz, n, yc)"
      using mp by (cases "descriptorType b") (simp_all add: binding_shape_def layout_switch_def Let_def)
    moreover have "align_ok (radv_descriptor_alignment (descriptorType b))"
      by (cases "descriptorType b") (simp_all add: align_ok_def)
    ultimately show ?thesis using that False by blast
  qed
qed

section \<open>The counting loop\<close>

definition ycbcr_count :: "VkDescriptorSetLayoutBinding \<Rightarrow> nat" where
  "ycbcr_count b =
     (if has_immutable b \<and> (\<exists>s\<in>set (the (immutable_samplers b)). ycbcr_conversion s \<noteq> None)
      then unat (descriptorCount b) else 0)"

lemma ycbcr_count_le: "ycbcr_count b \<le> sampler_need b"
  by (simp add: ycbcr_count_def sampler_need_def)

lemma count_bindings_ok:
  assumes "\<forall>b\<in>set bs. has_immutable b \<longrightarrow> immutable_samplers b \<noteq> None"
  shows "\<exists>c'. count_bindings bs c = Some c' \<and>
    (num_bindings c' = num_bindings c \<or> (\<exists>b\<in>set bs. num_bindings c' = binding b + 1)) \<and>
    num_bindings c \<le> num_bindings c' \<and> (\<forall>b\<in>set bs. binding b + 1 \<le> num_bindings c') \<and>
    immutable_sampler_count c' = immutable_sampler_count c + of_nat (\<Sum>b\<leftarrow>bs. sampler_need b) \<and>
    ycbcr_sampler_count c' = ycbcr_sampler_count c + of_nat (\<Sum>b\<leftarrow>bs. ycbcr_count b)"
  using assms
proof (induction bs arbitrary: c)
  case (Cons b bs)
  obtain c1 where c1: "count_binding b c = Some c1"
    "num_bindings c1 = max (num_bindings c) (binding b + 1)"
    "immutable_sampler_count c1 = immutable_sampler_count c + of_nat (sampler_need b)"
    "ycbcr_sampler_count c1 = ycbcr_sampler_count c + of_nat (ycbcr_count b)"
  proof (cases "has_immutable b")
    case True
    then obtain ss where "immutable_samplers b = Some ss" using Cons.prems by auto
    with True show ?thesis
      by (intro that [of "the (count_binding b c)"])
        (simp_all add: count_binding_def sampler_need_def ycbcr_count_def Let_def)
  next
    case False
    then show ?thesis
      by (intro that [of "the (count_binding b c)"])
        (simp_all add: count_binding_def sampler_need_def ycbcr_count_def)
  qed
  obtain c' where "count_bindings bs c1 = Some c'" "num_bindings c1 \<le> num_bindings c'"
    "num_bindings c' = num_bindings c1 \<or> (\<exists>b\<in>set bs. num_bindings c' = binding b + 1)"
    "\<forall>b\<in>set bs. binding b + 1 \<le> num_bindings c'"
    "immutable_sampler_count c' = immutable_sampler_count c1 + of_nat (\<Sum>b\<leftarrow>bs. sampler_need b)"
    "ycbcr_sampler_count c' = ycbcr_sampler_count c1 + of_nat (\<Sum>b\<leftarrow>bs. ycbcr_count b)"
    using Cons.IH [of c1] Cons.prems by auto
  with c1 show ?case by (auto simp: add.assoc max_def split: if_splits)
qed simp

section \<open>The order of placement\<close>

abbreviation indexed :: "VkDescriptorSetLayoutCreateInfo \<Rightarrow> (nat \<times> VkDescriptorSetLayoutBinding) list"
where
  "indexed ci \<equiv> enumerate 0 (sorted_bindings ci)"

definition shape_table ::
  "radv_physical_device \<Rightarrow> (u32 \<Rightarrow> u32) \<Rightarrow> VkDescriptorSetLayoutCreateInfo \<Rightarrow> nat \<Rightarrow> shape" where
  "shape_table pdev planes ci i =
     the (map_of (map (\<lambda>(j, b). (unat (binding b), the (binding_shape pdev planes ci j b)))
       (indexed ci)) i)"

lemma map_snd_indexed [simp]: "map snd (indexed ci) = sorted_bindings ci"
  by (simp add: enumerate_eq_zip)

lemma distinct_numbers:
  assumes "layout_info_ok pdev ci"
  shows "distinct (map (\<lambda>(j, b). unat (binding b)) (indexed ci))"
proof -
  have "distinct (map binding (sorted_bindings ci))"
  proof -
    have "mset (map binding (sorted_bindings ci)) = mset (map binding (pBindings ci))"
      by (simp add: sorted_bindings_def)
    then show ?thesis
      using assms mset_eq_imp_distinct_iff unfolding layout_info_ok_def by blast
  qed
  then have "distinct (map unat (map binding (sorted_bindings ci)))"
    by (subst distinct_map) (use inj_on_unat in blast)
  moreover have "map (\<lambda>(j, b). unat (binding b)) (indexed ci) =
      map unat (map binding (map snd (indexed ci)))"
    by (simp only: map_map comp_def case_prod_unfold)
  ultimately show ?thesis by simp
qed

lemma shape_table_eq:
  assumes "layout_info_ok pdev ci" "(j, b) \<in> set (indexed ci)"
  shows "shape_table pdev planes ci (unat (binding b)) = the (binding_shape pdev planes ci j b)"
proof -
  let ?l = "map (\<lambda>(j, b). (unat (binding b), the (binding_shape pdev planes ci j b))) (indexed ci)"
  have "map fst ?l = map (\<lambda>(j, b). unat (binding b)) (indexed ci)"
    by (simp add: comp_def case_prod_unfold)
  then have "distinct (map fst ?l)" using distinct_numbers [OF assms(1)] by (simp only:)
  moreover have "(unat (binding b), the (binding_shape pdev planes ci j b)) \<in> set ?l"
    using assms(2) by (auto simp: image_iff intro!: bexI [of _ "(j, b)"])
  ultimately have "map_of ?l (unat (binding b)) = Some (the (binding_shape pdev planes ci j b))"
    by (rule map_of_is_SomeI)
  then show ?thesis by (simp add: shape_table_def)
qed

definition own_pass ::
  "radv_physical_device \<Rightarrow> (u32 \<Rightarrow> u32) \<Rightarrow> VkDescriptorSetLayoutCreateInfo \<Rightarrow> u32 \<Rightarrow>
   nat \<times> VkDescriptorSetLayoutBinding \<Rightarrow> bool" where
  "own_pass pdev planes ci first jb \<longleftrightarrow>
     fst (the (binding_shape pdev planes ci (fst jb) (snd jb))) = first"

text \<open>The bindings in the order of placement: those of the first alignment, then the others.\<close>

definition placement ::
  "radv_physical_device \<Rightarrow> (u32 \<Rightarrow> u32) \<Rightarrow> VkDescriptorSetLayoutCreateInfo \<Rightarrow> u32 \<Rightarrow>
   (nat \<times> VkDescriptorSetLayoutBinding) list" where
  "placement pdev planes ci first =
     filter (own_pass pdev planes ci first) (indexed ci) @
     filter (\<lambda>jb. \<not> own_pass pdev planes ci first jb) (indexed ci)"

lemma mset_placement: "mset (placement pdev planes ci first) = mset (indexed ci)"
  by (simp add: placement_def)

lemma placed_layout_items:
  assumes "layout_info_ok pdev ci"
  shows "map snd (placed first (shape_table pdev planes ci) (layout_items (sorted_bindings ci))) =
    placement pdev planes ci first"
proof -
  let ?sk = "\<lambda>it. \<not> skipped first (fst it) (fst (shape_table pdev planes ci (item_index it)))"
  have own: "?sk (0, jb) \<longleftrightarrow> own_pass pdev planes ci first jb"
    "?sk (1, jb) \<longleftrightarrow> \<not> own_pass pdev planes ci first jb" if "jb \<in> set (indexed ci)" for jb
    using shape_table_eq [OF assms, of "fst jb" "snd jb" planes] that
    by (auto simp: skipped_def own_pass_def item_index_def item_binding_def)
  have "map snd (filter ?sk (map (\<lambda>(j, b). (p, j, b)) xs)) = filter (\<lambda>jb. ?sk (p, jb)) xs" for p xs
    by (induction xs) (auto simp: case_prod_unfold)
  then show ?thesis
    using own by (simp add: placed_def layout_items_def placement_def cong: filter_cong)
qed

text \<open>The start of the loop has room for everything the counting loop has counted.\<close>

lemma set_layout_items: "(p, j, b) \<in> set (layout_items (sorted_bindings ci)) \<Longrightarrow> (j, b) \<in> set (indexed ci)"
  by (auto simp: layout_items_def)

lemma sum_list_placed:
  fixes f :: "VkDescriptorSetLayoutBinding \<Rightarrow> nat"
  assumes "layout_info_ok pdev ci"
  shows "(\<Sum>it\<leftarrow>placed first (shape_table pdev planes ci) (layout_items (sorted_bindings ci)).
    f (item_binding it)) = (\<Sum>b\<leftarrow>pBindings ci. f b)"
proof -
  let ?p = "placed first (shape_table pdev planes ci) (layout_items (sorted_bindings ci))"
  have "mset (map snd (map snd ?p)) = mset (map snd (indexed ci))"
    using placed_layout_items [OF assms, of first planes] mset_placement
    by (metis mset_map)
  then have "mset (map snd (map snd ?p)) = mset (pBindings ci)"
    by (simp add: sorted_bindings_def)
  then have "mset (map f (map snd (map snd ?p))) = mset (map f (pBindings ci))"
    by (metis mset_map)
  then have "sum_list (map f (map snd (map snd ?p))) = sum_list (map f (pBindings ci))"
    by (metis sum_mset_sum_list)
  then show ?thesis by (simp add: item_binding_def comp_def)
qed

lemma extents_placed:
  assumes "layout_info_ok pdev ci" "first = the (first_alignment_of pdev ci (sorted_bindings ci))"
  shows "place_end (extents (shape_table pdev planes ci)
      (placed first (shape_table pdev planes ci) (layout_items (sorted_bindings ci)))) 0 =
    layout_total pdev planes ci"
    and "extents (shape_table pdev planes ci)
      (placed first (shape_table pdev planes ci) (layout_items (sorted_bindings ci))) =
    map (\<lambda>(j, b). extent (the (binding_shape pdev planes ci j b))) (placement pdev planes ci first)"
proof -
  let ?sh = "shape_table pdev planes ci"
  let ?g = "\<lambda>(j, b). the (binding_shape pdev planes ci j b)"
  let ?p = "placed first ?sh (layout_items (sorted_bindings ci))"
  have "extents ?sh ?p = map (\<lambda>jb. extent (?sh (unat (binding (snd jb))))) (map snd ?p)"
    by (simp add: extents_def item_index_def item_binding_def)
  also have "\<dots> = map (\<lambda>jb. extent (?sh (unat (binding (snd jb))))) (placement pdev planes ci first)"
    using placed_layout_items [OF assms(1)] by simp
  also have "\<dots> = map (\<lambda>jb. extent (?g jb)) (placement pdev planes ci first)"
  proof (rule map_cong [OF refl])
    fix jb assume "jb \<in> set (placement pdev planes ci first)"
    then have "jb \<in> set (indexed ci)" using mset_placement mset_eq_setD by blast
    then show "extent (?sh (unat (binding (snd jb)))) = extent (?g jb)"
      using shape_table_eq [OF assms(1), of "fst jb" "snd jb"] by (simp add: case_prod_unfold)
  qed
  finally have e: "extents ?sh ?p = map (\<lambda>jb. extent (?g jb)) (placement pdev planes ci first)" .
  then show "extents ?sh ?p =
    map (\<lambda>(j, b). extent (the (binding_shape pdev planes ci j b))) (placement pdev planes ci first)"
    by (simp add: case_prod_unfold)
  have "map extent (filter P (shapes pdev planes ci)) =
      map (\<lambda>jb. extent (?g jb)) (filter (\<lambda>jb. P (?g jb)) (indexed ci))" for P
    by (simp add: shapes_def filter_map comp_def)
  then show "place_end (extents ?sh ?p) 0 = layout_total pdev planes ci"
    unfolding e
    unfolding layout_total_def Let_def placement_def own_pass_def assms(2)
    by (simp add: case_prod_unfold)
qed


lemma shape_ycbcr:
  assumes "binding_shape pdev planes ci j b = Some (al, sz, n, True)"
  shows "has_immutable b" "0 < descriptorCount b" "ycbcr_count b = sampler_need b"
proof -
  obtain mp where "combined_planes planes b = Some (mp, True)"
    using assms by (auto simp: binding_shape_def bind_eq_Some_conv split: prod.splits)
  then obtain ss where ss: "has_immutable b" "immutable_samplers b = Some ss"
    "\<exists>s\<in>set ss. ycbcr_conversion s \<noteq> None"
    by (rule combined_planes_ycbcr)
  then show "has_immutable b" "ycbcr_count b = sampler_need b"
    by (simp_all add: ycbcr_count_def sampler_need_def)
  have "0 < length ss" using ss(3) by (cases ss) auto
  then show "0 < descriptorCount b"
    using immutable_samplers_length [OF ss(2)] by (simp add: word_less_nat_alt)
qed

lemma distinct_placed:
  assumes "layout_info_ok pdev ci"
  shows "distinct (map item_index
    (placed first (shape_table pdev planes ci) (layout_items (sorted_bindings ci))))"
proof -
  let ?p = "placed first (shape_table pdev planes ci) (layout_items (sorted_bindings ci))"
  have "map item_index ?p = map (\<lambda>(j, b). unat (binding b)) (placement pdev planes ci first)"
    unfolding placed_layout_items [OF assms, of first planes, symmetric]
    by (simp add: item_index_def item_binding_def case_prod_unfold)
  moreover have "mset (map (\<lambda>(j, b). unat (binding b)) (placement pdev planes ci first)) =
      mset (map (\<lambda>(j, b). unat (binding b)) (indexed ci))"
    by (simp only: mset_map mset_placement)
  ultimately show ?thesis
    using distinct_numbers [OF assms] mset_eq_imp_distinct_iff by metis
qed

lemma layout_start_counts:
  assumes ok: "layout_info_ok pdev ci" and fits: "layout_fits pdev planes ci"
    and c: "count_bindings (pBindings ci)
      \<lparr>num_bindings = 0, immutable_sampler_count = 0, ycbcr_sampler_count = 0\<rparr> = Some c"
    and cur_def: "cur = layout_start hdr ci c"
  shows "b \<in> set (pBindings ci) \<Longrightarrow> unat (binding b) < length (bindings (lay cur))"
    and "length (sampler_words (lay cur)) = 4 * (\<Sum>b\<leftarrow>pBindings ci. sampler_need b)"
    and "length (ycbcr_states (lay cur)) = (\<Sum>b\<leftarrow>pBindings ci. ycbcr_count b)"
    and "b \<in> set (pBindings ci) \<Longrightarrow> 0 < ycbcr_count b \<Longrightarrow>
      unat (binding b) < length (ycbcr_offsets (lay cur))"
proof -
  let ?n = "\<Sum>b\<leftarrow>pBindings ci. sampler_need b" and ?y = "\<Sum>b\<leftarrow>pBindings ci. ycbcr_count b"
  have imm: "\<forall>b\<in>set (pBindings ci). has_immutable b \<longrightarrow> immutable_samplers b \<noteq> None"
    using ok by (simp add: layout_info_ok_def)
  have c': "\<forall>b\<in>set (pBindings ci). binding b + 1 \<le> num_bindings c"
    "immutable_sampler_count c = of_nat ?n" "ycbcr_sampler_count c = of_nat ?y"
    using count_bindings_ok [OF imm, of "\<lparr>num_bindings = 0, immutable_sampler_count = 0,
      ycbcr_sampler_count = 0\<rparr>"] c by auto
  have n: "4 * ?n < 2 ^ 32" using fits by (simp add: layout_fits_def)
  have "unat (of_nat ?n :: u32) = ?n" using n by (simp add: unat_of_nat)
  then have "unat (immutable_sampler_count c * 4) = 4 * ?n"
    using c'(2) n unat_mult_no_wrap [of "immutable_sampler_count c" 4] by simp
  then show "length (sampler_words (lay cur)) = 4 * ?n"
    by (simp add: cur_def layout_start_def Let_def)
  have "?y \<le> ?n" using ycbcr_count_le by (intro sum_list_mono)
  then have y: "unat (ycbcr_sampler_count c) = ?y" using n c'(3) by (simp add: unat_of_nat)
  then show "length (ycbcr_states (lay cur)) = ?y" by (simp add: cur_def layout_start_def Let_def)
  assume b: "b \<in> set (pBindings ci)"
  then have "binding b < 0xffffffff" "binding b + 1 \<le> num_bindings c"
    using ok c'(1) by (auto simp: layout_info_ok_def)
  then have i: "unat (binding b) < unat (num_bindings c)"
    using unat_add_no_wrap [of "binding b" 1] by (simp add: word_le_nat_alt word_less_nat_alt)
  then show "unat (binding b) < length (bindings (lay cur))"
    by (simp add: cur_def layout_start_def Let_def)
  assume "0 < ycbcr_count b"
  then have "0 < ?y" using b member_le_sum_list [of "ycbcr_count b" "map ycbcr_count (pBindings ci)"]
    by simp
  then have "0 < ycbcr_sampler_count c" using y by (simp add: word_less_nat_alt)
  then show "unat (binding b) < length (ycbcr_offsets (lay cur))"
    using i by (simp add: cur_def layout_start_def Let_def)
qed

lemma layout_start_ready:
  assumes ok: "layout_info_ok pdev ci" and fits: "layout_fits pdev planes ci"
    and first: "first = the (first_alignment_of pdev ci (sorted_bindings ci))"
    and c: "count_bindings (pBindings ci)
      \<lparr>num_bindings = 0, immutable_sampler_count = 0, ycbcr_sampler_count = 0\<rparr> = Some c"
  shows "loop_ready pdev planes ci first (shape_table pdev planes ci)
    (layout_items (sorted_bindings ci)) (layout_start hdr ci c)"
proof -
  let ?sh = "shape_table pdev planes ci" and ?c = "layout_start hdr ci c"
  let ?items = "layout_items (sorted_bindings ci)"
  note room = layout_start_counts [OF ok fits c refl]
  have shape: "\<exists>al sz n yc. binding_shape pdev planes ci j b = Some (al, sz, n, yc) \<and> align_ok al \<and>
      ?sh (unat (binding b)) = (al, sz, n, yc)" if it: "(p, j, b) \<in> set ?items" for p j b
  proof -
    obtain al sz n yc where "binding_shape pdev planes ci j b = Some (al, sz, n, yc)" "align_ok al"
      by (rule binding_shape_ok [OF ok set_layout_items [OF it], of planes])
    then show ?thesis using shape_table_eq [OF ok set_layout_items [OF it], of planes] by simp
  qed
  have zero: "bl_size (bindings (lay ?c) ! i) = 0" if "i < length (bindings (lay ?c))" for i
    using that by (simp add: layout_start_def Let_def binding_layout_zero_def)
  have need: "4 * unat (descriptorCount b) < 2 ^ 32"
    if "b \<in> set (pBindings ci)" "has_immutable b" for b
  proof -
    have "sampler_need b \<le> (\<Sum>b\<leftarrow>pBindings ci. sampler_need b)"
      using that by (intro member_le_sum_list) auto
    then show ?thesis using that(2) fits by (simp add: layout_fits_def sampler_need_def [of b])
  qed
  have ready: "item_ready pdev planes ci ?sh ?c it" if item: "it \<in> set ?items" for it
  proof -
    obtain p j b where it: "it = (p, j, b)" by (metis prod_cases3)
    obtain al sz n yc where s: "binding_shape pdev planes ci j b = Some (al, sz, n, yc)" "align_ok al"
      "?sh (unat (binding b)) = (al, sz, n, yc)" using shape item it by blast
    have b: "b \<in> set (pBindings ci)"
      using sorted_bindings_in set_layout_items item it by blast
    have "yc \<longrightarrow> unat (binding b) < length (ycbcr_offsets (lay ?c))"
    proof
      assume yc
      then have "binding_shape pdev planes ci j b = Some (al, sz, n, True)" using s(1) by simp
      from shape_ycbcr [OF this] have "0 < ycbcr_count b"
        by (simp add: sampler_need_def word_less_nat_alt)
      then show "unat (binding b) < length (ycbcr_offsets (lay ?c))" by (rule room(4) [OF b])
    qed
    moreover have "has_immutable b \<longrightarrow> immutable_samplers b \<noteq> None"
      using ok b unfolding layout_info_ok_def by blast
    ultimately show ?thesis
      using it s room(1) [OF b] zero [OF room(1) [OF b]] need [OF b] by simp
  qed
  have ysum: "(\<Sum>it\<leftarrow>placed first ?sh ?items. ycbcr_need ?sh it) \<le> (\<Sum>b\<leftarrow>pBindings ci. ycbcr_count b)"
    unfolding sum_list_placed [OF ok, of ycbcr_count first planes, symmetric]
  proof (rule sum_list_mono)
    fix it assume "it \<in> set (placed first ?sh ?items)"
    then have "it \<in> set ?items" using set_placed by blast
    moreover obtain p j b where it: "it = (p, j, b)" by (metis prod_cases3)
    ultimately obtain al sz n yc where "binding_shape pdev planes ci j b = Some (al, sz, n, yc)"
      "?sh (unat (binding b)) = (al, sz, n, yc)" using shape by blast
    then show "ycbcr_need ?sh it \<le> ycbcr_count (item_binding it)"
      using shape_ycbcr(3) [of pdev planes ci j b al sz n] it
      by (cases yc) (simp_all add: ycbcr_need_def item_index_def item_binding_def)
  qed
  have "layout_size (lay ?c) = 0" "samplers ?c = 0" "ycbcr_samplers ?c = 0"
    by (simp_all add: layout_start_def Let_def)
  then have "place_end (extents ?sh (placed first ?sh ?items)) (unat (layout_size (lay ?c))) < 2 ^ 32"
    "samplers ?c + 4 * (\<Sum>it\<leftarrow>placed first ?sh ?items. sampler_need (item_binding it)) \<le>
       length (sampler_words (lay ?c))"
    "ycbcr_samplers ?c + (\<Sum>it\<leftarrow>placed first ?sh ?items. ycbcr_need ?sh it) \<le>
       length (ycbcr_states (lay ?c))"
    using extents_placed(1) [OF ok first, of planes] fits ysum room(2,3)
      sum_list_placed [OF ok, of sampler_need first planes]
    by (simp_all add: layout_fits_def)
  then show ?thesis
    unfolding loop_ready_def using ready distinct_placed [OF ok] by blast
qed

text \<open>Sorting bindings paired with equal flags is sorting the bindings.\<close>

lemma map_fst_insort_key:
  "map fst (insort_key (\<lambda>p. f (fst p)) x xs) = insort_key f (fst x) (map fst xs)"
  by (induction xs) auto

lemma map_fst_sort_key:
  "map fst (sort_key (\<lambda>p. f (fst p)) (zip xs (map (\<lambda>_. c) xs))) = sort_key f xs"
  by (induction xs) (simp_all add: map_fst_insort_key)

lemma sorted_bindings_result:
  assumes "\<forall>n. mem n"
  shows "\<exists>fs. vk_create_sorted_bindings mem (pBindings ci) None = Inr (sorted_bindings ci, fs)"
  using assms map_fst_sort_key [of binding "pBindings ci" "0 :: u32"]
  by (auto simp: vk_create_sorted_bindings_def Let_def sorted_bindings_def)

lemma number_nonzero:
  assumes "layout_info_ok pdev ci" "b \<in> set (pBindings ci)"
  shows "binding b + 1 \<noteq> 0" "unat (binding b + 1) = unat (binding b) + 1"
proof -
  have "binding b < 0xffffffff" using assms by (simp add: layout_info_ok_def)
  then show "unat (binding b + 1) = unat (binding b) + 1"
    using unat_add_no_wrap [of "binding b" 1] by (simp add: word_less_nat_alt)
  then show "binding b + 1 \<noteq> 0" by (metis Suc_eq_plus1 nat.simps(3) unat_0)
qed

lemma first_alignment_ok:
  assumes "layout_info_ok pdev ci"
  obtains first where "first_alignment_of pdev ci (sorted_bindings ci) = Some first"
proof (cases "sorted_bindings ci = []")
  case False
  let ?b = "last (sorted_bindings ci)" and ?j = "length (sorted_bindings ci) - 1"
  have "(?j, ?b) \<in> set (indexed ci)"
    using False by (auto simp: in_set_enumerate_eq last_conv_nth)
  then have "descriptorType ?b = VK_DESCRIPTOR_TYPE_MUTABLE_EXT \<longrightarrow> mutable_list ci ?j \<noteq> None"
    using assms unfolding layout_info_ok_def by (fastforce simp: mutable_list_ok_def split: option.splits)
  then have "(if descriptorType ?b = VK_DESCRIPTOR_TYPE_MUTABLE_EXT
      then map_option (\<lambda>(sz, al). ucast al) (mutable_size_align pdev ci ?j)
      else Some (radv_descriptor_alignment (descriptorType ?b))) \<noteq> None"
    by (cases "mutable_list ci ?j") (simp_all add: mutable_size_align_def split: option.splits)
  then obtain al where "(if descriptorType ?b = VK_DESCRIPTOR_TYPE_MUTABLE_EXT
      then map_option (\<lambda>(sz, al). ucast al) (mutable_size_align pdev ci ?j)
      else Some (radv_descriptor_alignment (descriptorType ?b))) = Some al"
    by blast
  then show ?thesis
    using that False by (simp add: first_alignment_of_def)
qed (use that in \<open>simp add: first_alignment_of_def\<close>)

text \<open>Everything the creation of a layout establishes, in one place.\<close>

lemma create_layout_ok:
  assumes ok: "layout_info_ok pdev ci" and fits: "layout_fits pdev planes ci"
    and zalloc: "\<forall>n. zalloc n" and mem: "\<forall>n. mem n"
  obtains l cur first c where
    "radv_CreateDescriptorSetLayout pdev planes blake3 hdr zalloc mem ci = Some (Inr l)"
    "l = layout_finish blake3 cur"
    "first_alignment_of pdev ci (sorted_bindings ci) = Some first"
    "loop_result first (shape_table pdev planes ci) (layout_items (sorted_bindings ci))
       (layout_start hdr ci c) cur"
    "\<forall>b\<in>set (pBindings ci). unat (binding b) < length (bindings (lay (layout_start hdr ci c)))"
    "pBindings ci \<noteq> [] \<longrightarrow> (\<exists>b\<in>set (pBindings ci). num_bindings c = binding b + 1)"
    "length (sampler_words (lay (layout_start hdr ci c))) = 4 * (\<Sum>b\<leftarrow>pBindings ci. sampler_need b)"
proof -
  have imm: "\<forall>b\<in>set (pBindings ci). has_immutable b \<longrightarrow> immutable_samplers b \<noteq> None"
    using ok by (simp add: layout_info_ok_def)
  obtain c where c: "count_bindings (pBindings ci)
      \<lparr>num_bindings = 0, immutable_sampler_count = 0, ycbcr_sampler_count = 0\<rparr> = Some c"
    and num: "pBindings ci \<noteq> [] \<longrightarrow> (\<exists>b\<in>set (pBindings ci). num_bindings c = binding b + 1)"
    using count_bindings_ok [OF imm, of "\<lparr>num_bindings = 0, immutable_sampler_count = 0,
      ycbcr_sampler_count = 0\<rparr>"] number_nonzero [OF ok] by fastforce
  obtain first where first: "first_alignment_of pdev ci (sorted_bindings ci) = Some first"
    by (rule first_alignment_ok [OF ok])
  then have "first = the (first_alignment_of pdev ci (sorted_bindings ci))" by simp
  from layout_loop_ok [OF layout_start_ready [OF ok fits this c]]
  obtain cur where cur: "layout_loop pdev planes ci first (layout_items (sorted_bindings ci))
      (layout_start hdr ci c) = Some cur"
    "loop_result first (shape_table pdev planes ci) (layout_items (sorted_bindings ci))
       (layout_start hdr ci c) cur" by blast
  obtain fs where "vk_create_sorted_bindings mem (pBindings ci) None = Inr (sorted_bindings ci, fs)"
    using sorted_bindings_result [OF mem] by blast
  then have "radv_CreateDescriptorSetLayout pdev planes blake3 hdr zalloc mem ci =
      Some (Inr (layout_finish blake3 cur))"
    using zalloc by (auto simp: radv_CreateDescriptorSetLayout_def c first cur(1))
  then show ?thesis
    using that [OF _ refl first cur(2) _ num layout_start_counts(2) [OF ok fits c refl]]
      layout_start_counts(1) [OF ok fits c refl] by blast
qed

definition binding_range :: "radv_descriptor_set_binding_layout \<Rightarrow> nat set" where
  "binding_range bl = {unat (bl_offset bl)..<unat (bl_offset bl) + unat (array_size bl) * unat (bl_size bl)}"

lemma created_entry:
  assumes ok: "layout_info_ok pdev ci" and b: "b \<in> set (pBindings ci)"
    and sh: "sh = shape_table pdev planes ci"
    and pl: "pl = placed first sh (layout_items (sorted_bindings ci))"
    and res: "loop_result first sh (layout_items (sorted_bindings ci)) (layout_start hdr ci c) cur"
    and i: "unat (binding b) < length (bindings (lay (layout_start hdr ci c)))"
  obtains k where "k < length pl" "item_binding (pl ! k) = b"
    "binding_range (bindings (lay cur) ! unat (binding b)) =
       {place (extents sh pl) 0 ! k..<place (extents sh pl) 0 ! k + snd (extents sh pl ! k)}"
    "unat (bl_offset (bindings (lay cur) ! unat (binding b))) = place (extents sh pl) 0 ! k"
    "bl_type (bindings (lay cur) ! unat (binding b)) = descriptorType b"
    "samplers_at (layout_start hdr ci c) (lay cur) b"
    "descriptorType b \<noteq> VK_DESCRIPTOR_TYPE_MUTABLE_EXT \<longrightarrow>
       fst (extents sh pl ! k) = unat (radv_descriptor_alignment (descriptorType b))"
    "descriptorType b = VK_DESCRIPTOR_TYPE_MUTABLE_EXT \<longrightarrow>
       (\<exists>j al. (j, b) \<in> set (indexed ci) \<and> fst (extents sh pl ! k) = unat (al :: u32) \<and>
         mutable_size_align pdev ci j = Some (ucast (bl_size (bindings (lay cur) ! unat (binding b))), ucast al))"
proof -
  have "set (map item_binding pl) = set (pBindings ci)"
  proof -
    have "set (map snd (map snd pl)) = set (map snd (indexed ci))"
      using placed_layout_items [OF ok, of first planes] mset_placement mset_eq_setD pl sh
      by (metis set_map)
    then show ?thesis by (simp add: sorted_bindings_def item_binding_def image_image)
  qed
  then obtain k where k: "k < length pl" "item_binding (pl ! k) = b"
    using b by (metis in_set_conv_nth length_map nth_map)
  obtain p j where it: "pl ! k = (p, j, b)"
    using k(2) by (metis item_binding_def prod.collapse)
  then have mem: "(p, j, b) \<in> set (layout_items (sorted_bindings ci))"
    using k(1) pl set_placed by (metis nth_mem subsetD)
  obtain al sz n yc where s: "binding_shape pdev planes ci j b = Some (al, sz, n, yc)" "align_ok al"
    "descriptorType b \<noteq> VK_DESCRIPTOR_TYPE_MUTABLE_EXT \<longrightarrow>
       al = radv_descriptor_alignment (descriptorType b)"
    "descriptorType b = VK_DESCRIPTOR_TYPE_MUTABLE_EXT \<longrightarrow> mutable_size_align pdev ci j = Some (ucast sz, ucast al)"
    by (rule binding_shape_ok [OF ok set_layout_items [OF mem], of planes])
  have shb: "sh (unat (binding b)) = (al, sz, n, yc)"
    using shape_table_eq [OF ok set_layout_items [OF mem], of planes] s(1) sh by simp
  have ext: "extents sh pl ! k = (unat al, unat n * unat sz)"
    using k(1) it shb by (simp add: extents_def item_index_def item_binding_def)
  have zero: "unat (layout_size (lay (layout_start hdr ci c))) = 0"
    by (simp add: layout_start_def Let_def)
  note entry = loop_resultD(3) [OF res, of k b, folded pl, OF k(1) k(2) [symmetric], unfolded zero]
  have "unat (binding b) \<in> item_index ` set (layout_items (sorted_bindings ci))"
    using mem by (force simp: item_index_def item_binding_def)
  then have size: "bl_size (bindings (lay cur) ! unat (binding b)) = sz"
    using loop_resultD(5) [OF res i] shb by simp
  show ?thesis
    by (rule that [OF k]) (use entry size ext shb s(3,4) set_layout_items [OF mem] in
      \<open>auto simp: binding_range_def entry_placed_def\<close>)
qed

section \<open>Reading immutable samplers back\<close>

text \<open>Word \<open>k\<close> behind the pointer \<open>radv_immutable_samplers\<close> computes from a binding's offset.\<close>

definition radv_immutable_samplers ::
  "u64 \<Rightarrow> radv_descriptor_set_layout \<Rightarrow> radv_descriptor_set_binding_layout \<Rightarrow> nat \<Rightarrow> u32 option" where
  "radv_immutable_samplers hdr l bl k =
     array_read (sampler_words l)
       ((unat (immutable_samplers_offset bl) -
         (unat hdr + unat SIZEOF_BINDING_LAYOUT * length (bindings l))) div 4 + k)"

lemma concat_dwords4_nth:
  "i < length ss \<Longrightarrow> k < 4 \<Longrightarrow>
   concat (map (\<lambda>s. dwords4_list (sampler_state s)) ss) ! (4 * i + k) =
     dwords4_list (sampler_state (ss ! i)) ! k"
proof (induction ss arbitrary: i)
  case (Cons s ss)
  then show ?case by (cases i) (auto simp: nth_append)
qed simp

lemma samplers_base:
  assumes "unat hdr + 28 * unat (num_bindings c) + 4 * pos < 2 ^ 32"
  shows "unat (samplers_offset (layout_start hdr ci c) + of_nat (4 * pos)) =
    unat hdr + 28 * unat (num_bindings c) + 4 * pos"
proof -
  have "unat (28 * ucast (num_bindings c) :: u64) = 28 * unat (num_bindings c)"
    using assms unat_mult_no_wrap [of "28 :: u64" "ucast (num_bindings c)"] by simp
  then have "unat (hdr + 28 * ucast (num_bindings c)) = unat hdr + 28 * unat (num_bindings c)"
    using assms unat_add_no_wrap [of hdr "28 * ucast (num_bindings c)"] by simp
  then have base: "unat (samplers_offset (layout_start hdr ci c)) = unat hdr + 28 * unat (num_bindings c)"
    using assms
    by (simp add: layout_start_def Let_def SIZEOF_BINDING_LAYOUT_def unat_ucast_u64_u32)
  have "unat (of_nat (4 * pos) :: u32) = 4 * pos mod 2 ^ 32"
    using unat_of_nat [of "4 * pos", where ?'a = 32] by simp
  moreover have "4 * pos < 2 ^ 32" using assms by linarith
  ultimately have "unat (of_nat (4 * pos) :: u32) = 4 * pos" by (metis mod_less)
  then show ?thesis using base assms
      unat_add_no_wrap [of "samplers_offset (layout_start hdr ci c)" "of_nat (4 * pos)"] by simp
qed

section \<open>Properties\<close>

text \<open>A create info with five bindings in two alignment classes, one of them of mutable type
  and one with two immutable samplers, for the witnesses.\<close>

definition example_device :: radv_physical_device where
  "example_device = \<lparr>use_fmask = False, force_64_byte_sampled_image = False\<rparr>"

definition example_layout_info :: VkDescriptorSetLayoutCreateInfo where
  "example_layout_info = \<lparr>ci_flags = 0,
     pBindings =
       [\<lparr>binding = 0, descriptorType = VK_DESCRIPTOR_TYPE_UNIFORM_BUFFER, descriptorCount = 3,
         stageFlags = 1, pImmutableSamplers = None\<rparr>,
        \<lparr>binding = 1, descriptorType = VK_DESCRIPTOR_TYPE_STORAGE_IMAGE, descriptorCount = 2,
         stageFlags = 1, pImmutableSamplers = None\<rparr>,
        \<lparr>binding = 2, descriptorType = VK_DESCRIPTOR_TYPE_SAMPLER, descriptorCount = 2,
         stageFlags = 1, pImmutableSamplers =
           Some [\<lparr>sampler_state = (1, 2, 3, 4), ycbcr_conversion = None\<rparr>,
                 \<lparr>sampler_state = (5, 6, 7, 8), ycbcr_conversion = None\<rparr>]\<rparr>,
        \<lparr>binding = 4, descriptorType = VK_DESCRIPTOR_TYPE_MUTABLE_EXT, descriptorCount = 1,
         stageFlags = 1, pImmutableSamplers = None\<rparr>],
     pBindingFlags = None,
     pMutableDescriptorTypeLists = Some [[], [], [], [VK_DESCRIPTOR_TYPE_SAMPLED_IMAGE,
       VK_DESCRIPTOR_TYPE_UNIFORM_BUFFER]]\<rparr>"

lemma example_sorted: "sorted_bindings example_layout_info = pBindings example_layout_info"
  by (simp add: sorted_bindings_def example_layout_info_def)

lemma example_layout_valid: "layout_info_valid example_device example_layout_info"
  unfolding layout_info_valid_def
  by (simp add: example_layout_info_def has_immutable_def immutable_samplers_def array_slice_def
      mutable_list_def array_read_def mutable_list_ok_def)

lemma example_layout_match: "mutable_lists_match example_layout_info"
  by (rule in_order_match) (simp_all add: example_layout_info_def)

lemmas example_layout_ok = valid_info_ok [OF example_layout_valid example_layout_match]

lemmas shape_eval = binding_shape_def layout_switch_def combined_planes_def mutable_size_align_def
  mutable_list_def array_read_def radv_mutable_descriptor_type_size_alignment_def
  first_alignment_of_def desc_size_defs radv_get_sampled_image_desc_size_def binding_layout_zero_def
  align_up_def Let_def

lemma example_layout_total: "layout_total example_device (\<lambda>_. 1) example_layout_info = 192"
  unfolding layout_total_def shapes_def example_sorted
  by (simp add: example_layout_info_def example_device_def shape_eval immutable_samplers_def
      array_slice_def)

lemma example_layout_fits: "layout_fits example_device (\<lambda>_. 1) example_layout_info"
  unfolding layout_fits_def example_layout_total
  by (simp add: example_layout_info_def sampler_need_def has_immutable_def)



text \<open>C18. The immutable samplers of a binding, copied behind the bindings when the layout is
  created, are read back exactly through the binding's offset, provided the object is smaller
  than \<open>2 ^ 32\<close> bytes.\<close>

theorem layout_samplers_roundtrip:
  assumes "layout_info_ok pdev ci" "layout_fits pdev planes ci" "\<forall>n. zalloc n" "\<forall>n. mem n"
    and create: "radv_CreateDescriptorSetLayout pdev planes blake3 hdr zalloc mem ci = Some (Inr l)"
    and room: "\<forall>b\<in>set (pBindings ci). unat hdr + 28 * (unat (binding b) + 1) +
      16 * (\<Sum>b\<leftarrow>pBindings ci. sampler_need b) < 2 ^ 32"
    and b: "b \<in> set (pBindings ci)" "has_immutable b" "immutable_samplers b = Some ss"
    and "i < length ss" "k < 4"
  shows "radv_immutable_samplers hdr l (bindings l ! unat (binding b)) (4 * i + k) =
    Some (dwords4_list (sampler_state (ss ! i)) ! k)"
proof -
  obtain l' cur first c where l:
    "radv_CreateDescriptorSetLayout pdev planes blake3 hdr zalloc mem ci = Some (Inr l')"
    "l' = layout_finish blake3 cur" "first_alignment_of pdev ci (sorted_bindings ci) = Some first"
    and res: "loop_result first (shape_table pdev planes ci) (layout_items (sorted_bindings ci))
       (layout_start hdr ci c) cur"
    and idx: "\<forall>b\<in>set (pBindings ci). unat (binding b) < length (bindings (lay (layout_start hdr ci c)))"
    and num: "pBindings ci \<noteq> [] \<longrightarrow> (\<exists>b\<in>set (pBindings ci). num_bindings c = binding b + 1)"
    and words: "length (sampler_words (lay (layout_start hdr ci c))) =
      4 * (\<Sum>b\<leftarrow>pBindings ci. sampler_need b)"
    by (rule create_layout_ok [OF assms(1-4)])
  have "l = layout_finish blake3 cur" using create l(1,2) by simp
  then have fields: "bindings l = bindings (lay cur)" "sampler_words l = sampler_words (lay cur)"
    by (simp_all add: layout_finish_def Let_def)
  obtain b0 where "b0 \<in> set (pBindings ci)" "num_bindings c = binding b0 + 1"
    using num b(1) by force
  then have "unat (num_bindings c) = unat (binding b0) + 1"
    using number_nonzero(2) [OF assms(1)] by simp
  moreover have "length (bindings l) = unat (num_bindings c)"
    using loop_resultD(1) [OF res] fields by (simp add: layout_start_def Let_def)
  ultimately have fit: "unat hdr + 28 * length (bindings l) + 4 * length (sampler_words l) < 2 ^ 32"
    using room \<open>b0 \<in> _\<close> words loop_resultD(6) [OF res] fields(2) by simp
  have "samplers_at (layout_start hdr ci c) (lay cur) b"
    by (rule created_entry [OF assms(1) b(1) refl refl res bspec [OF idx b(1)]])
  then obtain pos where pos:
    "immutable_samplers_offset (bindings l ! unat (binding b)) =
      samplers_offset (layout_start hdr ci c) + of_nat (4 * pos)"
    "pos + 4 * length ss \<le> length (sampler_words l)"
    "\<forall>k<4 * length ss. sampler_words l ! (pos + k) = sampler_dwords b ! k"
    using b(2) fields immutable_samplers_length [OF b(3)]
    by (auto simp: samplers_at_def layout_start_def Let_def)
  have "unat (immutable_samplers_offset (bindings l ! unat (binding b))) =
      unat hdr + 28 * length (bindings l) + 4 * pos"
    unfolding pos(1)
    using samplers_base [of hdr c pos ci] fit pos(2) \<open>length (bindings l) = _\<close> by simp
  then show ?thesis
    using pos(2,3) assms(10,11) concat_dwords4_nth [of i ss k] b(3)
    by (simp add: radv_immutable_samplers_def SIZEOF_BINDING_LAYOUT_def array_read_def
        sampler_dwords_def)
qed

theorem layout_samplers_roundtrip_witness:
  "\<exists>l. radv_CreateDescriptorSetLayout example_device (\<lambda>_. 1) (\<lambda>_. []) 120 (\<lambda>_. True) (\<lambda>_. True)
      example_layout_info = Some (Inr l) \<and>
     radv_immutable_samplers 120 l (bindings l ! 2) 5 = Some 6"
proof -
  obtain l where l: "radv_CreateDescriptorSetLayout example_device (\<lambda>_. 1) (\<lambda>_. []) 120 (\<lambda>_. True)
      (\<lambda>_. True) example_layout_info = Some (Inr l)"
    by (rule create_layout_ok [OF example_layout_ok example_layout_fits,
          of "\<lambda>_. True" "\<lambda>_. True" "\<lambda>_. []" 120]) auto
  let ?b = "pBindings example_layout_info ! 2"
  let ?ss = "[\<lparr>sampler_state = (1, 2, 3, 4), ycbcr_conversion = None\<rparr>,
    \<lparr>sampler_state = (5, 6, 7, 8), ycbcr_conversion = None\<rparr>]"
  have "\<forall>b\<in>set (pBindings example_layout_info). unat (120 :: u64) + 28 * (unat (binding b) + 1) +
      16 * (\<Sum>b\<leftarrow>pBindings example_layout_info. sampler_need b) < 2 ^ 32"
    by (simp add: example_layout_info_def sampler_need_def has_immutable_def)
  moreover have "has_immutable ?b" "immutable_samplers ?b = Some ?ss" "unat (binding ?b) = 2"
    "?b \<in> set (pBindings example_layout_info)"
    by (simp_all add: example_layout_info_def has_immutable_def immutable_samplers_def
        array_slice_def)
  ultimately show ?thesis
    using layout_samplers_roundtrip [OF example_layout_ok example_layout_fits _ _ l, of ?b ?ss 1 1] l
    by simp
qed

section \<open>The query and the creation agree\<close>









section \<open>Two deviations\<close>

lemma replicate_2: "replicate 2 x = [x, x]"
  by (simp add: numeral_2_eq_2)

lemmas layout_eval = radv_CreateDescriptorSetLayout_def count_binding_def has_immutable_def
  vk_create_sorted_bindings_def layout_items_def layout_start_def layout_step_def skipped_def
  layout_finish_def shape_eval align32_def ALIGN_POT_def variable_at_def

text \<open>The support query guards against overflow with an unsigned subtraction that wraps once
  the running size has passed \<open>INT32_MAX\<close>: two bindings of \<open>2 ^ 31 - 16\<close> and \<open>2 ^ 32\<close> bytes are
  reported as supported, and the 32-bit size of the layout that is then created has wrapped.\<close>

lemma layout_support_wraps:
  "let ci = \<lparr>ci_flags = 0, pBindings =
         [\<lparr>binding = 0, descriptorType = VK_DESCRIPTOR_TYPE_SAMPLER, descriptorCount = 134217727,
           stageFlags = 1, pImmutableSamplers = None\<rparr>,
          \<lparr>binding = 1, descriptorType = VK_DESCRIPTOR_TYPE_SAMPLED_IMAGE,
           descriptorCount = 134217728, stageFlags = 1, pImmutableSamplers = None\<rparr>],
         pBindingFlags = None, pMutableDescriptorTypeLists = None\<rparr>
   in map_option supported
        (radv_GetDescriptorSetLayoutSupport example_device (\<lambda>_. True) ci None) = Some True \<and>
      map_option (map_sum id layout_size)
        (radv_CreateDescriptorSetLayout example_device planes (\<lambda>_. []) 120 (\<lambda>_. True) (\<lambda>_. True) ci) =
        Some (Inr 0x80000000)"
  by (simp add: layout_eval example_device_def radv_GetDescriptorSetLayoutSupport_def
      support_step_def support_switch_def align64_def INT32_MAX_def)

text \<open>The mutable type lists (and the binding flags) of a create info are parallel to its
  unsorted \<open>pBindings\<close>, but the code indexes them with the position after sorting. With binding
  1 listed before binding 0, the mutable binding 1 gets the empty list of binding 0: its size is
  0 and it shares the offset of binding 0.\<close>

lemma layout_unsorted_mutable:
  "let ci = \<lparr>ci_flags = 0, pBindings =
         [\<lparr>binding = 1, descriptorType = VK_DESCRIPTOR_TYPE_MUTABLE_EXT, descriptorCount = 1,
           stageFlags = 1, pImmutableSamplers = None\<rparr>,
          \<lparr>binding = 0, descriptorType = VK_DESCRIPTOR_TYPE_UNIFORM_BUFFER,
           descriptorCount = 1, stageFlags = 1, pImmutableSamplers = None\<rparr>],
         pBindingFlags = None,
         pMutableDescriptorTypeLists = Some [[VK_DESCRIPTOR_TYPE_SAMPLED_IMAGE], []]\<rparr>
   in map_option (map_sum id (\<lambda>l. map (\<lambda>bl. (bl_offset bl, bl_size bl)) (bindings l)))
        (radv_CreateDescriptorSetLayout example_device planes (\<lambda>_. []) 120 (\<lambda>_. True) (\<lambda>_. True) ci) =
        Some (Inr [(0, 16), (0, 0)])"
  by (simp add: layout_eval example_device_def replicate_2)

end
