(* ===== verification/Descriptor_Pool.thy ===== *)
theory Descriptor_Pool
  imports Vma_Heap Descriptor_Layout
begin

text \<open>
  Descriptor pools and sets: \<open>src/src/amd/vulkan/radv_descriptor_pool.c\<close> and the allocation
  half of \<open>src/src/amd/vulkan/radv_descriptor_set.c\<close>.

  A pool is either a \<^emph>\<open>heap pool\<close> (created with the free-descriptor-set flag; each set takes a
  range of a virtual-address heap) or a \<^emph>\<open>linear pool\<close> (sets and descriptor memory are handed
  out from two bump pointers and only a reset gives them back). The model keeps the pool's
  fields; a set is a record with its address \<open>set_ptr\<close> as identity, so that unlinking a set
  removes it from the pool's list by address. \<open>bo_heap\<close> is \<open>None\<close> while the embedded heap is
  still zeroed: no operation of the heap is defined on it, and the model's result is \<open>None\<close>.

  Outside code appears as parameters: the host allocator (an address, 0 on failure), the
  buffer-object creation and mapping of the winsys, and the sizes of the C structures.
\<close>

section \<open>State\<close>

record radeon_winsys_bo =
  bo_va :: u64

record radv_descriptor_set =
  set_ptr :: u64
  set_layout :: u64
  set_offset :: u32
  set_size :: u32
  set_bo :: "radeon_winsys_bo option"
  set_va :: u64
  set_mapped_ptr :: u64
  dynamic_descriptors :: u64

record radv_descriptor_pool =
  pool_bo :: "radeon_winsys_bo option"
  host_bo :: u64
  mapped_ptr :: u64
  current_offset :: u64
  pool_size :: u64
  host_memory_base :: u64
  host_memory_ptr :: u64
  host_memory_end :: u64
  sets :: "radv_descriptor_set list"
  bo_heap :: "util_vma_heap option"
  entry_count :: u32
  max_entry_count :: u32

text \<open>What the pool operations touch outside the pool: the reference counts of the layouts, the
  layouts whose \<open>destroy\<close> was called, and the descriptor memory, a word per address.\<close>

record pool_world =
  layout_refs :: "u64 \<Rightarrow> u32"
  destroyed_layouts :: "u64 list"
  desc_memory :: "u64 \<Rightarrow> u32"

record pool_abi =
  sizeof_pool :: u64
  sizeof_set :: u64
  layout_hdr :: u64

definition SIZEOF_DESCRIPTOR_RANGE :: u64 where "SIZEOF_DESCRIPTOR_RANGE = 16"
definition RADV_POOL_HEAP_OFFSET :: u64 where "RADV_POOL_HEAP_OFFSET = 32"

definition vk_descriptor_set_layout_ref :: "u64 \<Rightarrow> pool_world \<Rightarrow> pool_world" where
  "vk_descriptor_set_layout_ref l w = w\<lparr>layout_refs := (layout_refs w)(l := layout_refs w l + 1)\<rparr>"

definition vk_descriptor_set_layout_unref :: "u64 \<Rightarrow> pool_world \<Rightarrow> pool_world" where
  "vk_descriptor_set_layout_unref l w =
     (let w = w\<lparr>layout_refs := (layout_refs w)(l := layout_refs w l - 1)\<rparr>
      in if layout_refs w l = 0 then w\<lparr>destroyed_layouts := l # destroyed_layouts w\<rparr> else w)"

section \<open>Taking and returning descriptor memory\<close>

text \<open>\<open>radv_alloc_descriptor_pool_entry\<close>: the choice of the offset, and the bookkeeping after it.\<close>

definition pool_take ::
  "radv_descriptor_pool \<Rightarrow> radv_descriptor_set \<Rightarrow>
   (VkResult \<times> radv_descriptor_pool \<times> radv_descriptor_set \<times> u64) option" where
  "pool_take pool dset =
     (let cur = current_offset pool; sz = ucast (set_size dset)
      in if host_memory_base pool = 0 then
           if set_size dset \<noteq> 0 then do {
             h \<leftarrow> bo_heap pool;
             let (off, h) = util_vma_heap_alloc h sz 32;
             let pool = pool\<lparr>bo_heap := Some h\<rparr>;
             Some (if off = 0
                   then (if free_size h < sz then VK_ERROR_OUT_OF_POOL_MEMORY
                         else VK_ERROR_FRAGMENTED_POOL, pool, dset, cur)
                   else let so = ucast (off - RADV_POOL_HEAP_OFFSET)
                        in (VK_SUCCESS, pool, dset\<lparr>set_offset := so\<rparr>, ucast so))
           }
           else Some (VK_SUCCESS, pool, dset, cur)
         else if pool_size pool < cur + sz then Some (VK_ERROR_OUT_OF_POOL_MEMORY, pool, dset, cur)
         else Some (VK_SUCCESS, pool\<lparr>current_offset := cur + sz\<rparr>, dset, cur))"

definition radv_alloc_descriptor_pool_entry ::
  "radv_descriptor_pool \<Rightarrow> radv_descriptor_set \<Rightarrow>
   (VkResult \<times> radv_descriptor_pool \<times> radv_descriptor_set) option" where
  "radv_alloc_descriptor_pool_entry pool dset = do {
     (result, pool, dset, cur) \<leftarrow> pool_take pool dset;
     Some (if result \<noteq> VK_SUCCESS then (result, pool, dset)
           else
             let dset = dset\<lparr>set_bo := pool_bo pool, set_mapped_ptr := mapped_ptr pool + cur,
                           set_va := (case pool_bo pool of
                              Some bo \<Rightarrow> bo_va bo + cur | None \<Rightarrow> 0)\<rparr>
             in (VK_SUCCESS,
                 pool\<lparr>sets := sets pool @ [dset], entry_count := entry_count pool + 1\<rparr>, dset))
   }"

text \<open>Copying the immutable samplers of a layout into the memory of a new set: \<open>n\<close> array
  elements starting with \<open>j\<close>, the first at word offset \<open>off\<close> of the set.\<close>

fun copy_samplers ::
  "pool_abi \<Rightarrow> radv_descriptor_set_layout \<Rightarrow> radv_descriptor_set_binding_layout \<Rightarrow> u64 \<Rightarrow>
   nat \<Rightarrow> nat \<Rightarrow> u32 \<Rightarrow> (u64 \<Rightarrow> u32) \<Rightarrow> (u64 \<Rightarrow> u32) option" where
  "copy_samplers abi l bl ptr 0 j off mem = Some mem"
| "copy_samplers abi l bl ptr (Suc n) j off mem = do {
     w0 \<leftarrow> radv_immutable_samplers (layout_hdr abi) l bl (4 * j);
     w1 \<leftarrow> radv_immutable_samplers (layout_hdr abi) l bl (4 * j + 1);
     w2 \<leftarrow> radv_immutable_samplers (layout_hdr abi) l bl (4 * j + 2);
     w3 \<leftarrow> radv_immutable_samplers (layout_hdr abi) l bl (4 * j + 3);
     let a = ptr + 4 * ucast off;
     copy_samplers abi l bl ptr n (j + 1) (off + bl_size bl div 4)
       (mem(a := w0, a + 4 := w1, a + 8 := w2, a + 12 := w3))
   }"

fun copy_bindings ::
  "pool_abi \<Rightarrow> radv_physical_device \<Rightarrow> radv_descriptor_set_layout \<Rightarrow>
   radv_descriptor_set_binding_layout list \<Rightarrow> u64 \<Rightarrow> (u64 \<Rightarrow> u32) \<Rightarrow> (u64 \<Rightarrow> u32) option" where
  "copy_bindings abi pdev l [] ptr mem = Some mem"
| "copy_bindings abi pdev l (bl # bls) ptr mem =
     (if immutable_samplers_offset bl = 0 then copy_bindings abi pdev l bls ptr mem
      else do {
        let off = bl_offset bl div 4 +
          (if bl_type bl = VK_DESCRIPTOR_TYPE_COMBINED_IMAGE_SAMPLER
           then radv_get_combined_image_sampler_offset pdev div 4 else 0);
        mem \<leftarrow> copy_samplers abi l bl ptr (unat (array_size bl)) 0 off mem;
        copy_bindings abi pdev l bls ptr mem
      })"

text \<open>The byte size of a new set: the layout's, or with a variable count the offset of the last
  binding plus that many elements.\<close>

definition set_layout_bytes :: "radv_descriptor_set_layout \<Rightarrow> u32 \<Rightarrow> u32 option" where
  "set_layout_bytes l variable_count =
     (if variable_count = 0 then Some (layout_size l)
      else do {
        bl \<leftarrow> array_read (bindings l) (length (bindings l) - 1);
        let stride = (if bl_type bl = VK_DESCRIPTOR_TYPE_INLINE_UNIFORM_BLOCK then 1 else bl_size bl);
        Some (bl_offset bl + variable_count * stride)
      })"

definition set_mem_size :: "pool_abi \<Rightarrow> radv_descriptor_set_layout \<Rightarrow> u32" where
  "set_mem_size abi l =
     ucast (ucast (ucast (sizeof_set abi) :: u32) +
       SIZEOF_DESCRIPTOR_RANGE * ucast (layout_dynamic_offset_count l))"

text \<open>\<open>radv_descriptor_set_create\<close>. \<open>lp\<close> is the address of the layout object \<open>l\<close>, \<open>zalloc\<close> the
  address the host allocator returns (0: out of memory). The last component is the new set.\<close>

definition radv_descriptor_set_create ::
  "pool_abi \<Rightarrow> radv_physical_device \<Rightarrow> u64 \<Rightarrow> pool_world \<Rightarrow> radv_descriptor_pool \<Rightarrow> u64 \<Rightarrow>
   radv_descriptor_set_layout \<Rightarrow> u32 \<Rightarrow>
   (VkResult \<times> pool_world \<times> radv_descriptor_pool \<times> radv_descriptor_set option) option" where
  "radv_descriptor_set_create abi pdev zalloc w pool lp l variable_count =
     (if entry_count pool = max_entry_count pool
      then Some (VK_ERROR_OUT_OF_POOL_MEMORY, w, pool, None)
      else
        let mem_size = set_mem_size abi l;
            linear = host_memory_base pool \<noteq> 0
        in if linear \<and> host_memory_end pool - host_memory_ptr pool <s ucast mem_size
           then Some (VK_ERROR_OUT_OF_POOL_MEMORY, w, pool, None)
           else if \<not> linear \<and> zalloc = 0 then Some (VK_ERROR_OUT_OF_HOST_MEMORY, w, pool, None)
           else do {
             let ptr = (if linear then host_memory_ptr pool else zalloc);
             let pool1 = (if linear
               then pool\<lparr>host_memory_ptr := host_memory_ptr pool + ucast mem_size\<rparr> else pool);
             bytes \<leftarrow> set_layout_bytes l variable_count;
             let dset = \<lparr>set_ptr = ptr, set_layout = lp, set_offset = 0, set_size = align32 bytes 32,
               set_bo = None, set_va = 0, set_mapped_ptr = 0,
               dynamic_descriptors = (if layout_dynamic_offset_count l \<noteq> 0
                 then ptr + ucast (ucast (sizeof_set abi) :: u32) else 0)\<rparr>;
             (result, pool2, dset) \<leftarrow> radv_alloc_descriptor_pool_entry pool1 dset;
             (if result \<noteq> VK_SUCCESS
              then Some (result, w, if linear
                then pool2\<lparr>host_memory_ptr := host_memory_ptr pool2 - ucast mem_size\<rparr> else pool2,
                None)
              else do {
                mem \<leftarrow> (if has_immutable_samplers l
                  then copy_bindings abi pdev l (bindings l) (set_mapped_ptr dset) (desc_memory w)
                  else Some (desc_memory w));
                Some (VK_SUCCESS, vk_descriptor_set_layout_ref lp (w\<lparr>desc_memory := mem\<rparr>),
                      pool2, Some dset)
              })
           })"

text \<open>\<open>list_del\<close> of the set with a given address.\<close>

definition unlink_set :: "u64 \<Rightarrow> radv_descriptor_set list \<Rightarrow> radv_descriptor_set list" where
  "unlink_set ptr ss = filter (\<lambda>s. set_ptr s \<noteq> ptr) ss"

definition radv_descriptor_set_destroy ::
  "pool_world \<Rightarrow> radv_descriptor_pool \<Rightarrow> radv_descriptor_set \<Rightarrow>
   (pool_world \<times> radv_descriptor_pool) option" where
  "radv_descriptor_set_destroy w pool dset = do {
     let w = vk_descriptor_set_layout_unref (set_layout dset) w;
     let pool = pool\<lparr>sets := unlink_set (set_ptr dset) (sets pool)\<rparr>;
     pool \<leftarrow> (if set_size dset \<noteq> 0 then do {
         h \<leftarrow> bo_heap pool;
         Some (pool\<lparr>bo_heap := Some (util_vma_heap_free h
           (ucast (set_offset dset) + RADV_POOL_HEAP_OFFSET) (ucast (set_size dset)))\<rparr>)
       } else Some pool);
     Some (w, pool\<lparr>entry_count := entry_count pool - 1\<rparr>)
   }"

text \<open>\<open>radv_FreeDescriptorSets\<close>: a handle is the address of a set of the pool, or 0.\<close>

fun radv_FreeDescriptorSets ::
  "pool_world \<Rightarrow> radv_descriptor_pool \<Rightarrow> u64 list \<Rightarrow> (pool_world \<times> radv_descriptor_pool) option" where
  "radv_FreeDescriptorSets w pool [] = Some (w, pool)"
| "radv_FreeDescriptorSets w pool (handle # handles) =
     (if handle \<noteq> 0 \<and> host_memory_base pool = 0 then do {
        dset \<leftarrow> find (\<lambda>s. set_ptr s = handle) (sets pool);
        (w, pool) \<leftarrow> radv_descriptor_set_destroy w pool dset;
        radv_FreeDescriptorSets w pool handles
      } else radv_FreeDescriptorSets w pool handles)"

text \<open>A request of \<open>radv_AllocateDescriptorSets\<close>: the layout's address and object, the variable
  count chained for this set, if any, and the address the host allocator would return.\<close>

record set_request =
  req_layout_ptr :: u64
  req_layout :: radv_descriptor_set_layout
  req_variable :: "u32 option"
  req_zalloc :: u64

definition request_variable_count :: "set_request \<Rightarrow> u32" where
  "request_variable_count r =
     (case req_variable r of
        Some n \<Rightarrow> if has_variable_descriptors (req_layout r) then n else 0
      | None \<Rightarrow> 0)"

fun allocate_loop ::
  "pool_abi \<Rightarrow> radv_physical_device \<Rightarrow> pool_world \<Rightarrow> radv_descriptor_pool \<Rightarrow> set_request list \<Rightarrow>
   u64 list \<Rightarrow> (VkResult \<times> pool_world \<times> radv_descriptor_pool \<times> u64 list) option" where
  "allocate_loop abi pdev w pool [] done = Some (VK_SUCCESS, w, pool, done)"
| "allocate_loop abi pdev w pool (r # rs) done = do {
     (result, w, pool, dset) \<leftarrow> radv_descriptor_set_create abi pdev (req_zalloc r) w pool
       (req_layout_ptr r) (req_layout r) (request_variable_count r);
     (case dset of
        None \<Rightarrow> Some (result, w, pool, done)
      | Some s \<Rightarrow> allocate_loop abi pdev w pool rs (done @ [set_ptr s]))
   }"

definition radv_AllocateDescriptorSets ::
  "pool_abi \<Rightarrow> radv_physical_device \<Rightarrow> pool_world \<Rightarrow> radv_descriptor_pool \<Rightarrow> set_request list \<Rightarrow>
   (VkResult \<times> pool_world \<times> radv_descriptor_pool \<times> u64 list) option" where
  "radv_AllocateDescriptorSets abi pdev w pool rs = do {
     (result, w, pool, handles) \<leftarrow> allocate_loop abi pdev w pool rs [];
     (if result \<noteq> VK_SUCCESS then do {
        (w, pool) \<leftarrow> radv_FreeDescriptorSets w pool handles;
        Some (result, w, pool, map (\<lambda>_. 0) rs)
      } else Some (result, w, pool, handles))
   }"

section \<open>Creating, resetting and destroying a pool\<close>

record VkDescriptorPoolCreateInfo =
  pci_flags :: u32
  pci_maxSets :: u32
  pci_poolSizes :: "(VkDescriptorType \<times> u32) list"
  pci_inlineBindings :: "u32 list"
  pci_mutable :: "VkDescriptorType list list option"

definition VK_DESCRIPTOR_POOL_CREATE_FREE_DESCRIPTOR_SET_BIT :: u32 where
  "VK_DESCRIPTOR_POOL_CREATE_FREE_DESCRIPTOR_SET_BIT = 1"
definition VK_DESCRIPTOR_POOL_CREATE_HOST_ONLY_BIT_EXT :: u32 where
  "VK_DESCRIPTOR_POOL_CREATE_HOST_ONLY_BIT_EXT = 4"

text \<open>The running totals of the sizing loops. Products of two 32-bit values are computed in 32
  bits and wrap, as in the source.\<close>

record pool_totals =
  bo_size :: u64
  range_count :: u64
  num_16byte_descriptors :: u64

definition inline_step :: "u32 \<Rightarrow> pool_totals \<Rightarrow> pool_totals" where
  "inline_step n t = t\<lparr>bo_size := bo_size t + 28 * ucast n\<rparr>"

definition pool_size_step ::
  "radv_physical_device \<Rightarrow> VkDescriptorType list list option \<Rightarrow> nat \<times> VkDescriptorType \<times> u32 \<Rightarrow>
   pool_totals \<Rightarrow> pool_totals" where
  "pool_size_step pdev mutable_info item t =
     (let (i, ty, n) = item;
          grow = (\<lambda>bytes :: u32. t\<lparr>bo_size := bo_size t + ucast bytes\<rparr>);
          small = (\<lambda>t. t\<lparr>num_16byte_descriptors := num_16byte_descriptors t + ucast n\<rparr>);
          any_mutable = grow (radv_get_sampled_image_desc_size pdev * n)
      in case ty of
           VK_DESCRIPTOR_TYPE_UNIFORM_BUFFER_DYNAMIC \<Rightarrow> t\<lparr>range_count := range_count t + ucast n\<rparr>
         | VK_DESCRIPTOR_TYPE_STORAGE_BUFFER_DYNAMIC \<Rightarrow> t\<lparr>range_count := range_count t + ucast n\<rparr>
         | VK_DESCRIPTOR_TYPE_UNIFORM_BUFFER \<Rightarrow> small (grow (RADV_BUFFER_DESC_SIZE * n))
         | VK_DESCRIPTOR_TYPE_STORAGE_BUFFER \<Rightarrow> small (grow (RADV_BUFFER_DESC_SIZE * n))
         | VK_DESCRIPTOR_TYPE_UNIFORM_TEXEL_BUFFER \<Rightarrow> small (grow (RADV_BUFFER_DESC_SIZE * n))
         | VK_DESCRIPTOR_TYPE_STORAGE_TEXEL_BUFFER \<Rightarrow> small (grow (RADV_BUFFER_DESC_SIZE * n))
         | VK_DESCRIPTOR_TYPE_SAMPLER \<Rightarrow> small (grow (RADV_BUFFER_DESC_SIZE * n))
         | VK_DESCRIPTOR_TYPE_ACCELERATION_STRUCTURE_KHR \<Rightarrow> small (grow (RADV_BUFFER_DESC_SIZE * n))
         | VK_DESCRIPTOR_TYPE_STORAGE_IMAGE \<Rightarrow> grow (RADV_STORAGE_IMAGE_DESC_SIZE * n)
         | VK_DESCRIPTOR_TYPE_SAMPLED_IMAGE \<Rightarrow> any_mutable
         | VK_DESCRIPTOR_TYPE_INPUT_ATTACHMENT \<Rightarrow> any_mutable
         | VK_DESCRIPTOR_TYPE_MUTABLE_EXT \<Rightarrow>
             (case mutable_info of
                Some ls \<Rightarrow>
                  if i < length ls
                  then (case radv_mutable_descriptor_type_size_alignment pdev (ls ! i) of
                          Some (sz, al) \<Rightarrow>
                            let sz = ucast (align32 (ucast sz) 32);
                                t = t\<lparr>bo_size := bo_size t + sz * ucast n\<rparr>
                            in if sz < 32 then small t else t
                        | None \<Rightarrow> t)
                  else any_mutable
              | None \<Rightarrow> any_mutable)
         | VK_DESCRIPTOR_TYPE_COMBINED_IMAGE_SAMPLER \<Rightarrow>
             grow (n * radv_get_combined_image_sampler_desc_size pdev)
         | VK_DESCRIPTOR_TYPE_INLINE_UNIFORM_BLOCK \<Rightarrow> grow n
         | _ \<Rightarrow> t)"

definition pool_totals_of :: "radv_physical_device \<Rightarrow> VkDescriptorPoolCreateInfo \<Rightarrow> pool_totals" where
  "pool_totals_of pdev ci =
     (let t = fold inline_step (pci_inlineBindings ci)
                \<lparr>bo_size = 0, range_count = 0, num_16byte_descriptors = 0\<rparr>;
          t = fold (pool_size_step pdev (pci_mutable ci)) (enumerate 0 (pci_poolSizes ci)) t
      in if num_16byte_descriptors t \<noteq> 0
         then t\<lparr>bo_size := bo_size t + 16 * min (num_16byte_descriptors t) (ucast (pci_maxSets ci))\<rparr>
         else t)"

definition pool_alloc_size :: "pool_abi \<Rightarrow> VkDescriptorPoolCreateInfo \<Rightarrow> pool_totals \<Rightarrow> u64" where
  "pool_alloc_size abi ci t =
     (if pci_flags ci AND VK_DESCRIPTOR_POOL_CREATE_FREE_DESCRIPTOR_SET_BIT = 0
      then sizeof_pool abi + ucast (pci_maxSets ci) * sizeof_set abi +
           SIZEOF_DESCRIPTOR_RANGE * range_count t
      else sizeof_pool abi)"

text \<open>The pool right after \<open>vk_zalloc2\<close> returned \<open>ptr\<close> and the two kinds of pool are set up.\<close>

definition pool_heap_init :: "u64 \<Rightarrow> util_vma_heap" where
  "pool_heap_init n = (util_vma_heap_init RADV_POOL_HEAP_OFFSET n)\<lparr>alloc_high := False\<rparr>"

definition pool_setup ::
  "pool_abi \<Rightarrow> VkDescriptorPoolCreateInfo \<Rightarrow> pool_totals \<Rightarrow> u64 \<Rightarrow> radv_descriptor_pool" where
  "pool_setup abi ci t ptr =
     (let linear = pci_flags ci AND VK_DESCRIPTOR_POOL_CREATE_FREE_DESCRIPTOR_SET_BIT = 0;
          base = ptr + sizeof_pool abi
      in \<lparr>pool_bo = None, host_bo = 0, mapped_ptr = 0, current_offset = 0, pool_size = 0,
          host_memory_base = (if linear then base else 0),
          host_memory_ptr = (if linear then base else 0),
          host_memory_end = (if linear then ptr + pool_alloc_size abi ci t else 0),
          sets = [],
          bo_heap = (if \<not> linear \<and> bo_size t \<noteq> 0 then Some (pool_heap_init (bo_size t)) else None),
          entry_count = 0, max_entry_count = 0\<rparr>)"

text \<open>Destroying the sets of a pool: a heap pool returns each set's range, a linear pool only
  unlinks the sets; both drop the references to the layouts.\<close>

fun destroy_sets ::
  "pool_world \<Rightarrow> radv_descriptor_pool \<Rightarrow> radv_descriptor_set list \<Rightarrow>
   (pool_world \<times> radv_descriptor_pool) option" where
  "destroy_sets w pool [] = Some (w, pool)"
| "destroy_sets w pool (s # ss) = do {
     (w, pool) \<leftarrow> radv_descriptor_set_destroy w pool s;
     destroy_sets w pool ss
   }"

definition radv_destroy_descriptor_pool_entries ::
  "pool_world \<Rightarrow> radv_descriptor_pool \<Rightarrow> (pool_world \<times> radv_descriptor_pool) option" where
  "radv_destroy_descriptor_pool_entries w pool =
     (if host_memory_base pool = 0 then destroy_sets w pool (sets pool)
      else Some (fold (\<lambda>s. vk_descriptor_set_layout_unref (set_layout s)) (sets pool) w,
                 pool\<lparr>sets := []\<rparr>))"

text \<open>The result is the content of the pool when its memory is freed: holes still listed in
  \<open>bo_heap\<close> then are leaked.\<close>

definition radv_destroy_descriptor_pool ::
  "pool_world \<Rightarrow> radv_descriptor_pool \<Rightarrow> (pool_world \<times> radv_descriptor_pool) option" where
  "radv_destroy_descriptor_pool w pool = do {
     (w, pool) \<leftarrow> radv_destroy_descriptor_pool_entries w pool;
     let pool = (if host_memory_base pool = 0 \<and> pool_size pool \<noteq> 0
       then pool\<lparr>bo_heap := map_option util_vma_heap_finish (bo_heap pool)\<rparr> else pool);
     Some (w, pool\<lparr>pool_bo := None, host_bo := 0\<rparr>)
   }"

definition RADEON_DESCRIPTOR_POOL_FLAGS :: u32 where
  "RADEON_DESCRIPTOR_POOL_FLAGS =
     BITFIELD_BIT 6 OR BITFIELD_BIT 7 OR BITFIELD_BIT 8 OR BITFIELD_BIT 17"

definition RADEON_FLAG_PREFER_LOCAL_BO :: u32 where "RADEON_FLAG_PREFER_LOCAL_BO = BITFIELD_BIT 9"
definition RADEON_FLAG_VM_PAD_1PAGE :: u32 where "RADEON_FLAG_VM_PAD_1PAGE = BITFIELD_BIT 14"

text \<open>\<open>radv_bo_create\<close> for the memory of a pool, which is not an internal object: with either of two
  hardware work-arounds the object is padded by a page. \<open>buffer_create\<close> is the call of the winsys.\<close>

record bo_device =
  mitigate_smem_oob :: bool
  has_smem_partial_oob_access_bug :: bool
  buffer_create :: "u64 \<Rightarrow> u32 \<Rightarrow> VkResult + radeon_winsys_bo"

definition pool_bo_create :: "bo_device \<Rightarrow> u64 \<Rightarrow> u32 \<Rightarrow> VkResult + radeon_winsys_bo" where
  "pool_bo_create dev n flags =
     (let flags = (if mitigate_smem_oob dev then flags OR RADEON_FLAG_VM_PAD_1PAGE else flags);
          flags = (if has_smem_partial_oob_access_bug dev then flags OR RADEON_FLAG_VM_PAD_1PAGE else flags)
      in buffer_create dev n flags)"

text \<open>Getting the descriptor memory: from the winsys or, for host-only pools, from the host
  allocator. \<open>Inl\<close> carries the error and the pool as it is when the code jumps to \<open>fail\<close>.\<close>

definition pool_memory ::
  "bo_device \<Rightarrow> (radeon_winsys_bo \<Rightarrow> u64) \<Rightarrow> (u64 \<Rightarrow> u64) \<Rightarrow>
   VkDescriptorPoolCreateInfo \<Rightarrow> u64 \<Rightarrow> radv_descriptor_pool \<Rightarrow>
   (VkResult \<times> radv_descriptor_pool) + radv_descriptor_pool" where
  "pool_memory dev buffer_map zalloc ci n pool =
     (if n = 0 then Inr pool
      else if pci_flags ci AND VK_DESCRIPTOR_POOL_CREATE_HOST_ONLY_BIT_EXT = 0 then
        (case pool_bo_create dev n (if n \<le> 4096
             then RADEON_DESCRIPTOR_POOL_FLAGS OR RADEON_FLAG_PREFER_LOCAL_BO
             else RADEON_DESCRIPTOR_POOL_FLAGS) of
           Inl e \<Rightarrow> Inl (e, pool)
         | Inr bo \<Rightarrow>
             let pool = pool\<lparr>pool_bo := Some bo, mapped_ptr := buffer_map bo\<rparr>
             in if mapped_ptr pool = 0 then Inl (VK_ERROR_OUT_OF_DEVICE_MEMORY, pool) else Inr pool)
      else if zalloc n = 0 then Inl (VK_ERROR_OUT_OF_HOST_MEMORY, pool)
      else Inr (pool\<lparr>host_bo := zalloc n, mapped_ptr := zalloc n\<rparr>))"

definition radv_create_descriptor_pool ::
  "pool_abi \<Rightarrow> radv_physical_device \<Rightarrow> bo_device \<Rightarrow>
   (radeon_winsys_bo \<Rightarrow> u64) \<Rightarrow> (u64 \<Rightarrow> u64) \<Rightarrow> u64 \<Rightarrow> pool_world \<Rightarrow> VkDescriptorPoolCreateInfo \<Rightarrow>
   (pool_world \<times> ((VkResult \<times> radv_descriptor_pool option) + radv_descriptor_pool)) option" where
  "radv_create_descriptor_pool abi pdev dev buffer_map host_zalloc pool_zalloc w ci =
     (let t = pool_totals_of pdev ci
      in if pool_zalloc = 0 then Some (w, Inl (VK_ERROR_OUT_OF_HOST_MEMORY, None))
         else case pool_memory dev buffer_map host_zalloc ci (bo_size t)
                     (pool_setup abi ci t pool_zalloc) of
                Inl (e, pool) \<Rightarrow> do {
                  (w, pool) \<leftarrow> radv_destroy_descriptor_pool w pool;
                  Some (w, Inl (e, Some pool))
                }
              | Inr pool \<Rightarrow>
                  Some (w, Inr (pool\<lparr>pool_size := bo_size t, max_entry_count := pci_maxSets ci\<rparr>)))"

definition radv_ResetDescriptorPool ::
  "pool_world \<Rightarrow> radv_descriptor_pool \<Rightarrow> (pool_world \<times> radv_descriptor_pool) option" where
  "radv_ResetDescriptorPool w pool = do {
     (w, pool) \<leftarrow> radv_destroy_descriptor_pool_entries w pool;
     let pool = (if host_memory_base pool = 0 \<and> pool_size pool \<noteq> 0
       then pool\<lparr>bo_heap := Some (pool_heap_init (pool_size pool))\<rparr> else pool);
     Some (w, pool\<lparr>entry_count := 0, current_offset := 0,
                   host_memory_ptr := host_memory_base pool\<rparr>)
   }"

section \<open>Heap pools keep their books\<close>

text \<open>The client side of the range-allocator contract: the ranges of the sets with memory are the
  ledger of the pool's heap, over the addresses \<open>32 ..< 32 + size\<close>.\<close>

definition set_span :: "radv_descriptor_set \<Rightarrow> span" where
  "set_span s = (ucast (set_offset s) + RADV_POOL_HEAP_OFFSET, ucast (set_size s))"

definition live_spans :: "radv_descriptor_set list \<Rightarrow> span list" where
  "live_spans ss = map set_span (filter (\<lambda>s. set_size s \<noteq> 0) ss)"

definition pool_space :: "radv_descriptor_pool \<Rightarrow> nat set" where
  "pool_space pool = {32..<32 + unat (pool_size pool)}"

definition heap_books :: "radv_descriptor_pool \<Rightarrow> bool" where
  "heap_books pool =
     (case bo_heap pool of
        None \<Rightarrow> pool_size pool = 0 \<and> live_spans (sets pool) = []
      | Some h \<Rightarrow> pool_size pool \<noteq> 0 \<and> \<not> alloc_high h \<and>
                   vma.books (pool_space pool) h (live_spans (sets pool)))"

definition mapped_at :: "radv_descriptor_pool \<Rightarrow> radv_descriptor_set \<Rightarrow> bool" where
  "mapped_at pool s \<longleftrightarrow> set_mapped_ptr s = mapped_ptr pool + ucast (set_offset s)"

definition heap_pool_ok :: "radv_descriptor_pool \<Rightarrow> bool" where
  "heap_pool_ok pool \<longleftrightarrow>
     host_memory_base pool = 0 \<and> unat (pool_size pool) + 32 \<le> 2 ^ 32 \<and>
     unat (entry_count pool) = length (sets pool) \<and>
     length (sets pool) \<le> unat (max_entry_count pool) \<and>
     distinct (map set_ptr (sets pool)) \<and> (\<forall>s\<in>set (sets pool). set_ptr s \<noteq> 0) \<and> heap_books pool \<and>
     current_offset pool = 0 \<and> (\<forall>s\<in>set (sets pool). mapped_at pool s)"

lemma heap_books_entry_count [simp]: "heap_books (pool\<lparr>entry_count := n\<rparr>) = heap_books pool"
  by (simp add: heap_books_def pool_space_def split: option.split)

lemma heap_pool_okD:
  assumes "heap_pool_ok pool"
  shows "host_memory_base pool = 0" "unat (pool_size pool) + 32 \<le> 2 ^ 32"
    "unat (entry_count pool) = length (sets pool)" "length (sets pool) \<le> unat (max_entry_count pool)"
    "distinct (map set_ptr (sets pool))" "\<forall>s\<in>set (sets pool). set_ptr s \<noteq> 0" "heap_books pool"
    "current_offset pool = 0" "\<forall>s\<in>set (sets pool). mapped_at pool s"
  using assms by (simp_all add: heap_pool_ok_def)

lemma live_spans_append [simp]: "live_spans (xs @ ys) = live_spans xs @ live_spans ys"
  by (simp add: live_spans_def)

lemma live_spans_simps [simp]:
  "live_spans [] = []"
  "live_spans (s # ss) = (if set_size s = 0 then live_spans ss else set_span s # live_spans ss)"
  by (simp_all add: live_spans_def)

lemma books_space: "vma.books space h live \<Longrightarrow> vma_free_set h \<subseteq> space"
  by (auto simp: vma.books_def ledger_ok_def)

text \<open>An offset inside the pool survives the round trip through the 32-bit field.\<close>

lemma offset_roundtrip:
  assumes "32 \<le> unat off" "unat off < 2 ^ 32 + 32"
  shows "ucast (ucast (off - RADV_POOL_HEAP_OFFSET) :: u32) + RADV_POOL_HEAP_OFFSET = off"
proof -
  have d: "unat (off - RADV_POOL_HEAP_OFFSET) = unat off - 32"
    using assms(1) unat_sub_no_wrap [of RADV_POOL_HEAP_OFFSET off]
    by (simp add: RADV_POOL_HEAP_OFFSET_def)
  then have "unat (ucast (ucast (off - RADV_POOL_HEAP_OFFSET) :: u32) :: u64) = unat off - 32"
    using assms(2) by (simp add: unat_ucast_u64_u32)
  then have "ucast (ucast (off - RADV_POOL_HEAP_OFFSET) :: u32) = off - RADV_POOL_HEAP_OFFSET"
    using d by (simp add: word_unat_eq_iff)
  then show ?thesis by simp
qed

lemma pool_take_heap:
  assumes ok: "heap_pool_ok pool" and h: "bo_heap pool = Some h" and sz: "set_size s \<noteq> 0"
    and alloc: "util_vma_heap_alloc h (ucast (set_size s)) 32 = (off, h')" and off: "off \<noteq> 0"
  shows "pool_take pool s = Some (VK_SUCCESS, pool\<lparr>bo_heap := Some h'\<rparr>,
      s\<lparr>set_offset := ucast (off - RADV_POOL_HEAP_OFFSET)\<rparr>,
      ucast (ucast (off - RADV_POOL_HEAP_OFFSET) :: u32))"
    and "vma.books (pool_space pool) h'
      (live_spans (sets pool) @ [set_span (s\<lparr>set_offset := ucast (off - RADV_POOL_HEAP_OFFSET)\<rparr>)])"
proof -
  have b: "vma.books (pool_space pool) h (live_spans (sets pool))"
    using heap_pool_okD(7) [OF ok] h by (simp add: heap_books_def)
  have pos: "0 < (ucast (set_size s) :: u64)" using sz by (simp add: word_less_nat_alt unat_gt_0)
  then have "span_addrs (off, ucast (set_size s)) \<subseteq> vma_free_set h"
    using vma.take_hit [OF _ pos _ alloc off] b by (simp add: vma.books_def)
  then have "span_addrs (off, ucast (set_size s)) \<subseteq> pool_space pool" using books_space [OF b] by blast
  moreover have "unat off \<in> span_addrs (off, ucast (set_size s))"
    using pos by (simp add: word_less_nat_alt)
  ultimately have "unat off \<in> pool_space pool" by blast
  then have "32 \<le> unat off" "unat off < 2 ^ 32 + 32"
    using heap_pool_okD(2) [OF ok] by (auto simp: pool_space_def)
  from offset_roundtrip [OF this]
  have sp: "set_span (s\<lparr>set_offset := ucast (off - RADV_POOL_HEAP_OFFSET)\<rparr>) =
      (off, ucast (set_size s))" by (simp add: set_span_def)
  show "pool_take pool s = Some (VK_SUCCESS, pool\<lparr>bo_heap := Some h'\<rparr>,
      s\<lparr>set_offset := ucast (off - RADV_POOL_HEAP_OFFSET)\<rparr>,
      ucast (ucast (off - RADV_POOL_HEAP_OFFSET) :: u32))"
    using heap_pool_okD(1) [OF ok] h sz alloc off by (simp add: pool_take_def Let_def)
  show "vma.books (pool_space pool) h'
      (live_spans (sets pool) @ [set_span (s\<lparr>set_offset := ucast (off - RADV_POOL_HEAP_OFFSET)\<rparr>)])"
    unfolding sp using vma.books_take [OF b pos _ alloc off] by simp
qed

lemma heap_take_cases:
  assumes ok: "heap_pool_ok pool" and take: "pool_take pool s = Some (res, pool', s', cur)"
    and zero: "set_offset s = 0"
  shows "res = VK_SUCCESS \<Longrightarrow> (\<exists>h. pool' = pool\<lparr>bo_heap := h\<rparr>) \<and> (\<exists>so. s' = s\<lparr>set_offset := so\<rparr>) \<and>
      cur = ucast (set_offset s') \<and>
      heap_books (pool'\<lparr>sets := sets pool @ [s'\<lparr>set_bo := b, set_mapped_ptr := m, set_va := v\<rparr>]\<rparr>)"
    and "res \<noteq> VK_SUCCESS \<Longrightarrow> pool' = pool"
proof -
  have "(res = VK_SUCCESS \<longrightarrow> (\<exists>h. pool' = pool\<lparr>bo_heap := h\<rparr>) \<and> (\<exists>so. s' = s\<lparr>set_offset := so\<rparr>) \<and>
      cur = ucast (set_offset s') \<and>
      heap_books (pool'\<lparr>sets := sets pool @ [s'\<lparr>set_bo := b, set_mapped_ptr := m, set_va := v\<rparr>]\<rparr>)) \<and>
    (res \<noteq> VK_SUCCESS \<longrightarrow> pool' = pool)"
  proof (cases "set_size s = 0")
    case True
    then show ?thesis
      using take heap_pool_okD(1,7,8) [OF ok] zero
      by (auto simp: pool_take_def Let_def heap_books_def pool_space_def intro: exI [of _ "bo_heap pool"]
          exI [of _ 0] split: option.splits)
  next
    case False
    then obtain h where h: "bo_heap pool = Some h"
      using take heap_pool_okD(1) [OF ok] by (auto simp: pool_take_def Let_def bind_eq_Some_conv)
    obtain off h' where alloc: "util_vma_heap_alloc h (ucast (set_size s)) 32 = (off, h')" by fastforce
    have b: "vma.books (pool_space pool) h (live_spans (sets pool))" "\<not> alloc_high h"
      "pool_size pool \<noteq> 0"
      using heap_pool_okD(7) [OF ok] h by (simp_all add: heap_books_def)
    have pos: "0 < (ucast (set_size s) :: u64)" using False by (simp add: word_less_nat_alt unat_gt_0)
    show ?thesis
    proof (cases "off = 0")
      case True
      then have "h' = h" using vma.books_miss [OF b(1) pos, of 32 h'] alloc by simp
      then show ?thesis
        using take heap_pool_okD(1) [OF ok] h False alloc True
        by (auto simp: pool_take_def Let_def split: if_splits)
    next
      case off: False
      note hit = pool_take_heap [OF ok h False alloc off]
      have "\<not> alloc_high h'"
        using vma_alloc_hit(6) [OF _ no_boundary pos _ alloc off] b by (auto simp: vma.books_def vma_ready_def)
      then show ?thesis
        using b(3) hit take False by (auto simp: heap_books_def set_span_def pool_space_def)
    qed
  qed
  then show "res = VK_SUCCESS \<Longrightarrow> (\<exists>h. pool' = pool\<lparr>bo_heap := h\<rparr>) \<and> (\<exists>so. s' = s\<lparr>set_offset := so\<rparr>) \<and>
      cur = ucast (set_offset s') \<and>
      heap_books (pool'\<lparr>sets := sets pool @ [s'\<lparr>set_bo := b, set_mapped_ptr := m, set_va := v\<rparr>]\<rparr>)"
    and "res \<noteq> VK_SUCCESS \<Longrightarrow> pool' = pool" by blast+
qed

text \<open>Two states of a pool that differ in its heap, its sets and its entry count only.\<close>

definition same_frame :: "radv_descriptor_pool \<Rightarrow> radv_descriptor_pool \<Rightarrow> bool" where
  "same_frame pool pool' \<longleftrightarrow>
     pool'\<lparr>bo_heap := None, sets := [], entry_count := 0\<rparr> =
     pool\<lparr>bo_heap := None, sets := [], entry_count := 0\<rparr>"

lemma same_frame_refl [simp, intro]: "same_frame pool pool"
  by (simp add: same_frame_def)

lemma same_frame_trans [trans]: "same_frame p q \<Longrightarrow> same_frame q r \<Longrightarrow> same_frame p r"
  by (simp add: same_frame_def)

lemma same_frame_upd [simp, intro]:
  "same_frame pool (pool\<lparr>bo_heap := h, sets := ss, entry_count := n\<rparr>)"
  by (simp add: same_frame_def)

lemma same_frame_fields:
  assumes "same_frame pool pool'"
  shows "pool_size pool' = pool_size pool" "max_entry_count pool' = max_entry_count pool"
    "mapped_ptr pool' = mapped_ptr pool" "host_memory_base pool' = host_memory_base pool"
  using assms by (cases pool; cases pool'; simp add: same_frame_def)+

lemma same_frame_eqI:
  assumes "same_frame pool pool'" "bo_heap pool' = bo_heap pool" "sets pool' = sets pool"
    "entry_count pool' = entry_count pool"
  shows "pool' = pool"
  using assms by (cases pool; cases pool') (simp add: same_frame_def)

lemma heap_entry:
  assumes ok: "heap_pool_ok pool" and full: "entry_count pool \<noteq> max_entry_count pool"
    and entry: "radv_alloc_descriptor_pool_entry pool s = Some (res, pool', s')"
    and s: "set_offset s = 0" "set_ptr s \<noteq> 0" "set_ptr s \<notin> set_ptr ` set (sets pool)"
  shows "res \<noteq> VK_SUCCESS \<Longrightarrow> pool' = pool"
    and "res = VK_SUCCESS \<Longrightarrow> heap_pool_ok pool' \<and> sets pool' = sets pool @ [s'] \<and>
      set_ptr s' = set_ptr s \<and> set_layout s' = set_layout s \<and>
      same_frame pool pool'"
proof -
  obtain res1 pool1 s1 cur where take: "pool_take pool s = Some (res1, pool1, s1, cur)"
    using entry by (auto simp: radv_alloc_descriptor_pool_entry_def bind_eq_Some_conv)
  note cases = heap_take_cases [OF ok take s(1)]
  show "pool' = pool" if "res \<noteq> VK_SUCCESS"
    using that cases(2) entry take
    by (auto simp: radv_alloc_descriptor_pool_entry_def Let_def split: if_splits)
  assume "res = VK_SUCCESS"
  then have "res1 = VK_SUCCESS"
    using entry take by (auto simp: radv_alloc_descriptor_pool_entry_def split: if_splits)
  define va where "va = (case pool_bo pool1 of Some bo \<Rightarrow> bo_va bo + cur | None \<Rightarrow> 0)"
  obtain h so where p1: "pool1 = pool\<lparr>bo_heap := h\<rparr>" and s1: "s1 = s\<lparr>set_offset := so\<rparr>"
    and cur: "cur = ucast so" and books: "heap_books (pool1\<lparr>sets := sets pool @
      [s1\<lparr>set_bo := pool_bo pool1, set_mapped_ptr := mapped_ptr pool1 + cur, set_va := va\<rparr>]\<rparr>)"
    using cases(1) [OF \<open>res1 = VK_SUCCESS\<close>, where b = "pool_bo pool1" and
        m = "mapped_ptr pool1 + cur" and v = va] by auto
  have p': "s' = s1\<lparr>set_bo := pool_bo pool1, set_mapped_ptr := mapped_ptr pool1 + cur, set_va := va\<rparr>"
    "pool' = pool1\<lparr>sets := sets pool @ [s'], entry_count := entry_count pool + 1\<rparr>"
    using entry take \<open>res1 = VK_SUCCESS\<close> p1
    by (auto simp: radv_alloc_descriptor_pool_entry_def Let_def va_def)
  have "heap_books pool'" using books p'(2) unfolding p'(1) [symmetric] by simp
  have "length (sets pool) < unat (max_entry_count pool)"
    using full heap_pool_okD(3,4) [OF ok] by (metis nat_less_le word_unat_eq_iff)
  moreover from this have "unat (entry_count pool + 1) = length (sets pool) + 1"
    using heap_pool_okD(3) [OF ok] unat_add_no_wrap [of "entry_count pool" 1]
      unat_bound [of "max_entry_count pool"] by simp
  ultimately have "heap_pool_ok pool'"
    using heap_pool_okD [OF ok] \<open>heap_books pool'\<close> s(2,3) p' p1 s1 cur
    by (auto simp: heap_pool_ok_def mapped_at_def)
  then show "heap_pool_ok pool' \<and> sets pool' = sets pool @ [s'] \<and>
      set_ptr s' = set_ptr s \<and> set_layout s' = set_layout s \<and>
      same_frame pool pool'"
    using p' p1 s1 by simp
qed

lemma heap_set_create:
  assumes ok: "heap_pool_ok pool"
    and create: "radv_descriptor_set_create abi pdev z w pool lp l vc = Some (res, w', pool', so)"
    and fresh: "z \<notin> set_ptr ` set (sets pool)"
  shows "so = None \<Longrightarrow> res \<noteq> VK_SUCCESS \<and> pool' = pool \<and> w' = w"
    and "so = Some s \<Longrightarrow> res = VK_SUCCESS \<and> heap_pool_ok pool' \<and> sets pool' = sets pool @ [s] \<and>
      set_ptr s = z \<and> z \<noteq> 0 \<and> set_layout s = lp \<and>
      layout_refs w' = (layout_refs w)(lp := layout_refs w lp + 1) \<and>
      same_frame pool pool'"
proof -
  have "(so = None \<longrightarrow> res \<noteq> VK_SUCCESS \<and> pool' = pool \<and> w' = w) \<and>
    (\<forall>s. so = Some s \<longrightarrow> res = VK_SUCCESS \<and> heap_pool_ok pool' \<and> sets pool' = sets pool @ [s] \<and>
      set_ptr s = z \<and> z \<noteq> 0 \<and> set_layout s = lp \<and>
      layout_refs w' = (layout_refs w)(lp := layout_refs w lp + 1) \<and>
      same_frame pool pool')"
  proof (cases "entry_count pool = max_entry_count pool \<or> z = 0")
    case True
    then show ?thesis
      using create heap_pool_okD(1) [OF ok]
      by (auto simp: radv_descriptor_set_create_def Let_def split: if_splits)
  next
    case False
    then obtain bytes where bytes: "set_layout_bytes l vc = Some bytes"
      using create heap_pool_okD(1) [OF ok]
      by (auto simp: radv_descriptor_set_create_def Let_def bind_eq_Some_conv split: if_splits)
    define s0 where "s0 = \<lparr>set_ptr = z, set_layout = lp, set_offset = 0, set_size = align32 bytes 32,
        set_bo = None, set_va = 0, set_mapped_ptr = 0,
        dynamic_descriptors = (if layout_dynamic_offset_count l \<noteq> 0
          then z + ucast (ucast (sizeof_set abi) :: u32) else 0)\<rparr>"
    obtain res1 pool1 s1 where entry: "radv_alloc_descriptor_pool_entry pool s0 = Some (res1, pool1, s1)"
      using create False heap_pool_okD(1) [OF ok] bytes
      by (auto simp: radv_descriptor_set_create_def Let_def bind_eq_Some_conv s0_def split: if_splits)
    have s0: "set_offset s0 = 0" "set_ptr s0 = z" "set_layout s0 = lp" by (simp_all add: s0_def)
    have ne: "entry_count pool \<noteq> max_entry_count pool" using False by blast
    note e = heap_entry [OF ok ne entry s0(1), unfolded s0]
    show ?thesis
    proof (cases "res1 = VK_SUCCESS")
      case True
      then show ?thesis
        using create False heap_pool_okD(1) [OF ok] bytes entry e(2) fresh
        by (auto simp: radv_descriptor_set_create_def Let_def bind_eq_Some_conv s0_def [symmetric]
            vk_descriptor_set_layout_ref_def split: if_splits)
    next
      case err: False
      then show ?thesis
        using create False heap_pool_okD(1) [OF ok] bytes entry e(1) fresh
        by (auto simp: radv_descriptor_set_create_def Let_def s0_def [symmetric])
    qed
  qed
  then show "so = None \<Longrightarrow> res \<noteq> VK_SUCCESS \<and> pool' = pool \<and> w' = w"
    and "so = Some s \<Longrightarrow> res = VK_SUCCESS \<and> heap_pool_ok pool' \<and> sets pool' = sets pool @ [s] \<and>
      set_ptr s = z \<and> z \<noteq> 0 \<and> set_layout s = lp \<and>
      layout_refs w' = (layout_refs w)(lp := layout_refs w lp + 1) \<and>
      same_frame pool pool'"
    by blast+
qed

lemma unlink_split:
  assumes "distinct (map set_ptr (xs @ s # ys))"
  shows "unlink_set (set_ptr s) (xs @ s # ys) = xs @ ys"
proof -
  have "set_ptr s \<notin> set_ptr ` set xs" "set_ptr s \<notin> set_ptr ` set ys" using assms by auto
  then have "filter (\<lambda>t. set_ptr t \<noteq> set_ptr s) xs = xs" "filter (\<lambda>t. set_ptr t \<noteq> set_ptr s) ys = ys"
    by (metis (mono_tags, lifting) filter_True imageI)+
  then show ?thesis by (simp add: unlink_set_def)
qed

lemma heap_set_destroy:
  assumes ok: "heap_pool_ok pool" and s: "s \<in> set (sets pool)"
  obtains w' pool' where "radv_descriptor_set_destroy w pool s = Some (w', pool')" "heap_pool_ok pool'"
    "same_frame pool pool'" "sets pool' = unlink_set (set_ptr s) (sets pool)"
    "layout_refs w' = (layout_refs w)(set_layout s := layout_refs w (set_layout s) - 1)"
proof -
  obtain xs ys where split: "sets pool = xs @ s # ys" using s by (metis split_list)
  then have ul: "unlink_set (set_ptr s) (sets pool) = xs @ ys"
    using unlink_split heap_pool_okD(5) [OF ok] by metis
  define w1 where "w1 = vk_descriptor_set_layout_unref (set_layout s) w"
  define h1 where "h1 = (if set_size s = 0 then bo_heap pool else map_option (\<lambda>h. util_vma_heap_free h
      (ucast (set_offset s) + RADV_POOL_HEAP_OFFSET) (ucast (set_size s))) (bo_heap pool))"
  define p1 where "p1 = pool\<lparr>bo_heap := h1, sets := xs @ ys, entry_count := entry_count pool - 1\<rparr>"
  have some: "set_size s \<noteq> 0 \<longrightarrow> bo_heap pool \<noteq> None"
    using heap_pool_okD(7) [OF ok] split by (cases "bo_heap pool") (auto simp: heap_books_def split: if_splits)
  have eq: "radv_descriptor_set_destroy w pool s = Some (w1, p1)"
    using some ul
    by (auto simp: radv_descriptor_set_destroy_def Let_def w1_def p1_def h1_def)
  have "heap_books p1"
  proof (cases "set_size s = 0")
    case True
    then show ?thesis
      using heap_pool_okD(7) [OF ok] split
      by (auto simp: heap_books_def p1_def h1_def pool_space_def split: option.splits)
  next
    case False
    then obtain h where h: "bo_heap pool = Some h" using some by blast
    have b: "vma.books (pool_space pool) h (live_spans xs @ set_span s # live_spans ys)" "\<not> alloc_high h"
      "pool_size pool \<noteq> 0"
      using heap_pool_okD(7) [OF ok] h split False by (simp_all add: heap_books_def)
    have "0 < (ucast (set_size s) :: u64)" using False by (simp add: word_less_nat_alt unat_gt_0)
    from vma.books_give [OF b(1) [unfolded set_span_def] this] show ?thesis
      using b(2,3) h False by (simp add: heap_books_def p1_def h1_def pool_space_def)
  qed
  moreover have "unat (entry_count pool - 1) = length (xs @ ys)"
    using heap_pool_okD(3) [OF ok] split unat_sub_no_wrap [of 1 "entry_count pool"] by simp
  ultimately have "heap_pool_ok p1"
    using heap_pool_okD [OF ok] split by (auto simp: heap_pool_ok_def p1_def mapped_at_def)
  then show ?thesis
    using that [OF eq] ul by (simp add: p1_def w1_def vk_descriptor_set_layout_unref_def Let_def)
qed

lemma heap_free_sets:
  assumes "heap_pool_ok pool" "radv_FreeDescriptorSets w pool hs = Some (w', pool')"
  shows "heap_pool_ok pool'"
  using assms
proof (induction w pool hs rule: radv_FreeDescriptorSets.induct)
  case (2 w pool handle handles)
  show ?case
  proof (cases "handle = 0")
    case True
    then show ?thesis using 2 by simp
  next
    case False
    then obtain s where s: "find (\<lambda>s. set_ptr s = handle) (sets pool) = Some s"
      using 2 heap_pool_okD(1) [OF 2(3)] by (auto simp: bind_eq_Some_conv)
    then have "s \<in> set (sets pool)" by (auto simp: find_Some_iff)
    then obtain w1 p1 where "radv_descriptor_set_destroy w pool s = Some (w1, p1)" "heap_pool_ok p1"
      by (rule heap_set_destroy [OF 2(3)])
    then show ?thesis
      using 2 False s heap_pool_okD(1) [OF 2(3)] by simp
  qed
qed simp

text \<open>Two states of a heap pool with the same sets are the same state.\<close>

lemma books_free_set:
  "vma.books space h live \<Longrightarrow> vma_free_set h = space - spans_addrs live"
  by (auto simp: vma.books_def ledger_ok_def)

lemma heap_pool_eqI:
  assumes ok: "heap_pool_ok pool" "heap_pool_ok pool'"
    and frame: "same_frame pool pool'" and same: "sets pool' = sets pool"
  shows "pool' = pool"
proof (rule same_frame_eqI [OF frame _ same])
  note size = same_frame_fields(1) [OF frame]
  show "entry_count pool' = entry_count pool"
    using heap_pool_okD(3) [OF ok(1)] heap_pool_okD(3) [OF ok(2)] same by (simp add: word_unat_eq_iff)
  show "bo_heap pool' = bo_heap pool"
  proof (cases "pool_size pool = 0")
    case True
    then show ?thesis
      using heap_pool_okD(7) [OF ok(1)] heap_pool_okD(7) [OF ok(2)] same size
      by (simp add: heap_books_def split: option.splits)
  next
    case False
    then obtain h h' where h: "bo_heap pool = Some h" "bo_heap pool' = Some h'"
      "\<not> alloc_high h" "\<not> alloc_high h'"
      "vma.books (pool_space pool) h (live_spans (sets pool))"
      "vma.books (pool_space pool) h' (live_spans (sets pool))"
      using heap_pool_okD(7) [OF ok(1)] heap_pool_okD(7) [OF ok(2)] same size
      by (auto simp: heap_books_def pool_space_def split: option.splits)
    have "h' = h"
      by (rule vma_heap_eqI)
        (use h books_free_set [OF h(5)] books_free_set [OF h(6)] in
          \<open>auto simp: vma.books_def vma_ready_def\<close>)
    then show ?thesis using h(1,2) by simp
  qed
qed

definition fresh_requests :: "set_request list \<Rightarrow> radv_descriptor_pool \<Rightarrow> bool" where
  "fresh_requests rs pool \<longleftrightarrow>
     distinct (filter (\<lambda>a. a \<noteq> 0) (map req_zalloc rs)) \<and>
     (\<forall>r\<in>set rs. req_zalloc r \<notin> set_ptr ` set (sets pool))"

definition refs_added :: "radv_descriptor_set list \<Rightarrow> u64 \<Rightarrow> u32" where
  "refs_added new p = of_nat (count_list (map set_layout new) p)"

lemma refs_added_simps [simp]:
  "refs_added [] p = 0"
  "refs_added (s # new) p = (if set_layout s = p then 1 else 0) + refs_added new p"
  by (simp_all add: refs_added_def)

lemma heap_allocate_loop:
  assumes "heap_pool_ok pool" "allocate_loop abi pdev w pool rs hs = Some (res, w', pool', hs')"
    and "fresh_requests rs pool"
  shows "heap_pool_ok pool' \<and> same_frame pool pool' \<and>
    (\<exists>new. hs' = hs @ map set_ptr new \<and> sets pool' = sets pool @ new \<and>
      layout_refs w' = (\<lambda>p. layout_refs w p + refs_added new p) \<and>
      (res = VK_SUCCESS \<longrightarrow> length new = length rs))"
  using assms
proof (induction rs arbitrary: w pool hs)
  case (Cons r rs)
  obtain res1 w1 p1 so where c: "radv_descriptor_set_create abi pdev (req_zalloc r) w pool
      (req_layout_ptr r) (req_layout r) (request_variable_count r) = Some (res1, w1, p1, so)"
    using Cons.prems(2) by (auto simp: bind_eq_Some_conv)
  have fresh: "req_zalloc r \<notin> set_ptr ` set (sets pool)"
    using Cons.prems(3) by (simp add: fresh_requests_def)
  note create = heap_set_create [OF Cons.prems(1) c fresh]
  show ?case
  proof (cases so)
    case None
    then show ?thesis using create(1) c Cons.prems by (auto intro!: exI [of _ "[]"])
  next
    case (Some s)
    note s = create(2) [OF Some]
    have "fresh_requests rs p1"
      using Cons.prems(3) s by (auto simp: fresh_requests_def) (metis imageI)
    then obtain new where n: "heap_pool_ok pool'" "same_frame p1 pool'"
      "hs' = (hs @ [set_ptr s]) @ map set_ptr new" "sets pool' = sets p1 @ new"
      "layout_refs w' = (\<lambda>p. layout_refs w1 p + refs_added new p)"
      "res = VK_SUCCESS \<longrightarrow> length new = length rs"
      using Cons.IH [of p1 w1 "hs @ [set_ptr s]"] Cons.prems(2) c Some s by auto
    have "layout_refs w' = (\<lambda>p. layout_refs w p + refs_added (s # new) p)"
      using s n(5) by (auto simp: fun_eq_iff)
    then show ?thesis
      using n s same_frame_trans [of pool p1 pool'] by (intro conjI exI [of _ "s # new"]) auto
  qed
qed (auto intro!: exI [of _ "[]"])

lemma find_distinct_key:
  "distinct (map f (xs @ s # ys)) \<Longrightarrow> find (\<lambda>t. f t = f s) (xs @ s # ys) = Some s"
  by (induction xs) auto

lemma heap_free_new:
  assumes "heap_pool_ok pool" "sets pool = old @ new"
  shows "\<exists>w' pool'. radv_FreeDescriptorSets w pool (map set_ptr new) = Some (w', pool') \<and>
    heap_pool_ok pool' \<and> same_frame pool pool' \<and> sets pool' = old \<and>
    layout_refs w' = (\<lambda>p. layout_refs w p - refs_added new p)"
  using assms
proof (induction new arbitrary: w pool)
  case Nil
  then show ?case by simp
next
  case (Cons s new)
  have s: "s \<in> set (sets pool)" "set_ptr s \<noteq> 0" using Cons.prems heap_pool_okD(6) by auto
  have d: "distinct (map set_ptr (old @ s # new))" using Cons.prems heap_pool_okD(5) by metis
  then have find: "find (\<lambda>t. set_ptr t = set_ptr s) (sets pool) = Some s"
    unfolding Cons.prems(2) by (rule find_distinct_key)
  obtain w1 p1 where p1: "radv_descriptor_set_destroy w pool s = Some (w1, p1)" "heap_pool_ok p1"
    "same_frame pool p1" "sets p1 = unlink_set (set_ptr s) (sets pool)"
    "layout_refs w1 = (layout_refs w)(set_layout s := layout_refs w (set_layout s) - 1)"
    by (rule heap_set_destroy [OF Cons.prems(1) s(1)])
  have "sets p1 = old @ new" using p1(4) by (simp add: Cons.prems(2) unlink_split [OF d])
  then obtain w' pool' where q: "radv_FreeDescriptorSets w1 p1 (map set_ptr new) = Some (w', pool')"
    "heap_pool_ok pool'" "same_frame p1 pool'" "sets pool' = old"
    "layout_refs w' = (\<lambda>p. layout_refs w1 p - refs_added new p)"
    using Cons.IH [of p1 w1] p1(2) by blast
  then show ?case
    using s(2) heap_pool_okD(1) [OF Cons.prems(1)] find p1 same_frame_trans [OF p1(3) q(3)]
    by (intro exI [of _ w'] exI [of _ pool'] conjI) (simp_all add: fun_eq_iff)
qed

text \<open>An allocation that fails part way frees the sets it made, in a heap pool back to the state
  before the call.\<close>

lemma refs_added_cancel: "(\<lambda>p. layout_refs w p + refs_added new p - refs_added new p) = layout_refs w"
  by simp

lemma heap_allocate_sets:
  assumes ok: "heap_pool_ok pool" and fresh: "fresh_requests rs pool"
    and alloc: "radv_AllocateDescriptorSets abi pdev w pool rs = Some (res, w', pool', hs)"
  shows "heap_pool_ok pool'"
    and "res \<noteq> VK_SUCCESS \<Longrightarrow> pool' = pool \<and> layout_refs w' = layout_refs w"
proof -
  obtain w1 p1 hs1 where loop: "allocate_loop abi pdev w pool rs [] = Some (res, w1, p1, hs1)"
    using alloc by (auto simp: radv_AllocateDescriptorSets_def bind_eq_Some_conv split: if_splits)
  obtain new where new: "heap_pool_ok p1" "same_frame pool p1" "hs1 = map set_ptr new"
    "sets p1 = sets pool @ new" "layout_refs w1 = (\<lambda>p. layout_refs w p + refs_added new p)"
    using heap_allocate_loop [OF ok loop fresh] by auto
  obtain w2 p2 where free: "radv_FreeDescriptorSets w1 p1 (map set_ptr new) = Some (w2, p2)"
    "heap_pool_ok p2" "same_frame p1 p2" "sets p2 = sets pool"
    "layout_refs w2 = (\<lambda>p. layout_refs w1 p - refs_added new p)"
    using heap_free_new [OF new(1,4)] by blast
  have "p2 = pool" by (rule heap_pool_eqI [OF ok free(2) same_frame_trans [OF new(2) free(3)] free(4)])
  then show "heap_pool_ok pool'" "res \<noteq> VK_SUCCESS \<Longrightarrow> pool' = pool \<and> layout_refs w' = layout_refs w"
    using alloc loop new(1,3,5) free ok
    by (auto simp: radv_AllocateDescriptorSets_def split: if_splits)
qed

lemma pool_heap_init_books:
  assumes "n \<noteq> 0" "unat n + 32 \<le> 2 ^ 32"
  shows "vma.books {32..<32 + unat n} (pool_heap_init n) []" "\<not> alloc_high (pool_heap_init n)"
proof -
  define h0 where "h0 = \<lparr>holes = [], free_size = 0, alloc_high = False, nospan_shift = 0\<rparr>"
  have pos: "0 < n" "(0 :: u64) < 32" using assms(1) word_neq_0_conv by auto
  have h0: "vma_ready h0" "vma_free_set h0 = {}"
    by (simp_all add: h0_def vma_ready_def util_vma_heap_validate_def vma_free_set_def free_addrs_def)
  have give: "vma_ready (util_vma_heap_free h0 32 n)"
    "vma_free_set (util_vma_heap_free h0 32 n) = span_addrs (32, n)"
    using vma.give [OF h0(1) pos(2,1)] h0(2) assms(2) by auto
  have init: "pool_heap_init n =
      (util_vma_heap_free h0 32 n)\<lparr>alloc_high := False, nospan_shift := 0\<rparr>"
    using pos(1) by (simp add: pool_heap_init_def util_vma_heap_init_def h0_def RADV_POOL_HEAP_OFFSET_def)
  have "vma_ready (pool_heap_init n)" "vma_free_set (pool_heap_init n) = {32..<32 + unat n}"
    using give unfolding init by (simp_all add: vma_ready_def vma_free_set_def util_vma_heap_validate_def)
  then show "vma.books {32..<32 + unat n} (pool_heap_init n) []"
    using assms(2) by (auto simp: vma.books_def ledger_ok_def)
  show "\<not> alloc_high (pool_heap_init n)" by (simp add: pool_heap_init_def)
qed

lemma heap_pool_empty:
  assumes "host_memory_base pool = 0" "unat (pool_size pool) + 32 \<le> 2 ^ 32"
    and "entry_count pool = 0" "current_offset pool = 0" "sets pool = []"
    and "bo_heap pool = (if pool_size pool = 0 then None else Some (pool_heap_init (pool_size pool)))"
  shows "heap_pool_ok pool"
  using assms pool_heap_init_books [of "pool_size pool"]
  by (simp add: heap_pool_ok_def heap_books_def pool_space_def)

lemma heap_destroy_sets:
  assumes "heap_pool_ok pool" "sets pool = ss"
  shows "\<exists>w' pool'. destroy_sets w pool ss = Some (w', pool') \<and> heap_pool_ok pool' \<and>
    same_frame pool pool' \<and> sets pool' = []"
  using assms
proof (induction ss arbitrary: w pool)
  case (Cons s ss)
  then have "s \<in> set (sets pool)" by simp
  then obtain w1 p1 where p1: "radv_descriptor_set_destroy w pool s = Some (w1, p1)" "heap_pool_ok p1"
    "same_frame pool p1" "sets p1 = unlink_set (set_ptr s) (sets pool)"
    by (rule heap_set_destroy [OF Cons.prems(1)])
  have "sets p1 = ss"
    using p1(4) unlink_split [of "[]" s ss] heap_pool_okD(5) [OF Cons.prems(1)] Cons.prems(2) by simp
  then obtain w' pool' where q: "destroy_sets w1 p1 ss = Some (w', pool')" "heap_pool_ok pool'"
    "same_frame p1 pool'" "sets pool' = []"
    using Cons.IH [OF p1(2)] by blast
  then show ?case using p1(1) same_frame_trans [OF p1(3) q(3)] by simp
qed simp

lemma heap_reset:
  assumes ok: "heap_pool_ok pool" and reset: "radv_ResetDescriptorPool w pool = Some (w', pool')"
  shows "heap_pool_ok pool'"
proof -
  obtain w1 p1 where p1: "destroy_sets w pool (sets pool) = Some (w1, p1)" "heap_pool_ok p1" "sets p1 = []"
    using heap_destroy_sets [OF ok refl] by blast
  have base: "host_memory_base pool = 0" "host_memory_base p1 = 0"
    using heap_pool_okD(1) ok p1(2) by blast+
  have none: "pool_size p1 = 0 \<Longrightarrow> bo_heap p1 = None"
    using heap_pool_okD(7) [OF p1(2)] by (simp add: heap_books_def split: option.splits)
  define p2 where "p2 = (if pool_size p1 \<noteq> 0
    then p1\<lparr>bo_heap := Some (pool_heap_init (pool_size p1))\<rparr> else p1)
      \<lparr>entry_count := 0, current_offset := 0, host_memory_ptr := 0\<rparr>"
  have "pool' = p2"
    using reset p1(1) base
    by (auto simp: radv_ResetDescriptorPool_def radv_destroy_descriptor_pool_entries_def p2_def Let_def)
  moreover have "heap_pool_ok p2"
    using base none p1(3) heap_pool_okD(2) [OF p1(2)] by (intro heap_pool_empty) (auto simp: p2_def)
  ultimately show ?thesis by simp
qed

section \<open>Linear pools\<close>

text \<open>In a linear pool the sets lie one after the other from the start of the mapping; the bump
  pointer is the end of the last one.\<close>

definition bytes_before :: "radv_descriptor_set list \<Rightarrow> nat" where
  "bytes_before ss = (\<Sum>s\<leftarrow>ss. unat (set_size s))"

definition linear_pool_ok :: "radv_descriptor_pool \<Rightarrow> bool" where
  "linear_pool_ok pool \<longleftrightarrow>
     host_memory_base pool \<noteq> 0 \<and> unat (pool_size pool) + 32 \<le> 2 ^ 32 \<and>
     unat (entry_count pool) = length (sets pool) \<and>
     length (sets pool) \<le> unat (max_entry_count pool) \<and>
     unat (current_offset pool) = bytes_before (sets pool) \<and>
     bytes_before (sets pool) \<le> unat (pool_size pool) \<and>
     (\<forall>i<length (sets pool). unat (set_mapped_ptr (sets pool ! i) - mapped_ptr pool) =
        bytes_before (take i (sets pool)))"

lemma bytes_before_simps [simp]:
  "bytes_before [] = 0" "bytes_before (s # ss) = unat (set_size s) + bytes_before ss"
  "bytes_before (xs @ ys) = bytes_before xs + bytes_before ys"
  by (simp_all add: bytes_before_def)

lemma linear_pool_okD:
  assumes "linear_pool_ok pool"
  shows "host_memory_base pool \<noteq> 0" "unat (pool_size pool) + 32 \<le> 2 ^ 32"
    "unat (entry_count pool) = length (sets pool)" "length (sets pool) \<le> unat (max_entry_count pool)"
    "unat (current_offset pool) = bytes_before (sets pool)"
    "bytes_before (sets pool) \<le> unat (pool_size pool)"
    "\<forall>i<length (sets pool). unat (set_mapped_ptr (sets pool ! i) - mapped_ptr pool) =
        bytes_before (take i (sets pool))"
  using assms by (simp_all add: linear_pool_ok_def)

lemma linear_pool_ok_ptr [simp]: "linear_pool_ok (pool\<lparr>host_memory_ptr := p\<rparr>) = linear_pool_ok pool"
  by (simp add: linear_pool_ok_def)

lemma linear_entry:
  assumes ok: "linear_pool_ok pool" and full: "entry_count pool \<noteq> max_entry_count pool"
    and entry: "radv_alloc_descriptor_pool_entry pool s = Some (res, pool', s')"
  shows "linear_pool_ok pool'"
proof (cases "pool_size pool < current_offset pool + ucast (set_size s)")
  case True
  then have "pool' = pool"
    using entry linear_pool_okD(1) [OF ok]
    by (simp add: radv_alloc_descriptor_pool_entry_def pool_take_def Let_def)
  then show ?thesis using ok by simp
next
  case False
  let ?cur = "current_offset pool" and ?sz = "ucast (set_size s) :: u64"
  have "unat ?cur + unat ?sz < 2 ^ 64"
    using linear_pool_okD(2,5,6) [OF ok] unat_bound [of "set_size s"] by simp
  then have sum: "unat (?cur + ?sz) = bytes_before (sets pool) + unat (set_size s)"
    using unat_add_no_wrap [of ?cur ?sz] linear_pool_okD(5) [OF ok] by simp
  obtain va where s': "s' = s\<lparr>set_bo := pool_bo pool, set_mapped_ptr := mapped_ptr pool + ?cur, set_va := va\<rparr>"
    and p': "pool' = pool\<lparr>current_offset := ?cur + ?sz, sets := sets pool @ [s'],
      entry_count := entry_count pool + 1\<rparr>"
    using entry False linear_pool_okD(1) [OF ok]
    by (auto simp: radv_alloc_descriptor_pool_entry_def pool_take_def Let_def)
  have "length (sets pool) < unat (max_entry_count pool)"
    using full linear_pool_okD(3,4) [OF ok] by (metis nat_less_le word_unat_eq_iff)
  moreover from this have "unat (entry_count pool + 1) = length (sets pool) + 1"
    using linear_pool_okD(3) [OF ok] unat_add_no_wrap [of "entry_count pool" 1]
      unat_bound [of "max_entry_count pool"] by simp
  moreover have "bytes_before (sets pool @ [s']) \<le> unat (pool_size pool)"
    using False sum s' by (simp add: word_less_nat_alt)
  ultimately show ?thesis
    using linear_pool_okD [OF ok] sum p' s'
    by (auto simp: linear_pool_ok_def nth_append less_Suc_eq)
qed

lemma linear_set_create:
  assumes ok: "linear_pool_ok pool"
    and create: "radv_descriptor_set_create abi pdev z w pool lp l vc = Some (res, w', pool', so)"
  shows "linear_pool_ok pool'"
proof (cases "entry_count pool = max_entry_count pool \<or>
    host_memory_end pool - host_memory_ptr pool <s ucast (set_mem_size abi l)")
  case True
  then have "pool' = pool"
    using create linear_pool_okD(1) [OF ok]
    by (auto simp: radv_descriptor_set_create_def Let_def split: if_splits)
  then show ?thesis using ok by simp
next
  case False
  define pool1 where "pool1 = pool\<lparr>host_memory_ptr := host_memory_ptr pool + ucast (set_mem_size abi l)\<rparr>"
  obtain dset res1 pool2 s1 where entry: "radv_alloc_descriptor_pool_entry pool1 dset = Some (res1, pool2, s1)"
    and p': "linear_pool_ok pool' = linear_pool_ok pool2"
    using create False linear_pool_okD(1) [OF ok]
    by (auto simp: radv_descriptor_set_create_def Let_def bind_eq_Some_conv pool1_def [symmetric]
        split: if_splits)
  have "linear_pool_ok pool1" "entry_count pool1 \<noteq> max_entry_count pool1"
    using ok False by (simp_all add: pool1_def)
  from linear_entry [OF this entry] show ?thesis using p' by simp
qed

lemma linear_allocate_loop:
  assumes "linear_pool_ok pool" "allocate_loop abi pdev w pool rs hs = Some (res, w', pool', hs')"
  shows "linear_pool_ok pool'"
  using assms
  by (induction rs arbitrary: w pool hs)
    (auto simp: bind_eq_Some_conv split: option.splits dest: linear_set_create, metis linear_set_create)

lemma linear_free_sets:
  "host_memory_base pool \<noteq> 0 \<Longrightarrow> radv_FreeDescriptorSets w pool hs = Some (w, pool)"
  by (induction hs) auto

lemma linear_allocate_sets:
  assumes "linear_pool_ok pool" "radv_AllocateDescriptorSets abi pdev w pool rs = Some (res, w', pool', hs)"
  shows "linear_pool_ok pool'"
  using assms linear_allocate_loop [OF assms(1)] linear_free_sets [OF linear_pool_okD(1)]
  by (auto simp: radv_AllocateDescriptorSets_def bind_eq_Some_conv split: if_splits)

lemma linear_pool_empty:
  assumes "host_memory_base pool \<noteq> 0" "unat (pool_size pool) + 32 \<le> 2 ^ 32"
    and "entry_count pool = 0" "current_offset pool = 0" "sets pool = []"
  shows "linear_pool_ok pool"
  using assms by (simp add: linear_pool_ok_def)

lemma linear_reset:
  assumes "linear_pool_ok pool" "radv_ResetDescriptorPool w pool = Some (w', pool')"
  shows "linear_pool_ok pool'"
  using assms(2) linear_pool_okD(1,2) [OF assms(1)]
  by (intro linear_pool_empty)
    (auto simp: radv_ResetDescriptorPool_def radv_destroy_descriptor_pool_entries_def Let_def)

section \<open>Every pool the operations can produce\<close>

text \<open>A pool and the world around it after any sequence of creation, allocations, frees and
  resets. The host allocator hands out addresses that are not in use (\<open>fresh_requests\<close>), the
  addresses of a pool do not wrap to 0, and the buffer is at most 4 GiB - 32 bytes, since the
  winsys places it in the 32-bit address range.\<close>

definition pool_params_ok :: "pool_abi \<Rightarrow> u64 \<Rightarrow> bool" where
  "pool_params_ok abi ptr \<longleftrightarrow> ptr + sizeof_pool abi \<noteq> 0"

inductive pool_reachable :: "pool_abi \<Rightarrow> radv_physical_device \<Rightarrow> pool_world \<Rightarrow> radv_descriptor_pool \<Rightarrow> bool"
  for abi pdev where
  created: "radv_create_descriptor_pool abi pdev dev buffer_map host_zalloc ptr w ci = Some (w', Inr pool)
    \<Longrightarrow> pool_params_ok abi ptr \<Longrightarrow> unat (bo_size (pool_totals_of pdev ci)) + 32 \<le> 2 ^ 32
    \<Longrightarrow> pool_reachable abi pdev w' pool"
| allocated: "pool_reachable abi pdev w pool \<Longrightarrow> fresh_requests rs pool
    \<Longrightarrow> radv_AllocateDescriptorSets abi pdev w pool rs = Some (res, w', pool', hs)
    \<Longrightarrow> pool_reachable abi pdev w' pool'"
| freed: "pool_reachable abi pdev w pool \<Longrightarrow> radv_FreeDescriptorSets w pool hs = Some (w', pool')
    \<Longrightarrow> pool_reachable abi pdev w' pool'"
| reset: "pool_reachable abi pdev w pool \<Longrightarrow> radv_ResetDescriptorPool w pool = Some (w', pool')
    \<Longrightarrow> pool_reachable abi pdev w' pool'"

lemma pool_memory_Inr:
  assumes "pool_memory dev buffer_map zalloc ci n pool = Inr pool'"
  shows "host_memory_base pool' = host_memory_base pool" "sets pool' = sets pool"
    "entry_count pool' = entry_count pool" "current_offset pool' = current_offset pool"
    "bo_heap pool' = bo_heap pool"
  using assms by (auto simp: pool_memory_def Let_def split: if_splits sum.splits)

lemma create_pool_ok:
  assumes create: "radv_create_descriptor_pool abi pdev dev buffer_map host_zalloc ptr w ci =
      Some (w', Inr pool)"
    and params: "pool_params_ok abi ptr" "unat (bo_size (pool_totals_of pdev ci)) + 32 \<le> 2 ^ 32"
  shows "heap_pool_ok pool \<or> linear_pool_ok pool"
proof -
  let ?t = "pool_totals_of pdev ci"
  obtain p1 where mem: "pool_memory dev buffer_map host_zalloc ci (bo_size ?t)
      (pool_setup abi ci ?t ptr) = Inr p1"
    and pool: "pool = p1\<lparr>pool_size := bo_size ?t, max_entry_count := pci_maxSets ci\<rparr>"
    using create
    by (auto simp: radv_create_descriptor_pool_def Let_def bind_eq_Some_conv split: if_splits sum.splits)
  note p1 = pool_memory_Inr [OF mem]
  show ?thesis
  proof (cases "pci_flags ci AND VK_DESCRIPTOR_POOL_CREATE_FREE_DESCRIPTOR_SET_BIT = 0")
    case True
    then have "linear_pool_ok pool"
      using p1 params unfolding pool
      by (intro linear_pool_empty) (auto simp: pool_setup_def pool_params_ok_def Let_def)
    then show ?thesis ..
  next
    case False
    then have "heap_pool_ok pool"
      using p1 params unfolding pool by (intro heap_pool_empty) (auto simp: pool_setup_def Let_def)
    then show ?thesis ..
  qed
qed

lemma reachable_pool_ok: "pool_reachable abi pdev w pool \<Longrightarrow> heap_pool_ok pool \<or> linear_pool_ok pool"
proof (induction rule: pool_reachable.induct)
  case (created dev buffer_map host_zalloc ptr w ci w' pool)
  then show ?case by (rule create_pool_ok)
next
  case (allocated w pool rs res w' pool' hs)
  then show ?case using heap_allocate_sets(1) linear_allocate_sets by blast
next
  case (freed w pool hs w' pool')
  then show ?case using heap_free_sets linear_free_sets [OF linear_pool_okD(1)] by auto
next
  case (reset w pool w' pool')
  then show ?case using heap_reset linear_reset by blast
qed

text \<open>The bytes of a set, relative to the start of the pool's mapping.\<close>

definition set_bytes :: "radv_descriptor_pool \<Rightarrow> radv_descriptor_set \<Rightarrow> nat set" where
  "set_bytes pool s =
     (let off = unat (set_mapped_ptr s - mapped_ptr pool) in {off..<off + unat (set_size s)})"

lemma bytes_before_take_mono: "i \<le> j \<Longrightarrow> bytes_before (take i ss) \<le> bytes_before (take j ss)"
  by (metis bytes_before_simps(3) le_add1 le_add_diff_inverse take_add)

lemma linear_bytes:
  assumes ok: "linear_pool_ok pool" and i: "i < length (sets pool)"
  shows "set_bytes pool (sets pool ! i) =
    {bytes_before (take i (sets pool))..<bytes_before (take (Suc i) (sets pool))}"
  using linear_pool_okD(7) [OF ok] i by (simp add: set_bytes_def Let_def take_Suc_conv_app_nth)

lemma heap_bytes:
  assumes ok: "heap_pool_ok pool" and s: "s \<in> set (sets pool)" and nz: "set_size s \<noteq> 0"
  shows "(+) 32 ` set_bytes pool s = span_addrs (set_span s)"
proof -
  have "set_mapped_ptr s - mapped_ptr pool = ucast (set_offset s)"
    using heap_pool_okD(9) [OF ok] s by (simp add: mapped_at_def)
  moreover have "unat (ucast (set_offset s) + (32 :: u64)) = 32 + unat (set_offset s)"
    using unat_add_no_wrap [of "ucast (set_offset s) :: u64" 32] unat_bound [of "set_offset s"] by simp
  ultimately show ?thesis
    by (simp add: set_bytes_def Let_def set_span_def RADV_POOL_HEAP_OFFSET_def ac_simps)
qed

definition pool_sets_apart :: "radv_descriptor_pool \<Rightarrow> bool" where
  "pool_sets_apart pool \<longleftrightarrow>
     sorted_wrt (\<lambda>s t. set_bytes pool s \<inter> set_bytes pool t = {}) (sets pool) \<and>
     (\<forall>s\<in>set (sets pool). set_bytes pool s \<subseteq> {0..<unat (pool_size pool)})"

lemma linear_sets_apart:
  assumes ok: "linear_pool_ok pool"
  shows "pool_sets_apart pool"
proof -
  have "set_bytes pool (sets pool ! i) \<inter> set_bytes pool (sets pool ! j) = {}"
    if "i < j" "j < length (sets pool)" for i j
    using that bytes_before_take_mono [of "Suc i" j "sets pool"] by (auto simp: linear_bytes [OF ok])
  moreover have "set_bytes pool (sets pool ! i) \<subseteq> {0..<unat (pool_size pool)}"
    if "i < length (sets pool)" for i
    using that bytes_before_take_mono [of "Suc i" "length (sets pool)" "sets pool"]
      linear_pool_okD(6) [OF ok] by (auto simp: linear_bytes [OF ok])
  ultimately show ?thesis
    by (auto simp: pool_sets_apart_def sorted_wrt_iff_nth_less in_set_conv_nth subset_iff)
qed

lemma set_bytes_empty [simp]: "set_size s = 0 \<Longrightarrow> set_bytes pool s = {}"
  by (simp add: set_bytes_def)

lemma heap_sets_apart:
  assumes ok: "heap_pool_ok pool"
  shows "pool_sets_apart pool"
proof -
  have led: "spans_disjoint (live_spans (sets pool))" "spans_addrs (live_spans (sets pool)) \<subseteq> pool_space pool"
    using heap_pool_okD(7) [OF ok]
    by (auto simp: heap_books_def vma.books_def ledger_ok_def split: option.splits)
  have inj: "A \<inter> B = {}" if "(+) (32 :: nat) ` A \<inter> (+) 32 ` B = {}" for A B using that by blast
  have bytes: "set_bytes pool s \<inter> set_bytes pool t = {}"
    if "s \<in> set (sets pool)" "t \<in> set (sets pool)"
      "set_size s \<noteq> 0 \<and> set_size t \<noteq> 0 \<longrightarrow> span_addrs (set_span s) \<inter> span_addrs (set_span t) = {}" for s t
  proof (cases "set_size s = 0 \<or> set_size t = 0")
    case False
    then show ?thesis
      using that(3) by - (rule inj, simp add: heap_bytes [OF ok that(1)] heap_bytes [OF ok that(2)])
  qed auto
  have live: "sorted_wrt (\<lambda>s t. set_size s \<noteq> 0 \<and> set_size t \<noteq> 0 \<longrightarrow>
      span_addrs (set_span s) \<inter> span_addrs (set_span t) = {}) ss"
    if "spans_disjoint (live_spans ss)" for ss
    using that by (induction ss) (auto simp: spans_disjoint_def live_spans_def split: if_splits)
  have "sorted_wrt (\<lambda>s t. set_bytes pool s \<inter> set_bytes pool t = {}) (sets pool)"
    by (rule sorted_wrt_mono_rel [OF _ live [OF led(1)]]) (rule bytes)
  moreover have "set_bytes pool s \<subseteq> {0..<unat (pool_size pool)}" if s: "s \<in> set (sets pool)" for s
  proof (cases "set_size s = 0")
    case False
    then have "span_addrs (set_span s) \<subseteq> pool_space pool"
      using s led(2) by (auto simp: live_spans_def spans_addrs_def)
    then show ?thesis
      unfolding heap_bytes [OF ok s False, symmetric] by (auto simp: pool_space_def)
  qed simp
  ultimately show ?thesis by (simp add: pool_sets_apart_def)
qed

text \<open>The bytes of the pool that no set holds, and the result a heap pool promises for a request.\<close>

definition pool_free_bytes :: "radv_descriptor_pool \<Rightarrow> nat set" where
  "pool_free_bytes pool = {0..<unat (pool_size pool)} - (\<Union>s\<in>set (sets pool). set_bytes pool s)"

definition heap_verdict :: "radv_descriptor_pool \<Rightarrow> nat \<Rightarrow> VkResult" where
  "heap_verdict pool sz =
     (if \<exists>a. 32 dvd a \<and> {a..<a + sz} \<subseteq> pool_free_bytes pool then VK_SUCCESS
      else if card (pool_free_bytes pool) < sz then VK_ERROR_OUT_OF_POOL_MEMORY
      else VK_ERROR_FRAGMENTED_POOL)"

lemma heap_free_bytes:
  assumes ok: "heap_pool_ok pool" and h: "bo_heap pool = Some h"
  shows "vma_free_set h = (+) 32 ` pool_free_bytes pool"
proof -
  have "spans_addrs (live_spans (sets pool)) = (\<Union>s\<in>set (sets pool). (+) 32 ` set_bytes pool s)"
    using heap_bytes [OF ok] by (force simp: live_spans_def spans_addrs_def simp del: span_addrs.simps)
  moreover have "vma_free_set h = pool_space pool - spans_addrs (live_spans (sets pool))"
    using heap_pool_okD(7) [OF ok] h by (intro books_free_set) (simp add: heap_books_def)
  moreover have "pool_space pool = (+) 32 ` {0..<unat (pool_size pool)}"
    by (simp add: pool_space_def add.commute)
  ultimately show ?thesis
    by (simp add: pool_free_bytes_def image_set_diff image_UN)
qed

lemma shifted_fit:
  "(\<exists>a. 32 dvd a \<and> {a..<a + sz} \<subseteq> (+) (32 :: nat) ` A) \<longleftrightarrow> (\<exists>a. 32 dvd a \<and> {a..<a + sz} \<subseteq> A)"
  if "0 < sz"
proof
  assume "\<exists>a. 32 dvd a \<and> {a..<a + sz} \<subseteq> (+) 32 ` A"
  then obtain a where a: "32 dvd a" "{a..<a + sz} \<subseteq> (+) 32 ` A" by blast
  then have "a \<in> (+) 32 ` A" using that by auto
  then obtain b where b: "a = 32 + b" by blast
  have "{b..<b + sz} \<subseteq> A"
  proof
    fix x assume "x \<in> {b..<b + sz}"
    then have "32 + x \<in> (+) 32 ` A" using a(2) b by (intro subsetD [OF a(2)]) simp
    then show "x \<in> A" by auto
  qed
  moreover have "32 dvd b" using a(1) b by (simp add: dvd_add_right_iff)
  ultimately show "\<exists>a. 32 dvd a \<and> {a..<a + sz} \<subseteq> A" by blast
next
  assume "\<exists>a. 32 dvd a \<and> {a..<a + sz} \<subseteq> A"
  then obtain a where a: "32 dvd a" "{a..<a + sz} \<subseteq> A" by blast
  then have "{32 + a..<32 + a + sz} \<subseteq> (+) 32 ` A"
    using image_mono [OF a(2), of "(+) 32"] by (simp add: ac_simps)
  then show "\<exists>a. 32 dvd a \<and> {a..<a + sz} \<subseteq> (+) 32 ` A"
    using a(1) by (intro exI [of _ "32 + a"]) simp
qed

lemma heap_entry_verdict:
  assumes ok: "heap_pool_ok pool" and pos: "pool_size pool \<noteq> 0" "set_size s \<noteq> 0"
  shows "\<exists>pool' s'. radv_alloc_descriptor_pool_entry pool s =
    Some (heap_verdict pool (unat (set_size s)), pool', s')"
proof -
  let ?sz = "ucast (set_size s) :: u64"
  obtain h where h: "bo_heap pool = Some h" "vma.books (pool_space pool) h (live_spans (sets pool))"
    using heap_pool_okD(7) [OF ok] pos(1) by (auto simp: heap_books_def split: option.splits)
  then have ready: "vma_ready h" "util_vma_heap_validate h" by (auto simp: vma.books_def vma_ready_def)
  have sz: "0 < ?sz" "unat ?sz = unat (set_size s)" "0 < unat (set_size s)"
    using pos(2) by (simp_all add: word_less_nat_alt unat_gt_0)
  obtain off h' where alloc: "util_vma_heap_alloc h ?sz 32 = (off, h')" by fastforce
  have base: "host_memory_base pool = 0" by (rule heap_pool_okD(1) [OF ok])
  note free = heap_free_bytes [OF ok h(1)]
  have card: "unat (free_size h) = card (pool_free_bytes pool)"
    using card_vma_free_set [OF ready(2)] unfolding free by (simp add: card_image)
  have fit: "off \<noteq> 0 \<longleftrightarrow> (\<exists>a. 32 dvd a \<and> {a..<a + unat (set_size s)} \<subseteq> pool_free_bytes pool)"
  proof (cases "off = 0")
    case True
    then have "\<not> (\<exists>a. unat (32 :: u64) dvd a \<and> {a..<a + unat ?sz} \<subseteq> vma_free_set h)"
      using vma.take_miss [OF ready(1) sz(1) _ alloc [unfolded True]] by simp
    then show ?thesis using True shifted_fit [OF sz(3)] by (simp add: free sz(2))
  next
    case False
    have "span_addrs (off, ?sz) \<subseteq> vma_free_set h" "unat (32 :: u64) dvd unat off"
      using vma.take_hit [OF ready(1) sz(1) _ alloc False] by simp_all
    then have "\<exists>a. 32 dvd a \<and> {a..<a + unat (set_size s)} \<subseteq> (+) 32 ` pool_free_bytes pool"
      by (auto simp: free sz(2))
    then show ?thesis using False shifted_fit [OF sz(3)] by blast
  qed
  show ?thesis
  proof (cases "off = 0")
    case True
    then have "h' = h" using vma.books_miss [OF h(2) sz(1) _ alloc [unfolded True]] by simp
    then show ?thesis
      using True fit alloc h(1) base pos(2) card sz(2)
      by (simp add: radv_alloc_descriptor_pool_entry_def pool_take_def heap_verdict_def Let_def
          word_less_nat_alt)
  next
    case False
    then show ?thesis
      using fit alloc h(1) base pos(2)
      by (simp add: radv_alloc_descriptor_pool_entry_def pool_take_def heap_verdict_def Let_def)
  qed
qed

section \<open>Properties\<close>

definition example_abi :: pool_abi where
  "example_abi = \<lparr>sizeof_pool = 160, sizeof_set = 112, layout_hdr = 64\<rparr>"

definition example_world :: pool_world where
  "example_world = \<lparr>layout_refs = (\<lambda>_. 1), destroyed_layouts = [], desc_memory = (\<lambda>_. 0)\<rparr>"

text \<open>A layout of \<open>n\<close> bytes, and a pool for two uniform buffers and one storage image in three
  sets; \<open>fl\<close> are the creation flags.\<close>

definition example_set_layout :: "u32 \<Rightarrow> radv_descriptor_set_layout" where
  "example_set_layout n = \<lparr>ref_cnt = 1, layout_hash = [], layout_flags = 0, layout_size = n,
     dynamic_shader_stages = 0, layout_dynamic_offset_count = 0, has_immutable_samplers = False,
     has_variable_descriptors = False, ycbcr_sampler_offsets_offset = 0, bindings = [],
     sampler_words = [], ycbcr_offsets = [], ycbcr_states = []\<rparr>"

definition example_pool_info :: "u32 \<Rightarrow> VkDescriptorPoolCreateInfo" where
  "example_pool_info fl = \<lparr>pci_flags = fl, pci_maxSets = 3,
     pci_poolSizes = [(VK_DESCRIPTOR_TYPE_UNIFORM_BUFFER, 2), (VK_DESCRIPTOR_TYPE_STORAGE_IMAGE, 1)],
     pci_inlineBindings = [], pci_mutable = None\<rparr>"

definition example_request :: "u32 \<Rightarrow> u64 \<Rightarrow> set_request" where
  "example_request n a = \<lparr>req_layout_ptr = 4096, req_layout = example_set_layout n,
     req_variable = None, req_zalloc = a\<rparr>"

definition example_pool :: "util_vma_heap option \<Rightarrow> radv_descriptor_set list \<Rightarrow> radv_descriptor_pool" where
  "example_pool h ss = \<lparr>pool_bo = Some \<lparr>bo_va = 65536\<rparr>, host_bo = 0, mapped_ptr = 131072,
     current_offset = 0, pool_size = 96, host_memory_base = 0, host_memory_ptr = 0,
     host_memory_end = 0, sets = ss, bo_heap = h, entry_count = of_nat (length ss),
     max_entry_count = 3\<rparr>"

definition example_set :: "u64 \<Rightarrow> u32 \<Rightarrow> u32 \<Rightarrow> radv_descriptor_set" where
  "example_set a off n = \<lparr>set_ptr = a, set_layout = 4096, set_offset = off, set_size = n,
     set_bo = Some \<lparr>bo_va = 65536\<rparr>, set_va = 65536 + ucast off, set_mapped_ptr = 131072 + ucast off,
     dynamic_descriptors = 0\<rparr>"

definition example_bo_device :: "VkResult + radeon_winsys_bo \<Rightarrow> bo_device" where
  "example_bo_device r = \<lparr>mitigate_smem_oob = True, has_smem_partial_oob_access_bug = False,
     buffer_create = (\<lambda>_ _. r)\<rparr>"

definition create_example_pool ::
  "bo_device \<Rightarrow> u32 \<Rightarrow>
   (pool_world \<times> ((VkResult \<times> radv_descriptor_pool option) + radv_descriptor_pool)) option" where
  "create_example_pool dev fl = radv_create_descriptor_pool example_abi example_device
     dev (\<lambda>_. 131072) (\<lambda>_. 0) 1024 example_world (example_pool_info fl)"

lemma example_totals: "pool_totals_of example_device (example_pool_info fl) =
    \<lparr>bo_size = 96, range_count = 0, num_16byte_descriptors = 2\<rparr>"
  by (simp add: pool_totals_of_def example_pool_info_def pool_size_step_def Let_def
      RADV_BUFFER_DESC_SIZE_def RADV_STORAGE_IMAGE_DESC_SIZE_def)

lemma example_pool_info_fields:
  "pci_flags (example_pool_info fl) = fl" "pci_maxSets (example_pool_info fl) = 3"
  by (simp_all add: example_pool_info_def)

lemmas example_create_eval = create_example_pool_def radv_create_descriptor_pool_def example_totals
  pool_setup_def pool_memory_def pool_bo_create_def example_bo_device_def example_pool_info_fields Let_def example_pool_def
  VK_DESCRIPTOR_POOL_CREATE_FREE_DESCRIPTOR_SET_BIT_def VK_DESCRIPTOR_POOL_CREATE_HOST_ONLY_BIT_EXT_def

lemma example_create: "create_example_pool (example_bo_device (Inr \<lparr>bo_va = 65536\<rparr>)) 1 =
    Some (example_world, Inr (example_pool (Some (pool_heap_init 96)) []))"
  by (simp add: example_create_eval)

lemma example_reachable:
  "pool_reachable example_abi example_device example_world (example_pool (Some (pool_heap_init 96)) [])"
  by (rule pool_reachable.created [OF example_create [unfolded create_example_pool_def]])
    (simp_all add: example_totals pool_params_ok_def example_abi_def)

lemmas example_alloc_eval = radv_AllocateDescriptorSets_def radv_descriptor_set_create_def
  radv_alloc_descriptor_pool_entry_def pool_take_def set_layout_bytes_def request_variable_count_def
  example_request_def example_set_layout_def example_set_def RADV_POOL_HEAP_OFFSET_def align32_def
  ALIGN_POT_def Let_def util_vma_heap_alloc_def vma_fit_low_def util_vma_hole_alloc_def
  vma_hole_split_def pool_heap_init_def util_vma_heap_init_def util_vma_heap_free_def vma_free_holes_def

lemma example_allocate:
  "radv_AllocateDescriptorSets example_abi example_device example_world
     (example_pool (Some (pool_heap_init 96)) []) [example_request 32 8192, example_request 64 12288] =
   Some (VK_SUCCESS, vk_descriptor_set_layout_ref 4096 (vk_descriptor_set_layout_ref 4096 example_world),
     example_pool (Some \<lparr>holes = [], free_size = 0, alloc_high = False, nospan_shift = 0\<rparr>)
       [example_set 8192 0 32, example_set 12288 32 64], [8192, 12288])"
  by (simp add: example_alloc_eval example_pool_def)

text \<open>C1. In every pool that creation, allocations, frees and resets can produce, heap or linear,
  the memory of the sets is pairwise disjoint and inside the pool's buffer, and the entry count
  is the number of live sets and within the maximum the pool was created with.\<close>

theorem pool_sets_disjoint:
  assumes "pool_reachable abi pdev w pool"
  shows "pool_sets_apart pool \<and> unat (entry_count pool) = length (sets pool) \<and>
    length (sets pool) \<le> unat (max_entry_count pool)"
  using reachable_pool_ok [OF assms]
proof
  assume "heap_pool_ok pool"
  then show ?thesis using heap_sets_apart heap_pool_okD(3,4) by blast
next
  assume "linear_pool_ok pool"
  then show ?thesis using linear_sets_apart linear_pool_okD(3,4) by blast
qed

theorem pool_sets_disjoint_witness:
  "pool_sets_apart (example_pool (Some \<lparr>holes = [], free_size = 0, alloc_high = False, nospan_shift = 0\<rparr>)
     [example_set 8192 0 32, example_set 12288 32 64])"
proof -
  have "fresh_requests [example_request 32 8192, example_request 64 12288]
      (example_pool (Some (pool_heap_init 96)) [])"
    by (simp add: fresh_requests_def example_request_def example_pool_def)
  from pool_reachable.allocated [OF example_reachable this example_allocate]
  show ?thesis using pool_sets_disjoint by blast
qed

text \<open>C20. When \<open>radv_AllocateDescriptorSets\<close> fails on a heap pool, for whatever reason and after
  however many of the requested sets, the pool is exactly the pool before the call (the heap's
  holes, the list of sets, the entry count) and so are the reference counts of all layouts.\<close>

theorem pool_allocate_failure_restores:
  assumes "pool_reachable abi pdev w pool" "host_memory_base pool = 0" "fresh_requests rs pool"
    and "radv_AllocateDescriptorSets abi pdev w pool rs = Some (res, w', pool', hs)"
    and "res \<noteq> VK_SUCCESS"
  shows "pool' = pool \<and> layout_refs w' = layout_refs w"
proof -
  have "heap_pool_ok pool" using reachable_pool_ok [OF assms(1)] assms(2) linear_pool_okD(1) by blast
  from heap_allocate_sets(2) [OF this assms(3,4,5)] show ?thesis .
qed

lemma example_allocate_fails:
  "\<exists>w'. radv_AllocateDescriptorSets example_abi example_device example_world
     (example_pool (Some (pool_heap_init 96)) []) [example_request 64 8192, example_request 64 12288] =
   Some (VK_ERROR_OUT_OF_POOL_MEMORY, w', example_pool (Some (pool_heap_init 96)) [], [0, 0])"
  by (simp add: example_alloc_eval example_pool_def radv_descriptor_set_destroy_def unlink_set_def)

theorem pool_allocate_failure_restores_witness:
  "\<exists>w' pool'. radv_AllocateDescriptorSets example_abi example_device example_world
     (example_pool (Some (pool_heap_init 96)) []) [example_request 64 8192, example_request 64 12288] =
       Some (VK_ERROR_OUT_OF_POOL_MEMORY, w', pool', [0, 0]) \<and>
     pool' = example_pool (Some (pool_heap_init 96)) [] \<and> layout_refs w' = layout_refs example_world"
proof -
  obtain w' where eq: "radv_AllocateDescriptorSets example_abi example_device example_world
     (example_pool (Some (pool_heap_init 96)) []) [example_request 64 8192, example_request 64 12288] =
     Some (VK_ERROR_OUT_OF_POOL_MEMORY, w', example_pool (Some (pool_heap_init 96)) [], [0, 0])"
    using example_allocate_fails by blast
  have "fresh_requests [example_request 64 8192, example_request 64 12288]
      (example_pool (Some (pool_heap_init 96)) [])" "host_memory_base (example_pool (Some (pool_heap_init 96)) []) = 0"
    by (simp_all add: fresh_requests_def example_request_def example_pool_def)
  from pool_allocate_failure_restores [OF example_reachable this(2,1) eq] show ?thesis using eq by simp
qed

text \<open>C21. The result of a request to a heap pool with memory says exactly what the state of the
  pool is: success if and only if some 32-byte aligned run of free bytes is long enough,
  out-of-pool-memory if there is none and the free bytes together are too few, and
  fragmented-pool if there is none although they would be enough.\<close>

theorem pool_entry_result_exact:
  assumes "pool_reachable abi pdev w pool" "host_memory_base pool = 0"
    and "pool_size pool \<noteq> 0" "set_size s \<noteq> 0"
  shows "\<exists>pool' s'. radv_alloc_descriptor_pool_entry pool s =
    Some (heap_verdict pool (unat (set_size s)), pool', s')"
proof -
  have "heap_pool_ok pool" using reachable_pool_ok [OF assms(1)] assms(2) linear_pool_okD(1) by blast
  from heap_entry_verdict [OF this assms(3,4)] show ?thesis .
qed

lemma example_free_bytes: "pool_free_bytes (example_pool h []) = {0..<96}"
  by (simp add: pool_free_bytes_def example_pool_def)

theorem pool_entry_result_exact_witness:
  "(\<exists>pool' s'. radv_alloc_descriptor_pool_entry (example_pool (Some (pool_heap_init 96)) [])
      (example_set 8192 0 128) = Some (VK_ERROR_OUT_OF_POOL_MEMORY, pool', s'))"
proof -
  have "\<not> {a..<a + 128} \<subseteq> {0..<96 :: nat}" for a
  proof
    assume "{a..<a + 128} \<subseteq> {0..<96 :: nat}"
    from card_mono [OF _ this] show False by simp
  qed
  then have "heap_verdict (example_pool (Some (pool_heap_init 96)) []) 128 = VK_ERROR_OUT_OF_POOL_MEMORY"
    by (simp add: heap_verdict_def example_free_bytes)
  then show ?thesis
    using pool_entry_result_exact [OF example_reachable, of "example_set 8192 0 128"]
    by (simp add: example_pool_def example_set_def)
qed

section \<open>Deviations\<close>

text \<open>A linear pool keeps the sets of a failed \<open>radv_AllocateDescriptorSets\<close>: freeing is a no-op
  there, so the pool has one set more than handles were returned, until it is reset.\<close>

lemma linear_failure_keeps_sets:
  "\<exists>pool w' pool'. create_example_pool (example_bo_device (Inr \<lparr>bo_va = 65536\<rparr>)) 0 = Some (example_world, Inr pool) \<and>
     sets pool = [] \<and>
     radv_AllocateDescriptorSets example_abi example_device example_world pool
       [example_request 64 0, example_request 64 0] =
     Some (VK_ERROR_OUT_OF_POOL_MEMORY, w', pool', [0, 0]) \<and> length (sets pool') = 1 \<and>
     unat (entry_count pool') = 1 \<and> layout_refs w' 4096 = layout_refs example_world 4096 + 1"
  by (simp add: example_create_eval example_alloc_eval example_abi_def pool_alloc_size_def
      set_mem_size_def vk_descriptor_set_layout_ref_def SIZEOF_DESCRIPTOR_RANGE_def)

text \<open>When the buffer of a heap pool cannot be created, the pool is destroyed before its size is
  set, so the heap's holes are still linked when the pool's memory is freed.\<close>

lemma create_failure_leaks_holes:
  "\<exists>pool h. create_example_pool (example_bo_device (Inl VK_ERROR_OUT_OF_DEVICE_MEMORY)) 1 =
     Some (example_world, Inl (VK_ERROR_OUT_OF_DEVICE_MEMORY, Some pool)) \<and>
     bo_heap pool = Some h \<and> holes h \<noteq> []"
  by (simp add: example_create_eval radv_destroy_descriptor_pool_def
      radv_destroy_descriptor_pool_entries_def pool_heap_init_def util_vma_heap_init_def
      util_vma_heap_free_def vma_free_holes_def)

text \<open>In a heap pool without descriptor memory a set that needs some works on a heap that was never
  initialised, where the code is undefined, instead of failing with out-of-pool-memory.\<close>

lemma empty_heap_undefined:
  assumes "heap_pool_ok pool" "pool_size pool = 0" "set_size s \<noteq> 0"
  shows "radv_alloc_descriptor_pool_entry pool s = None"
  using heap_pool_okD(1,7) [OF assms(1)] assms(2,3)
  by (simp add: radv_alloc_descriptor_pool_entry_def pool_take_def heap_books_def split: option.splits)

end
