(* ===== verification/Id_Alloc.thy ===== *)
theory Id_Alloc
  imports Radv_Prelude "HOL-Library.Monad_Syntax"
begin

text \<open>
  The id allocator of \<open>src/src/util/u_idalloc.c\<close>: a growing bitmap with a hint where the first
  free bit may be, its thread-safe variant and the variant that splits the 32-bit range into
  segments.

  The pair of the array \<open>data\<close> and its length \<open>num_elements\<close> is a list. Ids and indices are
  32-bit and wrap as in C. The result of a \<open>realloc\<close> is assumed not to be null, as the code does.
  Abstractly an allocator is a set of natural numbers: \<open>idalloc_used\<close> reads the bitmap as that
  set, and the theorems state each operation on it. The laws a client relies on are the locale
  \<open>id_source\<close>.
\<close>

section \<open>The allocator\<close>

record util_idalloc =
  idata :: "u32 list"
  num_set_elements :: u32
  lowest_free_idx :: u32

definition num_elements :: "util_idalloc \<Rightarrow> u32" where
  "num_elements buf = of_nat (length (idata buf))"

definition DIV_ROUND_UP :: "u32 \<Rightarrow> u32 \<Rightarrow> u32" where
  "DIV_ROUND_UP a b = (a + b - 1) div b"

text \<open>\<open>ffs\<close> of the C library: one plus the index of the least significant bit that is set.\<close>

definition ffs :: "u32 \<Rightarrow> nat" where
  "ffs x = (case find (bit x) [0..<32] of Some b \<Rightarrow> b + 1 | None \<Rightarrow> 0)"

definition util_idalloc_exists :: "util_idalloc \<Rightarrow> u32 \<Rightarrow> bool option" where
  "util_idalloc_exists buf uid =
     (if uid div 32 < num_set_elements buf then do {
        x \<leftarrow> array_read (idata buf) (unat (uid div 32));
        Some (x AND BITFIELD_BIT (unat (uid mod 32)) \<noteq> 0)
      } else Some False)"

definition util_idalloc_resize :: "util_idalloc \<Rightarrow> u32 \<Rightarrow> util_idalloc" where
  "util_idalloc_resize buf new_num_elements =
     (if new_num_elements > num_elements buf
      then buf\<lparr>idata := idata buf @ replicate (unat new_num_elements - length (idata buf)) 0\<rparr>
      else buf)"

definition util_idalloc_init :: "u32 \<Rightarrow> util_idalloc" where
  "util_idalloc_init initial_num_ids =
     util_idalloc_resize \<lparr>idata = [], num_set_elements = 0, lowest_free_idx = 0\<rparr>
       (DIV_ROUND_UP initial_num_ids 32)"

definition util_idalloc_alloc :: "util_idalloc \<Rightarrow> (u32 \<times> util_idalloc) option" where
  "util_idalloc_alloc buf =
     (case find (\<lambda>i. idata buf ! i \<noteq> 0xffffffff) [unat (lowest_free_idx buf)..<length (idata buf)] of
        Some i \<Rightarrow>
          let bt = ffs (NOT (idata buf ! i)) - 1
          in Some (of_nat i * 32 + of_nat bt,
               buf\<lparr>idata := (idata buf)[i := idata buf ! i OR push_bit bt 1],
                   lowest_free_idx := of_nat i,
                   num_set_elements := max (num_set_elements buf) (of_nat i + 1)\<rparr>)
      | None \<Rightarrow> do {
          let n = num_elements buf;
          let buf = util_idalloc_resize buf (max n 1 * 2);
          x \<leftarrow> array_read (idata buf) (unat n);
          d \<leftarrow> array_set (idata buf) (unat n) (x OR 1);
          Some (n * 32, buf\<lparr>lowest_free_idx := n, idata := d,
            num_set_elements := max (num_set_elements buf) (n + 1)\<rparr>)
        })"

definition find_free_block :: "util_idalloc \<Rightarrow> u32 \<Rightarrow> u32" where
  "find_free_block buf start =
     (case find (\<lambda>i. idata buf ! i = 0) [unat start..<length (idata buf)] of
        Some i \<Rightarrow> of_nat i
      | None \<Rightarrow> num_elements buf)"

text \<open>The search loop of \<open>util_idalloc_alloc_range\<close>: the inner loop counts the free elements from
  \<open>base\<close>, at most \<open>num_alloc\<close> of them. The result is whether a run was found, and the last base.\<close>

definition free_run :: "u32 list \<Rightarrow> nat \<Rightarrow> nat \<Rightarrow> nat" where
  "free_run d num_alloc base = length (takeWhile (\<lambda>x. x = 0) (take num_alloc (drop base d)))"

function range_search :: "u32 list \<Rightarrow> nat \<Rightarrow> nat \<Rightarrow> (bool \<times> nat) option" where
  "range_search d num_alloc base =
     (let i = base + free_run d num_alloc base
      in if i - base = num_alloc then Some (True, base)
         else if i = length d then Some (False, base)
         else if i < length d then range_search d num_alloc (if d ! i = 0 then i else i + 1)
         else None)"
  by pat_completeness auto

definition mark_range :: "u32 list \<Rightarrow> u32 \<Rightarrow> u32 \<Rightarrow> u32 \<Rightarrow> u32 list option" where
  "mark_range d base num num_alloc = do {
     let stop = base + num_alloc - (if num mod 32 \<noteq> 0 then 1 else 0);
     d \<leftarrow> array_write d (unat base) (replicate (unat stop - unat base) 0xffffffff);
     (if num mod 32 \<noteq> 0 then do {
        x \<leftarrow> array_read d (unat (base + num_alloc - 1));
        array_set d (unat (base + num_alloc - 1)) (x OR BITFIELD_MASK (unat (num mod 32)))
      } else Some d)
   }"

definition util_idalloc_alloc_range :: "util_idalloc \<Rightarrow> u32 \<Rightarrow> (u32 \<times> util_idalloc) option" where
  "util_idalloc_alloc_range buf num =
     (if num = 1 then util_idalloc_alloc buf
      else do {
        let num_alloc = DIV_ROUND_UP num 32;
        let n = num_elements buf;
        (found, b) \<leftarrow> range_search (idata buf) (unat num_alloc)
          (unat (find_free_block buf (lowest_free_idx buf)));
        let base = of_nat b;
        let buf = (if found then buf else util_idalloc_resize buf (n * 2 + num_alloc));
        d \<leftarrow> mark_range (idata buf) base num num_alloc;
        Some (base * 32, buf\<lparr>idata := d,
          lowest_free_idx := (if lowest_free_idx buf = base then base + num div 32
            else lowest_free_idx buf),
          num_set_elements := max (num_set_elements buf) (base + num_alloc)\<rparr>)
      })"

fun shrink_set :: "u32 list \<Rightarrow> nat \<Rightarrow> nat" where
  "shrink_set d 0 = 0"
| "shrink_set d (Suc n) = (if d ! n = 0 then shrink_set d n else Suc n)"

definition util_idalloc_free :: "util_idalloc \<Rightarrow> u32 \<Rightarrow> util_idalloc" where
  "util_idalloc_free buf uid =
     (let idx = uid div 32
      in if num_elements buf \<le> idx then buf
         else
           let d = (idata buf)[unat idx := idata buf ! unat idx AND NOT (push_bit (unat (uid mod 32)) 1)]
           in buf\<lparr>lowest_free_idx := min idx (lowest_free_idx buf), idata := d,
                num_set_elements := (if num_set_elements buf = idx + 1
                  then of_nat (shrink_set d (unat (num_set_elements buf)))
                  else num_set_elements buf)\<rparr>)"

definition util_idalloc_reserve :: "util_idalloc \<Rightarrow> u32 \<Rightarrow> util_idalloc option" where
  "util_idalloc_reserve buf uid = do {
     let idx = uid div 32;
     let buf = (if num_elements buf \<le> idx then util_idalloc_resize buf ((idx + 1) * 2) else buf);
     x \<leftarrow> array_read (idata buf) (unat idx);
     d \<leftarrow> array_set (idata buf) (unat idx) (x OR push_bit (unat (uid mod 32)) 1);
     Some (buf\<lparr>idata := d, num_set_elements := max (num_set_elements buf) (idx + 1)\<rparr>)
   }"

text \<open>\<open>util_idalloc_foreach\<close>: the ids the macro visits, in its order.\<close>

definition util_idalloc_foreach :: "util_idalloc \<Rightarrow> nat list" where
  "util_idalloc_foreach buf =
     concat (map (\<lambda>i. map (\<lambda>b. 32 * i + b) (filter (bit (idata buf ! i)) [0..<32]))
       [0..<unat (num_set_elements buf)])"

section \<open>The thread-safe allocator\<close>

text \<open>Every operation runs under the mutex, so an execution is a sequence of operations.\<close>

record util_idalloc_mt =
  mt_buf :: util_idalloc
  skip_zero :: bool

definition util_idalloc_mt_init :: "u32 \<Rightarrow> bool \<Rightarrow> util_idalloc_mt option" where
  "util_idalloc_mt_init initial_num_ids skip = do {
     let buf = util_idalloc_init initial_num_ids;
     buf \<leftarrow> (if skip then map_option snd (util_idalloc_alloc buf) else Some buf);
     Some \<lparr>mt_buf = buf, skip_zero = skip\<rparr>
   }"

definition util_idalloc_mt_init_tc :: "util_idalloc_mt option" where
  "util_idalloc_mt_init_tc = util_idalloc_mt_init (push_bit 16 1) True"

definition util_idalloc_mt_alloc :: "util_idalloc_mt \<Rightarrow> (u32 \<times> util_idalloc_mt) option" where
  "util_idalloc_mt_alloc mt = do {
     (uid, buf) \<leftarrow> util_idalloc_alloc (mt_buf mt);
     Some (uid, mt\<lparr>mt_buf := buf\<rparr>)
   }"

definition util_idalloc_mt_free :: "util_idalloc_mt \<Rightarrow> u32 \<Rightarrow> util_idalloc_mt" where
  "util_idalloc_mt_free mt uid =
     (if uid = 0 \<and> skip_zero mt then mt
      else mt\<lparr>mt_buf := util_idalloc_free (mt_buf mt) uid\<rparr>)"

section \<open>The segmented allocator\<close>

type_synonym util_idalloc_sparse = "util_idalloc list"

definition NUM_SEGMENTS :: nat where "NUM_SEGMENTS = 1024"

definition MAX_IDS_PER_SEGMENT :: u32 where
  "MAX_IDS_PER_SEGMENT = ucast (BITFIELD64_BIT 32 div of_nat NUM_SEGMENTS)"

definition MAX_ELEMS_PER_SEGMENT :: u32 where
  "MAX_ELEMS_PER_SEGMENT = MAX_IDS_PER_SEGMENT div 32"

definition util_idalloc_sparse_init :: util_idalloc_sparse where
  "util_idalloc_sparse_init = replicate NUM_SEGMENTS (util_idalloc_init 1)"

definition util_idalloc_sparse_alloc ::
  "util_idalloc_sparse \<Rightarrow> (u32 \<times> util_idalloc_sparse) option" where
  "util_idalloc_sparse_alloc segs =
     (case find (\<lambda>i. lowest_free_idx (segs ! i) < MAX_ELEMS_PER_SEGMENT) [0..<length segs] of
        Some i \<Rightarrow> do {
          (uid, s) \<leftarrow> util_idalloc_alloc (segs ! i);
          Some (MAX_IDS_PER_SEGMENT * of_nat i + uid, segs[i := s])
        }
      | None \<Rightarrow> Some (0, segs))"

text \<open>The loop over the segments of \<open>util_idalloc_sparse_alloc_range\<close>, from segment \<open>i\<close>: a range
  that reaches beyond the segment is given back and the next segment is tried.\<close>

function sparse_range_loop ::
  "util_idalloc_sparse \<Rightarrow> u32 \<Rightarrow> nat \<Rightarrow> (u32 \<times> util_idalloc_sparse) option" where
  "sparse_range_loop segs num i =
     (if i < length segs then
        if lowest_free_idx (segs ! i) + DIV_ROUND_UP num 32 \<le> MAX_ELEMS_PER_SEGMENT then
          (case util_idalloc_alloc_range (segs ! i) num of
             None \<Rightarrow> None
           | Some (base, s) \<Rightarrow>
               if base + num \<le> MAX_IDS_PER_SEGMENT
               then Some (MAX_IDS_PER_SEGMENT * of_nat i + base, segs[i := s])
               else sparse_range_loop
                 (segs[i := fold (\<lambda>j s. util_idalloc_free s (base + of_nat j)) [0..<unat num] s])
                 num (i + 1))
        else sparse_range_loop segs num (i + 1)
      else Some (0, segs))"
  by pat_completeness auto
termination
  by (relation "measure (\<lambda>(segs, num, i). length segs - i)") auto

definition util_idalloc_sparse_alloc_range ::
  "util_idalloc_sparse \<Rightarrow> u32 \<Rightarrow> (u32 \<times> util_idalloc_sparse) option" where
  "util_idalloc_sparse_alloc_range segs num = sparse_range_loop segs num 0"

definition util_idalloc_sparse_free :: "util_idalloc_sparse \<Rightarrow> u32 \<Rightarrow> util_idalloc_sparse option" where
  "util_idalloc_sparse_free segs uid = do {
     let k = unat (uid div MAX_IDS_PER_SEGMENT);
     s \<leftarrow> array_read segs k;
     array_set segs k (util_idalloc_free s (uid mod MAX_IDS_PER_SEGMENT))
   }"

definition util_idalloc_sparse_reserve ::
  "util_idalloc_sparse \<Rightarrow> u32 \<Rightarrow> util_idalloc_sparse option" where
  "util_idalloc_sparse_reserve segs uid = do {
     let k = unat (uid div MAX_IDS_PER_SEGMENT);
     s \<leftarrow> array_read segs k;
     s \<leftarrow> util_idalloc_reserve s (uid mod MAX_IDS_PER_SEGMENT);
     array_set segs k s
   }"

section \<open>The bitmap as a set of ids\<close>

lemma free_run_stop:
  assumes "free_run d n base \<noteq> n" "base + free_run d n base < length d"
  shows "d ! (base + free_run d n base) \<noteq> 0"
proof -
  let ?k = "free_run d n base"
  have k: "?k < length (take n (drop base d))"
    using assms length_takeWhile_le [of "\<lambda>x. x = 0" "take n (drop base d)"] by (auto simp: free_run_def)
  then have "take n (drop base d) ! ?k \<noteq> 0"
    using nth_length_takeWhile [of "\<lambda>x. x = 0" "take n (drop base d)"] by (simp add: free_run_def)
  then show ?thesis using k assms(2) by simp
qed

termination range_search
proof (relation "measure (\<lambda>(d, n, base). length d - base)")
  fix d :: "u32 list" and n base i
  assume i: "i = base + free_run d n base" and "i - base \<noteq> n" "i \<noteq> length d" "i < length d"
  then have "d ! i \<noteq> 0" using free_run_stop [of d n base] by auto
  then show "((d, n, if d ! i = 0 then i else i + 1), d, n, base) \<in> measure (\<lambda>(d, n, base). length d - base)"
    using i \<open>i < length d\<close> by auto
qed simp

declare range_search.simps [simp del]

definition bitmap :: "u32 list \<Rightarrow> nat set" where
  "bitmap d = {n. n div 32 < length d \<and> bit (d ! (n div 32)) (n mod 32)}"

definition idalloc_used :: "util_idalloc \<Rightarrow> nat set" where
  "idalloc_used buf = bitmap (idata buf)"

definition idalloc_ok :: "util_idalloc \<Rightarrow> bool" where
  "idalloc_ok buf \<longleftrightarrow>
     length (idata buf) \<le> 2 ^ 27 \<and> unat (num_set_elements buf) \<le> length (idata buf) \<and>
     unat (lowest_free_idx buf) \<le> length (idata buf) \<and>
     (\<forall>i<unat (lowest_free_idx buf). idata buf ! i = 0xffffffff) \<and>
     (\<forall>i<length (idata buf). unat (num_set_elements buf) \<le> i \<longrightarrow> idata buf ! i = 0)"

text \<open>There is room to double the bitmap within the 32-bit ids.\<close>

definition idalloc_room :: "util_idalloc \<Rightarrow> bool" where
  "idalloc_room buf \<longleftrightarrow> length (idata buf) \<le> 2 ^ 26"

lemma idalloc_okD:
  assumes "idalloc_ok buf"
  shows "length (idata buf) \<le> 2 ^ 27" "unat (num_set_elements buf) \<le> length (idata buf)"
    "unat (lowest_free_idx buf) \<le> length (idata buf)"
    "\<And>i. i < unat (lowest_free_idx buf) \<Longrightarrow> idata buf ! i = 0xffffffff"
    "\<And>i. i < length (idata buf) \<Longrightarrow> unat (num_set_elements buf) \<le> i \<Longrightarrow> idata buf ! i = 0"
  using assms by (simp_all add: idalloc_ok_def)

lemma word_split: "b < 32 \<Longrightarrow> n = 32 * i + b \<longleftrightarrow> n div 32 = i \<and> n mod 32 = (b :: nat)"
  by auto

lemma bitmap_append_zero [simp]: "bitmap (d @ replicate k 0) = bitmap d"
proof (rule set_eqI)
  fix n show "n \<in> bitmap (d @ replicate k 0) \<longleftrightarrow> n \<in> bitmap d"
    by (cases "n div 32 < length d") (auto simp: bitmap_def nth_append)
qed

lemma bitmap_set:
  assumes "i < length d" "b < 32"
  shows "bitmap (d[i := d ! i OR push_bit b 1]) = insert (32 * i + b) (bitmap d)"
  using assms unfolding bitmap_def
  by (auto simp: nth_list_update word_split bit_simps)

lemma bitmap_clear:
  assumes "i < length d" "b < 32"
  shows "bitmap (d[i := d ! i AND NOT (push_bit b 1)]) = bitmap d - {32 * i + b}"
  using assms unfolding bitmap_def
  by (auto simp: nth_list_update word_split bit_simps)

lemma find_upt_Some:
  "find P [a..<b] = Some i \<longleftrightarrow> a \<le> i \<and> i < b \<and> P i \<and> (\<forall>j. a \<le> j \<and> j < i \<longrightarrow> \<not> P j)"
proof
  assume "find P [a..<b] = Some i"
  then obtain k where "k < b - a" "P (a + k)" "i = a + k" "\<forall>j<k. \<not> P (a + j)"
    by (auto simp: find_Some_iff)
  moreover from this have "\<not> P j" if "a \<le> j" "j < i" for j
    using that by (metis le_add_diff_inverse nat_add_left_cancel_less)
  ultimately show "a \<le> i \<and> i < b \<and> P i \<and> (\<forall>j. a \<le> j \<and> j < i \<longrightarrow> \<not> P j)" by auto
next
  assume "a \<le> i \<and> i < b \<and> P i \<and> (\<forall>j. a \<le> j \<and> j < i \<longrightarrow> \<not> P j)"
  then show "find P [a..<b] = Some i"
    unfolding find_Some_iff by (intro exI [of _ "i - a"]) auto
qed

lemma find_upt_None: "find P [a..<b] = None \<longleftrightarrow> (\<forall>j. a \<le> j \<and> j < b \<longrightarrow> \<not> P j)"
  by (auto simp: find_None_iff)

lemma word_full_iff: "(x :: u32) = 0xffffffff \<longleftrightarrow> (\<forall>b<32. bit x b)"
proof -
  have full: "(0xffffffff :: u32) = NOT 0" by simp
  show ?thesis unfolding full
    by (auto simp: bit_eq_iff bit_simps possible_bit_def)
qed

lemma word_full_or: "(0xffffffff :: u32) OR x = 0xffffffff"
proof -
  have "(0xffffffff :: u32) = NOT 0" by simp
  then show ?thesis by (simp only: or_eq_not_not_and) simp
qed

lemma ffs_free:
  assumes "(x :: u32) \<noteq> 0xffffffff"
  shows "ffs (NOT x) - 1 < 32" "\<not> bit x (ffs (NOT x) - 1)" "\<forall>c<ffs (NOT x) - 1. bit x c"
proof -
  obtain b where "b < 32" "\<not> bit x b" using assms word_full_iff by blast
  then have "find (bit (NOT x)) [0..<32] \<noteq> None" unfolding find_upt_None by (auto simp: bit_simps)
  then obtain c where c: "find (bit (NOT x)) [0..<32] = Some c" by blast
  then have "c < 32 \<and> bit (NOT x) c \<and> (\<forall>j<c. \<not> bit (NOT x) j)" unfolding find_upt_Some by simp
  then show "ffs (NOT x) - 1 < 32" "\<not> bit x (ffs (NOT x) - 1)" "\<forall>c<ffs (NOT x) - 1. bit x c"
    using c by (auto simp: ffs_def bit_simps)
qed

lemma unat_of_nat_u32: "n < 2 ^ 32 \<Longrightarrow> unat (of_nat n :: u32) = n"
  by (simp add: unat_of_nat)

lemma unat_id:
  assumes "i < 2 ^ 27" "b < 32"
  shows "unat (of_nat i * 32 + of_nat b :: u32) = 32 * i + b"
proof -
  have "of_nat i * 32 + of_nat b = (of_nat (32 * i + b) :: u32)" by simp
  then show ?thesis using assms unat_of_nat_u32 [of "32 * i + b"] by (simp add: mult.commute)
qed

lemma least_free:
  assumes "n \<notin> A" "\<And>m. m < n \<Longrightarrow> m \<in> A"
  shows "(LEAST m. m \<notin> A) = (n :: nat)"
  using assms by (intro Least_equality) (auto intro: leI)

lemma unat_max: "unat (max a b) = max (unat a) (unat b)"
  by (simp add: max_def word_le_nat_alt)

lemma unat_min: "unat (min a b) = min (unat a) (unat b)"
  by (simp add: min_def word_le_nat_alt)

lemma idalloc_alloc_found:
  assumes ok: "idalloc_ok buf"
    and find: "find (\<lambda>i. idata buf ! i \<noteq> 0xffffffff) [unat (lowest_free_idx buf)..<length (idata buf)] = Some i"
    and alloc: "util_idalloc_alloc buf = Some (uid, buf')"
  shows "idalloc_ok buf'" "unat uid = (LEAST n. n \<notin> idalloc_used buf)"
    "idalloc_used buf' = insert (unat uid) (idalloc_used buf)" "unat uid \<notin> idalloc_used buf"
    "length (idata buf') = length (idata buf)"
proof -
  let ?d = "idata buf" and ?b = "ffs (NOT (idata buf ! i)) - 1"
  have i: "i < length ?d" "?d ! i \<noteq> 0xffffffff" "\<And>j. j < i \<Longrightarrow> ?d ! j = 0xffffffff"
    using find idalloc_okD(4) [OF ok] unfolding find_upt_Some by (auto, meson not_less)
  have b: "?b < 32" "\<not> bit (?d ! i) ?b" "\<forall>c<?b. bit (?d ! i) c" by (rule ffs_free [OF i(2)])+
  have i27: "i < 2 ^ 27" using i(1) idalloc_okD(1) [OF ok] by simp
  have buf': "uid = of_nat i * 32 + of_nat ?b" "buf' = buf\<lparr>idata := ?d[i := ?d ! i OR push_bit ?b 1],
      lowest_free_idx := of_nat i, num_set_elements := max (num_set_elements buf) (of_nat i + 1)\<rparr>"
    using alloc find by (auto simp: util_idalloc_alloc_def Let_def)
  have uid: "unat uid = 32 * i + ?b" unfolding buf' by (rule unat_id [OF i27 b(1)])
  show used: "idalloc_used buf' = insert (unat uid) (idalloc_used buf)"
    using bitmap_set [OF i(1) b(1)] buf' uid by (simp add: idalloc_used_def)
  have free: "32 * i + ?b \<notin> bitmap ?d" using i(1) b(1,2) by (simp add: bitmap_def)
  then show "unat uid \<notin> idalloc_used buf" by (simp add: uid idalloc_used_def)
  have "m \<in> bitmap ?d" if "m < 32 * i + ?b" for m
  proof (cases "m div 32 = i")
    case True
    then have "m mod 32 < ?b" using that by (metis add_less_cancel_left mult_div_mod_eq)
    then show ?thesis using True i(1) b(3) by (simp add: bitmap_def)
  next
    case False
    then have "m div 32 < i" using that b(1) by linarith
    then show ?thesis using i word_full_iff by (simp add: bitmap_def)
  qed
  then show "unat uid = (LEAST n. n \<notin> idalloc_used buf)"
    using least_free [OF free] by (simp add: uid idalloc_used_def)
  show "length (idata buf') = length (idata buf)" using buf' by simp
  have "unat (of_nat i + 1 :: u32) = i + 1" "unat (of_nat i :: u32) = i"
    using i27 unat_of_nat_u32 [of "i + 1"] unat_of_nat_u32 [of i] by (simp_all add: add.commute)
  then show "idalloc_ok buf'"
    using idalloc_okD [OF ok] i unfolding buf'(2)
    by (auto simp: idalloc_ok_def unat_max nth_list_update)
qed

lemma unat_num_elements: "idalloc_ok buf \<Longrightarrow> unat (num_elements buf) = length (idata buf)"
  using idalloc_okD(1) [of buf] by (simp add: num_elements_def unat_of_nat_u32)

lemma resize_grows:
  assumes "idalloc_ok buf" "length (idata buf) < unat n"
  shows "util_idalloc_resize buf n = buf\<lparr>idata := idata buf @ replicate (unat n - length (idata buf)) 0\<rparr>"
  using assms unat_num_elements by (simp add: util_idalloc_resize_def word_less_nat_alt)

lemma idalloc_ok_append_zero:
  assumes "idalloc_ok buf" "length (idata buf) + k \<le> 2 ^ 27"
  shows "idalloc_ok (buf\<lparr>idata := idata buf @ replicate k 0\<rparr>)"
  using assms idalloc_okD(3) [OF assms(1)] by (auto simp: idalloc_ok_def nth_append)

lemma full_bitmap:
  assumes "\<forall>i<length d. d ! i = 0xffffffff"
  shows "bitmap d = {0..<32 * length d}"
  using assms unfolding bitmap_def word_full_iff by (auto simp: less_mult_imp_div_less mult.commute)

lemma idalloc_alloc_grown:
  assumes ok: "idalloc_ok buf" and room: "idalloc_room buf"
    and find: "find (\<lambda>i. idata buf ! i \<noteq> 0xffffffff) [unat (lowest_free_idx buf)..<length (idata buf)] = None"
  shows "\<exists>buf'. util_idalloc_alloc buf = Some (num_elements buf * 32, buf') \<and> idalloc_ok buf' \<and>
    idalloc_used buf = {0..<32 * length (idata buf)} \<and>
    idalloc_used buf' = insert (32 * length (idata buf)) (idalloc_used buf) \<and>
    length (idata buf') = 2 * max (length (idata buf)) 1"
proof -
  let ?d = "idata buf" and ?n = "length (idata buf)" and ?m = "2 * max (length (idata buf)) 1"
  have n: "?n \<le> 2 ^ 26" using room by (simp add: idalloc_room_def)
  then have m: "unat (max (num_elements buf) 1 * 2) = ?m"
    using unat_num_elements [OF ok] unat_mult_no_wrap [of "max (num_elements buf) 1" 2]
    by (simp add: unat_max)
  define b1 where "b1 = buf\<lparr>idata := ?d @ replicate (?m - ?n) 0\<rparr>"
  have resize: "util_idalloc_resize buf (max (num_elements buf) 1 * 2) = b1"
    using resize_grows [OF ok, of "max (num_elements buf) 1 * 2"] m by (simp add: b1_def)
  have b1: "idalloc_ok b1" "length (idata b1) = ?m" "idata b1 ! ?n = 0" "?n < ?m"
    using idalloc_ok_append_zero [OF ok, of "?m - ?n"] n by (auto simp: b1_def nth_append)
  have full: "\<forall>i<?n. ?d ! i = 0xffffffff"
    using find idalloc_okD(4) [OF ok] unfolding find_upt_None by (meson not_less)
  define b2 where "b2 = b1\<lparr>lowest_free_idx := num_elements buf, idata := (idata b1)[?n := 1],
      num_set_elements := max (num_set_elements buf) (num_elements buf + 1)\<rparr>"
  have alloc: "util_idalloc_alloc buf = Some (num_elements buf * 32, b2)"
    using find resize b1 unat_num_elements [OF ok]
    by (simp add: util_idalloc_alloc_def Let_def array_read_def array_set_def b2_def) (simp add: b1_def)
  have "unat (num_elements buf + 1) = ?n + 1"
    using unat_add_no_wrap [of "num_elements buf" 1] unat_num_elements [OF ok] n by simp
  then have "idalloc_ok b2"
    using idalloc_okD [OF b1(1)] b1(2-) full unat_num_elements [OF ok] n
    by (auto simp: idalloc_ok_def b2_def unat_max nth_list_update)
      (simp_all add: b1_def nth_append)
  moreover have "idalloc_used b2 = insert (32 * ?n) (idalloc_used buf)"
    using bitmap_set [of ?n "idata b1" 0] b1 by (simp add: idalloc_used_def b2_def) (simp add: b1_def)
  moreover have "idalloc_used buf = {0..<32 * ?n}"
    using full_bitmap [OF full] by (simp add: idalloc_used_def)
  ultimately show ?thesis using alloc b1(2) by (auto simp: b2_def)
qed

lemma idalloc_alloc:
  assumes ok: "idalloc_ok buf" and room: "idalloc_room buf"
  shows "\<exists>uid buf'. util_idalloc_alloc buf = Some (uid, buf') \<and> idalloc_ok buf' \<and>
    unat uid = (LEAST n. n \<notin> idalloc_used buf) \<and> unat uid \<notin> idalloc_used buf \<and>
    idalloc_used buf' = insert (unat uid) (idalloc_used buf)"
proof (cases "find (\<lambda>i. idata buf ! i \<noteq> 0xffffffff) [unat (lowest_free_idx buf)..<length (idata buf)]")
  case (Some i)
  then obtain uid buf' where alloc: "util_idalloc_alloc buf = Some (uid, buf')"
    by (simp add: util_idalloc_alloc_def Let_def)
  from idalloc_alloc_found [OF ok Some this] alloc show ?thesis by blast
next
  case None
  from idalloc_alloc_grown [OF ok room this] obtain buf' where
    a: "util_idalloc_alloc buf = Some (num_elements buf * 32, buf')" "idalloc_ok buf'"
    "idalloc_used buf = {0..<32 * length (idata buf)}"
    "idalloc_used buf' = insert (32 * length (idata buf)) (idalloc_used buf)" by blast
  moreover have "unat (num_elements buf * 32) = 32 * length (idata buf)"
    using unat_mult_no_wrap [of "num_elements buf" 32] unat_num_elements [OF ok] room
    by (simp add: idalloc_room_def)
  moreover have "(LEAST n. n \<notin> idalloc_used buf) = 32 * length (idata buf)"
    using a(3) by (intro least_free) auto
  ultimately show ?thesis by auto
qed

lemma shrink_set_le: "shrink_set d n \<le> n"
  by (induction n) (auto intro: le_SucI)

lemma shrink_set_zero: "shrink_set d n \<le> i \<Longrightarrow> i < n \<Longrightarrow> d ! i = 0"
  by (induction n) (auto split: if_splits simp: less_Suc_eq)

lemma idalloc_free:
  assumes ok: "idalloc_ok buf"
  shows "idalloc_ok (util_idalloc_free buf uid)"
    "idalloc_used (util_idalloc_free buf uid) = idalloc_used buf - {unat uid}"
    "length (idata (util_idalloc_free buf uid)) = length (idata buf)"
proof -
  have dm: "unat (uid div 32) = unat uid div 32" "unat (uid mod 32) = unat uid mod 32"
    by (simp_all add: unat_div unat_mod)
  consider (out) "num_elements buf \<le> uid div 32" | (inside) "\<not> num_elements buf \<le> uid div 32" by blast
  then have "idalloc_ok (util_idalloc_free buf uid) \<and>
    idalloc_used (util_idalloc_free buf uid) = idalloc_used buf - {unat uid} \<and>
    length (idata (util_idalloc_free buf uid)) = length (idata buf)"
  proof cases
    case out
    then have "length (idata buf) \<le> unat uid div 32"
      using unat_num_elements [OF ok] dm by (simp add: word_le_nat_alt)
    then have "unat uid \<notin> idalloc_used buf" by (simp add: idalloc_used_def bitmap_def)
    then show ?thesis using out ok by (simp add: util_idalloc_free_def)
  next
    case inside
    let ?i = "unat uid div 32" and ?b = "unat uid mod 32"
    let ?d = "(idata buf)[?i := idata buf ! ?i AND NOT (push_bit ?b 1)]"
    have i: "?i < length (idata buf)"
      using inside unat_num_elements [OF ok] dm by (simp add: word_le_nat_alt)
    define k where "k = (if num_set_elements buf = uid div 32 + 1
      then of_nat (shrink_set ?d (unat (num_set_elements buf))) else num_set_elements buf)"
    have free: "util_idalloc_free buf uid = buf\<lparr>lowest_free_idx := min (uid div 32) (lowest_free_idx buf),
        idata := ?d, num_set_elements := k\<rparr>"
      using inside dm by (simp add: util_idalloc_free_def Let_def k_def)
    have shrunk: "unat (of_nat (shrink_set ?d (unat (num_set_elements buf))) :: u32) =
        shrink_set ?d (unat (num_set_elements buf))"
      using shrink_set_le [of ?d "unat (num_set_elements buf)"] idalloc_okD(1,2) [OF ok]
      by (intro unat_of_nat_u32) simp
    have k: "unat k \<le> length (idata buf)"
      using shrunk shrink_set_le [of ?d "unat (num_set_elements buf)"] idalloc_okD(2) [OF ok]
      by (auto simp: k_def)
    have zero: "?d ! j = 0" if "j < length (idata buf)" "unat k \<le> j" for j
    proof (cases "j < unat (num_set_elements buf)")
      case True
      then show ?thesis using that shrunk shrink_set_zero by (auto simp: k_def split: if_splits)
    next
      case False
      then have "idata buf ! j = 0" using that idalloc_okD(5) [OF ok] by simp
      then show ?thesis using i by (cases "j = ?i") simp_all
    qed
    have "idalloc_ok (util_idalloc_free buf uid)"
      using idalloc_okD [OF ok] i k zero dm unfolding free
      by (auto simp: idalloc_ok_def unat_min min_le_iff_disj)
    moreover have "idalloc_used (util_idalloc_free buf uid) = idalloc_used buf - {unat uid}"
      using bitmap_clear [OF i, of ?b] free by (simp add: idalloc_used_def)
    ultimately show ?thesis using free by simp
  qed
  then show "idalloc_ok (util_idalloc_free buf uid)"
    "idalloc_used (util_idalloc_free buf uid) = idalloc_used buf - {unat uid}"
    "length (idata (util_idalloc_free buf uid)) = length (idata buf)" by blast+
qed

lemma idalloc_reserve:
  assumes ok: "idalloc_ok buf" and room: "unat uid div 32 < 2 ^ 26 \<or> unat uid div 32 < length (idata buf)"
  shows "\<exists>buf'. util_idalloc_reserve buf uid = Some buf' \<and> idalloc_ok buf' \<and>
    idalloc_used buf' = insert (unat uid) (idalloc_used buf)"
proof -
  let ?i = "unat uid div 32" and ?b = "unat uid mod 32"
  have dm: "unat (uid div 32) = ?i" "unat (uid mod 32) = ?b"
    by (simp_all add: unat_div unat_mod)
  define b1 where "b1 = (if num_elements buf \<le> uid div 32
    then util_idalloc_resize buf ((uid div 32 + 1) * 2) else buf)"
  have i27: "?i < 2 ^ 27" using unat_bound [of uid] by simp
  have b1: "idalloc_ok b1 \<and> ?i < length (idata b1) \<and> idalloc_used b1 = idalloc_used buf \<and>
      num_set_elements b1 = num_set_elements buf \<and> lowest_free_idx b1 = lowest_free_idx buf"
  proof (cases "num_elements buf \<le> uid div 32")
    case True
    then have le: "length (idata buf) \<le> ?i"
      using unat_num_elements [OF ok] dm by (simp add: word_le_nat_alt)
    then have i: "?i < 2 ^ 26" using room by simp
    have "unat (uid div 32 + 1) = ?i + 1"
      using unat_add_no_wrap [of "uid div 32" 1] dm i by simp
    then have n: "unat ((uid div 32 + 1) * 2) = 2 * (?i + 1)"
      using unat_mult_no_wrap [of "uid div 32 + 1" 2] i by simp
    then have "b1 = buf\<lparr>idata := idata buf @ replicate (2 * (?i + 1) - length (idata buf)) 0\<rparr>"
      using True le resize_grows [OF ok, of "(uid div 32 + 1) * 2"] by (simp add: b1_def)
    then show ?thesis
      using idalloc_ok_append_zero [OF ok, of "2 * (?i + 1) - length (idata buf)"] le i
      by (simp add: idalloc_used_def)
  next
    case False
    then show ?thesis
      using ok unat_num_elements [OF ok] dm by (simp add: b1_def word_le_nat_alt)
  qed
  then have ok1: "idalloc_ok b1" ..
  define b2 where "b2 = b1\<lparr>idata := (idata b1)[?i := idata b1 ! ?i OR push_bit ?b 1],
    num_set_elements := max (num_set_elements buf) (uid div 32 + 1)\<rparr>"
  have res: "util_idalloc_reserve buf uid = Some b2"
    using b1 unfolding util_idalloc_reserve_def Let_def b1_def [symmetric] dm
    by (simp add: array_read_def array_set_def b2_def)
  have "unat (uid div 32 + 1) = ?i + 1"
    using unat_add_no_wrap [of "uid div 32" 1] dm i27 by simp
  then have "idalloc_ok b2"
    using b1 idalloc_okD(1-3) [OF ok1]
    by (auto simp: idalloc_ok_def b2_def unat_max nth_list_update word_full_or idalloc_okD(4,5) [OF ok1])
  moreover have "idalloc_used b2 = insert (unat uid) (idalloc_used buf)"
    using bitmap_set [of ?i "idata b1" ?b] b1 by (simp add: idalloc_used_def b2_def)
  ultimately show ?thesis using res by blast
qed

subsection \<open>Ranges\<close>

lemma free_run_zero:
  assumes "base \<le> length d"
  shows "free_run d n base \<le> n" "base + free_run d n base \<le> length d"
    "j < free_run d n base \<Longrightarrow> d ! (base + j) = 0"
proof -
  let ?w = "takeWhile (\<lambda>x. x = 0) (take n (drop base d))"
  have len: "free_run d n base \<le> length (take n (drop base d))"
    unfolding free_run_def by (rule length_takeWhile_le)
  then show "free_run d n base \<le> n" "base + free_run d n base \<le> length d" using assms by auto
  assume j: "j < free_run d n base"
  then have "?w ! j = take n (drop base d) ! j" unfolding free_run_def by (rule takeWhile_nth)
  moreover have "\<forall>x\<in>set ?w. x = 0" by (auto dest: set_takeWhileD)
  then have "?w ! j = 0" using j nth_mem [of j ?w] unfolding free_run_def by blast
  ultimately show "d ! (base + j) = 0" using j len assms by simp
qed

lemma range_search_spec:
  assumes "base \<le> length d"
  shows "\<exists>found b. range_search d n base = Some (found, b) \<and> b \<le> length d \<and>
    (\<forall>i. b \<le> i \<and> i < b + n \<and> i < length d \<longrightarrow> d ! i = 0) \<and> (found \<longrightarrow> b + n \<le> length d)"
  using assms
proof (induction d n base rule: range_search.induct)
  case (1 d n base)
  let ?k = "free_run d n base"
  note run = free_run_zero [OF 1(2)]
  have zero: "d ! i = 0" if "base \<le> i" "i < base + ?k" for i
    using run(3) [where n = n and j = "i - base"] that by simp
  consider (hit) "?k = n" | (miss) "?k \<noteq> n" "base + ?k = length d" | (more) "?k \<noteq> n" "base + ?k < length d"
    using run(2) [of n] by linarith
  then show ?case
  proof cases
    case hit
    then have "range_search d n base = Some (True, base)" by (simp add: range_search.simps [of d n base])
    then show ?thesis using hit run(2) [of n] zero by auto
  next
    case miss
    then have "range_search d n base = Some (False, base)"
      by (auto simp: range_search.simps [of d n base] Let_def)
    then show ?thesis using miss zero \<open>base \<le> length d\<close> by auto
  next
    case more
    then have nz: "d ! (base + ?k) \<noteq> 0" using free_run_stop by blast
    then have "range_search d n base = range_search d n (Suc (base + ?k))"
      using more by (simp add: range_search.simps [of d n base])
    then show ?thesis using 1(1) [of "base + ?k"] more nz by simp
  qed
qed

lemma find_free_block_le:
  assumes ok: "idalloc_ok buf"
  shows "unat (find_free_block buf start) \<le> length (idata buf)"
proof (cases "find (\<lambda>i. idata buf ! i = 0) [unat start..<length (idata buf)]")
  case None
  then show ?thesis using unat_num_elements [OF ok] by (simp add: find_free_block_def)
next
  case (Some i)
  then have "i < length (idata buf)" unfolding find_upt_Some by blast
  moreover from this have "unat (of_nat i :: u32) = i"
    using idalloc_okD(1) [OF ok] by (intro unat_of_nat_u32) simp
  ultimately show ?thesis using Some by (simp add: find_free_block_def)
qed

lemma bit_BITFIELD_MASK: "k < 32 \<Longrightarrow> bit (BITFIELD_MASK k) m \<longleftrightarrow> m < k"
proof -
  assume "k < 32"
  then have "BITFIELD_MASK k = mask k"
    by (simp add: BITFIELD_MASK_def BITFIELD_BIT_def mask_eq_decr_exp)
  then show ?thesis using \<open>k < 32\<close> by (auto simp: bit_simps)
qed

lemma round_up_32: "(n + 31) div 32 = n div 32 + (if n mod 32 = 0 then 0 else 1 :: nat)"
proof -
  define q r where "q = n div 32" and "r = n mod 32"
  have n: "n = r + 32 * q" and r: "r < 32" by (simp_all add: q_def r_def)
  have "(n + 31) div 32 = ((r + 31) + 32 * q) div 32" by (simp add: n)
  also have "\<dots> = q + (r + 31) div 32" by (rule div_mult_self2) simp
  also have "(r + 31) div 32 = (if r = 0 then 0 else 1)" using r by (auto intro: div_nat_eqI)
  finally show ?thesis by (simp add: q_def r_def)
qed

lemma round_up_32_ge: "n \<le> (n + 31) div 32 * (32 :: nat)"
proof -
  have "n + 31 < 32 + (n + 31) div 32 * 32" by (rule dividend_less_div_times) simp
  then show ?thesis by simp
qed

lemma mark_range_ok:
  assumes fit: "unat base + unat a \<le> length d" "length d \<le> 2 ^ 28"
    and a: "unat a = (unat num + 31) div 32"
  shows "\<exists>d'. mark_range d base num a = Some d' \<and> length d' = length d \<and>
    (\<forall>j<length d. d' ! j =
      (if unat base \<le> j \<and> j < unat base + unat num div 32 then 0xffffffff
       else if j = unat base + unat num div 32 \<and> unat num mod 32 \<noteq> 0
       then d ! j OR BITFIELD_MASK (unat num mod 32) else d ! j))"
proof -
  have sum: "unat (base + a) = unat base + unat a"
    using unat_add_no_wrap [of base a] fit by simp
  have m: "unat (num mod 32) = unat num mod 32" "num mod 32 = 0 \<longleftrightarrow> unat num mod 32 = 0"
    by (simp_all add: unat_mod word_unat_eq_iff)
  let ?stop = "base + a - (if num mod 32 \<noteq> 0 then 1 else 0)"
  show ?thesis
  proof (cases "unat num mod 32 = 0")
    case True
    then have a': "unat a = unat num div 32" using a round_up_32 [of "unat num"] by simp
    obtain d1 where w: "array_write d (unat base) (replicate (unat num div 32) 0xffffffff) = Some d1"
      using fit a' by (simp add: array_write_def)
    have "mark_range d base num a = Some d1"
      using w True m sum a' by (simp add: mark_range_def)
    then show ?thesis
      using array_write_length [OF w] array_write_in [OF w] array_write_out [OF w] True
      by (intro exI [of _ d1]) auto
  next
    case False
    then have a': "unat a = unat num div 32 + 1" using a round_up_32 [of "unat num"] by simp
    have last: "unat (base + a - 1) = unat base + unat num div 32"
      using unat_sub_no_wrap [of 1 "base + a"] sum a' by simp
    obtain d1 where w: "array_write d (unat base) (replicate (unat num div 32) 0xffffffff) = Some d1"
      using fit a' by (simp add: array_write_def)
    let ?l = "unat base + unat num div 32"
    have l: "?l < length d1" "d1 ! ?l = d ! ?l"
      using array_write_length [OF w] array_write_out [OF w, of ?l] fit a' by auto
    have "mark_range d base num a = Some (d1[?l := d ! ?l OR BITFIELD_MASK (unat num mod 32)])"
      using w False m last l by (simp add: mark_range_def array_read_def array_set_def)
    then show ?thesis
      using array_write_length [OF w] array_write_in [OF w] array_write_out [OF w] False
      by (intro exI [of _ "d1[?l := d ! ?l OR BITFIELD_MASK (unat num mod 32)]"])
        (auto simp: nth_list_update)
  qed
qed

lemma marked_bitmap:
  assumes len: "length d' = length d" and fit: "B + (N + 31) div 32 \<le> length d"
    and d': "\<forall>j<length d. d' ! j =
      (if B \<le> j \<and> j < B + N div 32 then 0xffffffff
       else if j = B + N div 32 \<and> N mod 32 \<noteq> 0 then d ! j OR BITFIELD_MASK (N mod 32) else d ! j)"
  shows "bitmap d' = bitmap d \<union> {32 * B..<32 * B + N}"
proof (rule set_eqI)
  fix n :: nat
  define j b q r where "j = n div 32" and "b = n mod 32" and "q = N div 32" and "r = N mod 32"
  note defs = j_def b_def q_def r_def
  have n: "n = 32 * j + b" "b < 32" and N: "N = 32 * q + r" "r < 32" by (simp_all add: defs)
  have "(N + 31) div 32 = q + (r + 31) div 32" using N(1) by (simp add: add.assoc)
  moreover have "r \<noteq> 0 \<longrightarrow> 0 < (r + 31) div 32" by (simp add: div_greater_zero_iff)
  ultimately have fit': "r \<noteq> 0 \<longrightarrow> B + q < length d" "B + q \<le> length d" using fit by auto
  have bit_full: "bit (0xffffffff :: u32) b" using word_full_iff [of "0xffffffff"] n(2) by blast
  have mem: "n \<in> {32 * B..<32 * B + N} \<longleftrightarrow> B \<le> j \<and> (j < B + q \<or> j = B + q \<and> b < r)"
    using n N by auto
  have in_d: "n \<in> bitmap e \<longleftrightarrow> j < length e \<and> bit (e ! j) b" for e by (simp add: bitmap_def defs)
  have d'j: "j < length d \<Longrightarrow> d' ! j = (if B \<le> j \<and> j < B + q then 0xffffffff
      else if j = B + q \<and> r \<noteq> 0 then d ! j OR BITFIELD_MASK r else d ! j)"
    using d' by (simp add: defs)
  have mask: "bit (BITFIELD_MASK r) b \<longleftrightarrow> b < r" by (rule bit_BITFIELD_MASK [OF N(2)])
  have "j < length d" if "B \<le> j \<and> (j < B + q \<or> j = B + q \<and> b < r)" using that fit' by auto
  then show "n \<in> bitmap d' \<longleftrightarrow> n \<in> bitmap d \<union> {32 * B..<32 * B + N}"
    unfolding Un_iff mem in_d len using d'j bit_full mask
    by (cases "j < length d") (auto simp: bit_or_iff split: if_splits)
qed

text \<open>The array in which a run was found, or the array grown for it, is large enough.\<close>

lemma range_place:
  assumes ok: "idalloc_ok buf" and room: "2 * length (idata buf) + unat a < 2 ^ 27"
  shows "\<exists>found b buf1. range_search (idata buf) (unat a) (unat (find_free_block buf (lowest_free_idx buf))) =
      Some (found, b) \<and>
    buf1 = (if found then buf else util_idalloc_resize buf (num_elements buf * 2 + a)) \<and>
    idalloc_ok buf1 \<and> b + unat a \<le> length (idata buf1) \<and> idalloc_used buf1 = idalloc_used buf \<and>
    num_set_elements buf1 = num_set_elements buf \<and> lowest_free_idx buf1 = lowest_free_idx buf \<and>
    length (idata buf1) < 2 ^ 27 \<and> (\<forall>i. b \<le> i \<and> i < b + unat a \<longrightarrow> idata buf1 ! i = 0)"
proof -
  let ?n = "length (idata buf)"
  obtain found b where s: "range_search (idata buf) (unat a)
      (unat (find_free_block buf (lowest_free_idx buf))) = Some (found, b)"
    "b \<le> ?n" "\<forall>i. b \<le> i \<and> i < b + unat a \<and> i < ?n \<longrightarrow> idata buf ! i = 0" "found \<longrightarrow> b + unat a \<le> ?n"
    using range_search_spec [OF find_free_block_le [OF ok, of "lowest_free_idx buf"], of "unat a"] by blast
  have "unat (num_elements buf * 2) = 2 * ?n"
    using unat_mult_no_wrap [of "num_elements buf" 2] unat_num_elements [OF ok] room by simp
  then have m: "unat (num_elements buf * 2 + a) = 2 * ?n + unat a"
    using unat_add_no_wrap [of "num_elements buf * 2" a] room by simp
  have buf1: "util_idalloc_resize buf (num_elements buf * 2 + a) =
      buf\<lparr>idata := idata buf @ replicate (?n + unat a) 0\<rparr>"
  proof (cases "?n < 2 * ?n + unat a")
    case True
    then show ?thesis using resize_grows [OF ok, of "num_elements buf * 2 + a"] m by simp
  next
    case False
    then show ?thesis
      using m unat_num_elements [OF ok] by (simp add: util_idalloc_resize_def word_less_nat_alt)
  qed
  have "idalloc_ok (buf\<lparr>idata := idata buf @ replicate (?n + unat a) 0\<rparr>)"
    using room by (intro idalloc_ok_append_zero [OF ok]) simp
  then show ?thesis
    using s buf1 room ok by (cases found) (auto simp: idalloc_used_def nth_append)
qed

lemma idalloc_alloc_range:
  assumes ok: "idalloc_ok buf" and room: "2 * length (idata buf) + (unat num + 31) div 32 < 2 ^ 27"
  shows "\<exists>uid buf'. util_idalloc_alloc_range buf num = Some (uid, buf') \<and> idalloc_ok buf' \<and>
    idalloc_used buf \<inter> {unat uid..<unat uid + unat num} = {} \<and>
    idalloc_used buf' = idalloc_used buf \<union> {unat uid..<unat uid + unat num}"
proof (cases "num = 1")
  case True
  then have "idalloc_room buf" using room by (simp add: idalloc_room_def)
  from idalloc_alloc [OF ok this] obtain uid buf' where
    "util_idalloc_alloc buf = Some (uid, buf')" "idalloc_ok buf'" "unat uid \<notin> idalloc_used buf"
    "idalloc_used buf' = insert (unat uid) (idalloc_used buf)" by blast
  then show ?thesis using True by (auto simp: util_idalloc_alloc_range_def)
next
  case False
  let ?N = "unat num" and ?a = "DIV_ROUND_UP num 32"
  have "unat (31 + num) = ?N + 31" using unat_add_no_wrap [of 31 num] room by simp
  then have a: "unat ?a = (?N + 31) div 32" by (simp add: DIV_ROUND_UP_def unat_div)
  obtain found b buf1 where p: "range_search (idata buf) (unat ?a)
      (unat (find_free_block buf (lowest_free_idx buf))) = Some (found, b)"
    and buf1: "buf1 = (if found then buf else util_idalloc_resize buf (num_elements buf * 2 + ?a))"
    and ok1: "idalloc_ok buf1" and fit: "b + unat ?a \<le> length (idata buf1)"
    and same: "idalloc_used buf1 = idalloc_used buf" "num_set_elements buf1 = num_set_elements buf"
      "lowest_free_idx buf1 = lowest_free_idx buf"
    and lt: "length (idata buf1) < 2 ^ 27"
    and zero: "\<forall>i. b \<le> i \<and> i < b + unat ?a \<longrightarrow> idata buf1 ! i = 0"
    using range_place [OF ok, of ?a] room unfolding a by blast
  let ?d = "idata buf1"
  have base: "unat (of_nat b :: u32) = b"
    using fit idalloc_okD(1) [OF ok1] by (intro unat_of_nat_u32) simp
  have len: "length ?d \<le> 2 ^ 28" using idalloc_okD(1) [OF ok1] by simp
  obtain d' where d': "mark_range ?d (of_nat b) num ?a = Some d'" "length d' = length ?d"
    "\<forall>j<length ?d. d' ! j = (if b \<le> j \<and> j < b + ?N div 32 then 0xffffffff
       else if j = b + ?N div 32 \<and> ?N mod 32 \<noteq> 0 then ?d ! j OR BITFIELD_MASK (?N mod 32) else ?d ! j)"
    using mark_range_ok [of "of_nat b" ?a ?d num] fit len a base by auto
  have used: "bitmap d' = bitmap ?d \<union> {32 * b..<32 * b + ?N}"
    using fit a by (intro marked_bitmap [OF d'(2) _ d'(3)]) simp
  define buf' where "buf' = buf1\<lparr>idata := d',
    lowest_free_idx := (if lowest_free_idx buf = of_nat b then of_nat b + num div 32 else lowest_free_idx buf),
    num_set_elements := max (num_set_elements buf) (of_nat b + ?a)\<rparr>"
  have alloc: "util_idalloc_alloc_range buf num = Some (of_nat b * 32, buf')"
    using False p d'(1) buf1 same by (simp add: util_idalloc_alloc_range_def Let_def buf'_def)
  have b: "unat (of_nat b * 32 :: u32) = 32 * b" using unat_id [of b 0] fit lt by simp
  have sums: "unat (of_nat b + ?a) = b + unat ?a" "unat (of_nat b + num div 32) = b + ?N div 32"
    using unat_add_no_wrap [of "of_nat b" ?a] unat_add_no_wrap [of "of_nat b" "num div 32"] base fit lt a
    by (simp_all add: unat_div)
  have le: "?N div 32 \<le> unat ?a" "?N mod 32 \<noteq> 0 \<longrightarrow> unat ?a = ?N div 32 + 1" unfolding a round_up_32 by simp_all
  have full: "d' ! j = 0xffffffff" if "j < length ?d" "?d ! j = 0xffffffff" for j
    using that d'(3) word_full_or by auto
  have "idalloc_ok buf'"
    unfolding idalloc_ok_def
  proof (intro conjI allI impI)
    show "length (idata buf') \<le> 2 ^ 27" using lt d'(2) by (simp add: buf'_def)
    show "unat (num_set_elements buf') \<le> length (idata buf')"
      using idalloc_okD(2) [OF ok1] same fit sums d'(2) by (simp add: buf'_def unat_max)
    show "unat (lowest_free_idx buf') \<le> length (idata buf')"
      using idalloc_okD(3) [OF ok1] same fit sums le d'(2) by (simp add: buf'_def)
    show "idata buf' ! j = 0xffffffff" if "j < unat (lowest_free_idx buf')" for j
    proof (cases "j < unat (lowest_free_idx buf)")
      case True
      then show ?thesis
        using full [of j] idalloc_okD(3,4) [OF ok1] same by (simp add: buf'_def)
    next
      case False
      then have "b \<le> j" "j < b + ?N div 32" using that base sums by (auto simp: buf'_def split: if_splits)
      then show ?thesis using d'(3) fit le by (simp add: buf'_def)
    qed
    show "idata buf' ! j = 0" if "j < length (idata buf')" "unat (num_set_elements buf') \<le> j" for j
    proof -
      have j: "j < length ?d" "unat (num_set_elements buf) \<le> j" "b + unat ?a \<le> j"
        using that d'(2) sums by (simp_all add: buf'_def unat_max)
      then have "?d ! j = 0" using idalloc_okD(5) [OF ok1] same by simp
      then show ?thesis using d'(3) j le by (auto simp: buf'_def)
    qed
  qed
  moreover have "n \<notin> bitmap ?d" if "32 * b \<le> n" "n < 32 * b + ?N" for n
  proof -
    have "?N \<le> unat ?a * 32" unfolding a by (rule round_up_32_ge)
    then have "n < (b + unat ?a) * 32" using that(2) by (simp add: add_mult_distrib)
    then have "n div 32 < b + unat ?a" by (rule less_mult_imp_div_less)
    moreover have "b \<le> n div 32" using that(1) by (simp add: less_eq_div_iff_mult_less_eq mult.commute)
    ultimately have "b \<le> n div 32" "n div 32 < b + unat ?a" by blast+
    then show ?thesis using zero by (simp add: bitmap_def)
  qed
  moreover have "idalloc_used buf' = bitmap d'" "idalloc_used buf = bitmap ?d"
    using same by (simp_all add: idalloc_used_def buf'_def)
  ultimately show ?thesis using alloc used b by (auto simp: disjoint_iff)
qed

section \<open>Iterating over the ids\<close>

lemma foreach_prefix:
  "concat (map (\<lambda>i. map (\<lambda>b. 32 * i + b) (filter (bit (d ! i)) [0..<32])) [0..<k]) =
   filter (\<lambda>n. bit (d ! (n div 32)) (n mod 32)) [0..<32 * k]"
proof (induction k)
  case (Suc k)
  have "[0..<32 * Suc k] = [0..<32 * k] @ map (\<lambda>b. 32 * k + b) [0..<32]"
    using upt_add_eq_append [of 0 "32 * k" 32] map_add_upt [of "32 * k" 32] by (simp add: add.commute)
  moreover have "filter (\<lambda>n. bit (d ! (n div 32)) (n mod 32)) (map (\<lambda>b. 32 * k + b) [0..<32]) =
      map (\<lambda>b. 32 * k + b) (filter (bit (d ! k)) [0..<32])"
    unfolding filter_map by (intro arg_cong [of _ _ "map _"] filter_cong) auto
  ultimately show ?case using Suc.IH by simp
qed simp

lemma foreach_sorted:
  assumes ok: "idalloc_ok buf"
  shows "util_idalloc_foreach buf = sorted_list_of_set (idalloc_used buf)"
proof -
  let ?xs = "filter (\<lambda>n. bit (idata buf ! (n div 32)) (n mod 32)) [0..<32 * unat (num_set_elements buf)]"
  have "n < 32 * unat (num_set_elements buf)" if "n \<in> bitmap (idata buf)" for n
  proof (rule ccontr)
    assume "\<not> n < 32 * unat (num_set_elements buf)"
    then have "unat (num_set_elements buf) \<le> n div 32" by simp
    then have "idata buf ! (n div 32) = 0" using idalloc_okD(5) [OF ok] that by (simp add: bitmap_def)
    then show False using that by (simp add: bitmap_def)
  qed
  then have st: "set ?xs = idalloc_used buf"
    using idalloc_okD(2) [OF ok] by (auto simp: idalloc_used_def bitmap_def)
  have "sorted ?xs" by (intro sorted_wrt_filter) simp
  moreover have "distinct ?xs" by simp
  ultimately have "sorted_list_of_set (set ?xs) = ?xs"
    by (rule sorted_list_of_set.idem_if_sorted_distinct)
  then show ?thesis unfolding st by (simp add: util_idalloc_foreach_def foreach_prefix)
qed

section \<open>What a client relies on\<close>

text \<open>A source of ids: while there is room it hands out an id that is not in use and marks it, and
  giving an id back frees no other. A client that remembers the ids it holds then never holds
  one twice.\<close>

locale id_source =
  fixes inv :: "'b \<Rightarrow> bool" and room :: "'b \<Rightarrow> bool" and used :: "'b \<Rightarrow> nat set"
    and take_id :: "'b \<Rightarrow> (u32 \<times> 'b) option" and give_id :: "'b \<Rightarrow> u32 \<Rightarrow> 'b"
  assumes take_law: "inv b \<Longrightarrow> room b \<Longrightarrow>
      \<exists>i b'. take_id b = Some (i, b') \<and> inv b' \<and> unat i \<notin> used b \<and> used b' = insert (unat i) (used b)"
    and give_law: "inv b \<Longrightarrow> inv (give_id b i) \<and> used b - {unat i} \<subseteq> used (give_id b i)"
begin

definition ledger :: "'b \<Rightarrow> u32 list \<Rightarrow> bool" where
  "ledger b live \<longleftrightarrow> inv b \<and> distinct live \<and> unat ` set live \<subseteq> used b"

lemma ledger_take:
  assumes "ledger b live" "room b" "take_id b = Some (i, b')"
  shows "ledger b' (i # live)"
  using assms take_law [of b] by (auto simp: ledger_def)

lemma ledger_give:
  assumes "ledger b live"
  shows "ledger (give_id b i) (remove1 i live)"
proof -
  have live: "distinct live" "unat ` set live \<subseteq> used b" "inv b" using assms by (auto simp: ledger_def)
  have "unat ` set (remove1 i live) \<subseteq> used b - {unat i}"
    using live by (auto simp: word_unat_eq_iff [symmetric])
  then show ?thesis using give_law [OF live(3), of i] live(1) by (auto simp: ledger_def)
qed

end

interpretation ida: id_source idalloc_ok idalloc_room idalloc_used util_idalloc_alloc util_idalloc_free
proof unfold_locales
  show "\<exists>i b'. util_idalloc_alloc b = Some (i, b') \<and> idalloc_ok b' \<and> unat i \<notin> idalloc_used b \<and>
      idalloc_used b' = insert (unat i) (idalloc_used b)" if "idalloc_ok b" "idalloc_room b" for b
    using idalloc_alloc [OF that] by blast
  show "idalloc_ok (util_idalloc_free b i) \<and> idalloc_used b - {unat i} \<subseteq> idalloc_used (util_idalloc_free b i)"
    if "idalloc_ok b" for b i using idalloc_free [OF that] by blast
qed

definition mt_ok :: "util_idalloc_mt \<Rightarrow> bool" where
  "mt_ok mt \<longleftrightarrow> idalloc_ok (mt_buf mt) \<and> (skip_zero mt \<longrightarrow> 0 \<in> idalloc_used (mt_buf mt))"

definition mt_used :: "util_idalloc_mt \<Rightarrow> nat set" where
  "mt_used mt = idalloc_used (mt_buf mt) - (if skip_zero mt then {0} else {})"

interpretation idmt: id_source mt_ok "\<lambda>mt. idalloc_room (mt_buf mt)" mt_used
  util_idalloc_mt_alloc util_idalloc_mt_free
proof unfold_locales
  show "\<exists>i b'. util_idalloc_mt_alloc mt = Some (i, b') \<and> mt_ok b' \<and> unat i \<notin> mt_used mt \<and>
      mt_used b' = insert (unat i) (mt_used mt)" if "mt_ok mt" "idalloc_room (mt_buf mt)" for mt
    using ida.take_law [of "mt_buf mt"] that by (fastforce simp: mt_ok_def mt_used_def util_idalloc_mt_alloc_def)
  show "mt_ok (util_idalloc_mt_free mt i) \<and> mt_used mt - {unat i} \<subseteq> mt_used (util_idalloc_mt_free mt i)"
    if "mt_ok mt" for mt i
    using idalloc_free [of "mt_buf mt" i] that
    by (auto simp: mt_ok_def mt_used_def util_idalloc_mt_free_def word_unat_eq_iff)
qed

text \<open>A run of the thread-safe allocator and the ids its clients hold.\<close>

inductive mt_run :: "util_idalloc_mt \<Rightarrow> u32 list \<Rightarrow> bool" where
  init: "util_idalloc_mt_init n skip = Some mt \<Longrightarrow> unat n \<le> 2 ^ 31 \<Longrightarrow> mt_run mt []"
| alloc: "mt_run mt live \<Longrightarrow> idalloc_room (mt_buf mt) \<Longrightarrow> util_idalloc_mt_alloc mt = Some (i, mt')
    \<Longrightarrow> mt_run mt' (i # live)"
| free: "mt_run mt live \<Longrightarrow> mt_run (util_idalloc_mt_free mt i) (remove1 i live)"

lemma idalloc_init:
  "idalloc_ok (util_idalloc_init n)" "idalloc_used (util_idalloc_init n) = {}"
  "length (idata (util_idalloc_init n)) = unat (DIV_ROUND_UP n 32)"
proof -
  let ?z = "\<lparr>idata = [], num_set_elements = 0, lowest_free_idx = 0\<rparr> :: util_idalloc"
  have z: "idalloc_ok ?z" by (simp add: idalloc_ok_def)
  have eq: "util_idalloc_init n = ?z\<lparr>idata := idata ?z @ replicate (unat (DIV_ROUND_UP n 32)) 0\<rparr>"
    by (cases "DIV_ROUND_UP n 32 = 0")
      (simp_all add: util_idalloc_init_def util_idalloc_resize_def num_elements_def word_neq_0_conv)
  have "unat (DIV_ROUND_UP n 32) \<le> 2 ^ 27"
    using unat_bound [of "n + 32 - 1"] by (simp add: DIV_ROUND_UP_def unat_div)
  then show "idalloc_ok (util_idalloc_init n)"
    unfolding eq by (intro idalloc_ok_append_zero [OF z]) simp
  show "idalloc_used (util_idalloc_init n) = {}"
    using bitmap_append_zero [of "[]"] unfolding eq by (simp add: idalloc_used_def) (simp add: bitmap_def)
  show "length (idata (util_idalloc_init n)) = unat (DIV_ROUND_UP n 32)" unfolding eq by simp
qed

lemma mt_init_ok:
  assumes "util_idalloc_mt_init n skip = Some mt" "unat n \<le> 2 ^ 31"
  shows "mt_ok mt"
proof (cases skip)
  case True
  have "unat (31 + n) = 31 + unat n" using unat_add_no_wrap [of 31 n] assms(2) by simp
  then have "idalloc_room (util_idalloc_init n)"
    using assms(2) by (simp add: idalloc_room_def idalloc_init(3) DIV_ROUND_UP_def unat_div)
  from idalloc_alloc [OF idalloc_init(1) this] show ?thesis
    using assms(1) True by (auto simp: util_idalloc_mt_init_def mt_ok_def idalloc_init(2))
next
  case False
  then show ?thesis
    using assms(1) idalloc_init(1) by (auto simp: util_idalloc_mt_init_def mt_ok_def)
qed

lemma mt_run_ledger: "mt_run mt live \<Longrightarrow> idmt.ledger mt live"
proof (induction rule: mt_run.induct)
  case (init n skip mt)
  then show ?case using mt_init_ok by (simp add: idmt.ledger_def)
next
  case (alloc mt live i mt')
  then show ?case using idmt.ledger_take by blast
next
  case (free mt live i)
  show ?case by (rule idmt.ledger_give [OF free.IH])
qed

section \<open>Filling a segment\<close>

text \<open>The state of an allocator of initially one element after \<open>m\<close> allocations and no frees.\<close>

definition filled :: "nat \<Rightarrow> util_idalloc \<Rightarrow> bool" where
  "filled m s \<longleftrightarrow> idalloc_ok s \<and> idalloc_used s = {0..<m} \<and> 32 * unat (lowest_free_idx s) < max m 1 \<and>
     (\<exists>k. length (idata s) = 2 ^ k \<and> m \<le> 32 * 2 ^ k \<and> (k = 0 \<or> 32 * 2 ^ (k - 1) < m))"

lemma filledI:
  assumes "idalloc_ok s" "idalloc_used s = {0..<m}" "32 * unat (lowest_free_idx s) < max m 1"
    "length (idata s) = 2 ^ k" "m \<le> 32 * 2 ^ k" "k = 0 \<or> 32 * 2 ^ (k - 1) < m"
  shows "filled m s"
  using assms unfolding filled_def by blast

lemma filled_0: "filled 0 (util_idalloc_init 1)"
proof -
  have "length (idata (util_idalloc_init 1)) = 2 ^ 0" by (simp add: idalloc_init(3) DIV_ROUND_UP_def)
  moreover have "lowest_free_idx (util_idalloc_init 1) = 0"
    by (simp add: util_idalloc_init_def util_idalloc_resize_def)
  ultimately show ?thesis using idalloc_init by (auto simp: filled_def intro!: exI [of _ 0])
qed

lemma least_not_below: "(LEAST n. n \<notin> {0..<m}) = (m :: nat)"
  by (rule least_free) auto

lemma filled_Suc:
  assumes f: "filled m s" and m: "m \<le> 2 ^ 22"
  shows "\<exists>s'. util_idalloc_alloc s = Some (of_nat m, s') \<and> filled (Suc m) s' \<and>
    unat (lowest_free_idx s') = m div 32"
proof -
  obtain k where ok: "idalloc_ok s" and used: "idalloc_used s = {0..<m}"
    and low: "32 * unat (lowest_free_idx s) < max m 1"
    and k: "length (idata s) = 2 ^ k" "m \<le> 32 * 2 ^ k" "k = 0 \<or> 32 * 2 ^ (k - 1) < m"
    using f by (auto simp: filled_def)
  have "k \<le> 17"
  proof (rule ccontr)
    assume "\<not> k \<le> 17"
    then have "(2 :: nat) ^ 17 \<le> 2 ^ (k - 1)" by (intro power_increasing) auto
    then show False using k(3) m \<open>\<not> k \<le> 17\<close> by auto
  qed
  then have "(2 :: nat) ^ k \<le> 2 ^ 17" by (rule power_increasing) simp
  then have room: "idalloc_room s" using k(1) by (simp add: idalloc_room_def)
  have m32: "unat (of_nat m :: u32) = m" using m by (intro unat_of_nat_u32) simp
  from idalloc_alloc [OF ok room] obtain uid s' where a: "util_idalloc_alloc s = Some (uid, s')"
    "idalloc_ok s'" "unat uid = m" "idalloc_used s' = insert m {0..<m}"
    using least_not_below [of m] by (auto simp: used)
  have uid: "uid = of_nat m" using a(3) m32 by (simp add: word_unat_eq_iff)
  show ?thesis
  proof (cases "find (\<lambda>i. idata s ! i \<noteq> 0xffffffff) [unat (lowest_free_idx s)..<length (idata s)]")
    case (Some i)
    have i: "i < length (idata s)" "ffs (NOT (idata s ! i)) - 1 < 32"
      using Some ffs_free(1) [of "idata s ! i"] unfolding find_upt_Some by blast+
    then have i27: "i < 2 ^ 27" using idalloc_okD(1) [OF ok] by simp
    have s': "uid = of_nat i * 32 + of_nat (ffs (NOT (idata s ! i)) - 1)" "lowest_free_idx s' = of_nat i"
      "length (idata s') = length (idata s)"
      using a(1) Some by (auto simp: util_idalloc_alloc_def Let_def)
    have mi: "m = 32 * i + (ffs (NOT (idata s ! i)) - 1)" using unat_id [OF i27 i(2)] a(3) s'(1) by simp
    moreover have low': "unat (lowest_free_idx s') = i" using s'(2) i27 by (simp add: unat_of_nat_u32)
    moreover have "Suc m \<le> 32 * 2 ^ k" using calculation(1) i k(1) by linarith
    moreover have "k = 0 \<or> 32 * 2 ^ (k - 1) < Suc m" using k(3) by auto
    ultimately have "filled (Suc m) s'"
      using s'(3) k(1) by (intro filledI [of s' "Suc m" k]) (simp_all add: a(2,4) atLeast0_lessThan_Suc)
    moreover have "m div 32 = i" using mi i(2) by simp
    ultimately show ?thesis using a(1) uid low' by blast
  next
    case None
    from idalloc_alloc_grown [OF ok room this] a(1) have g: "uid = num_elements s * 32"
      "idalloc_used s = {0..<32 * length (idata s)}" "length (idata s') = 2 * max (length (idata s)) 1"
      by auto
    have "lowest_free_idx s' = num_elements s"
      using a(1) None by (auto simp: util_idalloc_alloc_def Let_def bind_eq_Some_conv)
    then have low': "unat (lowest_free_idx s') = 2 ^ k" using unat_num_elements [OF ok] k(1) by simp
    moreover have m2: "m = 32 * 2 ^ k" using g(2) used k(1) by (metis card_atLeastLessThan diff_zero)
    moreover have "length (idata s') = 2 ^ Suc k" using g(3) k(1) by (simp add: max_absorb1)
    ultimately have "filled (Suc m) s'"
      by (intro filledI [of s' "Suc m" "Suc k"]) (simp_all add: a(2,4) atLeast0_lessThan_Suc)
    then show ?thesis using a(1) uid low' m2 by simp
  qed
qed

text \<open>\<open>n\<close> allocations in a row, with the ids in the order they were returned.\<close>

fun sparse_run :: "nat \<Rightarrow> util_idalloc_sparse \<Rightarrow> (u32 list \<times> util_idalloc_sparse) option" where
  "sparse_run 0 segs = Some ([], segs)"
| "sparse_run (Suc n) segs = do {
     (ids, segs) \<leftarrow> sparse_run n segs;
     (uid, segs) \<leftarrow> util_idalloc_sparse_alloc segs;
     Some (ids @ [uid], segs)
   }"

lemma segment_sizes: "MAX_IDS_PER_SEGMENT = 4194304" "MAX_ELEMS_PER_SEGMENT = 131072"
proof -
  have "BITFIELD64_BIT 32 = 4294967296" by (simp add: BITFIELD64_BIT_def)
  then show ids: "MAX_IDS_PER_SEGMENT = 4194304"
    by (simp add: MAX_IDS_PER_SEGMENT_def NUM_SEGMENTS_def)
  show "MAX_ELEMS_PER_SEGMENT = 131072" by (simp add: MAX_ELEMS_PER_SEGMENT_def ids)
qed

lemma sparse_alloc_hd:
  assumes "lowest_free_idx s < 131072" "util_idalloc_alloc s = Some (uid, s')"
  shows "util_idalloc_sparse_alloc (s # segs) = Some (uid, s' # segs)"
proof -
  have "find (\<lambda>i. lowest_free_idx ((s # segs) ! i) < MAX_ELEMS_PER_SEGMENT) [0..<length (s # segs)] = Some 0"
    using assms(1) unfolding find_upt_Some by (simp add: segment_sizes)
  then show ?thesis using assms(2) by (simp add: util_idalloc_sparse_alloc_def)
qed

lemma filled_low: "filled m s \<Longrightarrow> m \<le> 2 ^ 22 \<Longrightarrow> lowest_free_idx s < 131072"
  by (auto simp: filled_def word_less_nat_alt)

lemma sparse_run_filled:
  assumes "m \<le> 2 ^ 22"
  shows "\<exists>ids s. sparse_run m (util_idalloc_init 1 # segs) = Some (ids, s # segs) \<and> filled m s"
  using assms
proof (induction m)
  case 0
  then show ?case using filled_0 by simp
next
  case (Suc m)
  then obtain ids s where s: "sparse_run m (util_idalloc_init 1 # segs) = Some (ids, s # segs)" "filled m s"
    by auto
  obtain s' where "util_idalloc_alloc s = Some (of_nat m, s')" "filled (Suc m) s'"
    using filled_Suc [OF s(2)] Suc.prems by auto
  then show ?case using s sparse_alloc_hd [of s "of_nat m" s' segs] filled_low [OF s(2)] Suc.prems by auto
qed

lemma sparse_alloc_second:
  assumes "\<not> lowest_free_idx s < 131072" "lowest_free_idx t < 131072" "util_idalloc_alloc t = Some (uid, t')"
  shows "util_idalloc_sparse_alloc (s # t # segs) = Some (4194304 + uid, s # t' # segs)"
proof -
  have "find (\<lambda>i. lowest_free_idx ((s # t # segs) ! i) < MAX_ELEMS_PER_SEGMENT) [0..<length (s # t # segs)] = Some 1"
    using assms unfolding find_upt_Some by (simp add: segment_sizes)
  then show ?thesis using assms(3) by (simp add: util_idalloc_sparse_alloc_def segment_sizes)
qed

section \<open>Properties\<close>

text \<open>C22. The bitmap allocator implements the specification "hand out the least id that is not in
  use": an allocation always succeeds while the bitmap may double within 32-bit ids, returns that
  id and marks it, and the invariant (the hint below the first free element, nothing set at or
  above \<open>num_set_elements\<close>) is kept.\<close>

theorem idalloc_alloc_least:
  assumes "idalloc_ok buf" "idalloc_room buf"
  shows "\<exists>uid buf'. util_idalloc_alloc buf = Some (uid, buf') \<and> idalloc_ok buf' \<and>
    unat uid = (LEAST n. n \<notin> idalloc_used buf) \<and> unat uid \<notin> idalloc_used buf \<and>
    idalloc_used buf' = insert (unat uid) (idalloc_used buf)"
  by (rule idalloc_alloc [OF assms])

definition idalloc_example :: util_idalloc where
  "idalloc_example = \<lparr>idata = [0xffffffff, 7, 0, 0], num_set_elements = 2, lowest_free_idx = 1\<rparr>"

lemma idalloc_example_ok: "idalloc_ok idalloc_example" "idalloc_room idalloc_example"
proof -
  have "[0xffffffff, 7, 0, 0 :: u32] ! i = 0" if "i < 4" "2 \<le> i" for i
  proof -
    have "i = 2 \<or> i = 3" using that by linarith
    then show ?thesis by auto
  qed
  then show "idalloc_ok idalloc_example" by (simp add: idalloc_ok_def idalloc_example_def)
  show "idalloc_room idalloc_example" by (simp add: idalloc_room_def idalloc_example_def)
qed

theorem idalloc_alloc_least_witness:
  "\<exists>buf'. util_idalloc_alloc idalloc_example = Some (35, buf') \<and> idalloc_ok buf' \<and>
     35 = (LEAST n. n \<notin> idalloc_used idalloc_example)"
proof -
  have "map_option fst (util_idalloc_alloc idalloc_example) = Some 35" by code_simp
  then show ?thesis using idalloc_alloc_least [OF idalloc_example_ok] by auto
qed

text \<open>C23. A range allocation always finds or makes room: the search loop ends, and the ids of the
  result are consecutive, were all free, and are exactly the ids that become used.\<close>

theorem idalloc_range_fresh:
  assumes "idalloc_ok buf" "2 * length (idata buf) + (unat num + 31) div 32 < 2 ^ 27"
  shows "\<exists>uid buf'. util_idalloc_alloc_range buf num = Some (uid, buf') \<and> idalloc_ok buf' \<and>
    idalloc_used buf \<inter> {unat uid..<unat uid + unat num} = {} \<and>
    idalloc_used buf' = idalloc_used buf \<union> {unat uid..<unat uid + unat num}"
  by (rule idalloc_alloc_range [OF assms])

theorem idalloc_range_fresh_witness:
  "\<exists>buf'. util_idalloc_alloc_range idalloc_example 40 = Some (64, buf') \<and>
     idalloc_used buf' = idalloc_used idalloc_example \<union> {64..<104}"
proof -
  have "map_option fst (util_idalloc_alloc_range idalloc_example 40) = Some 64" by code_simp
  moreover have "2 * length (idata idalloc_example) + (unat (40 :: u32) + 31) div 32 < 2 ^ 27"
    by (simp add: idalloc_example_def)
  ultimately show ?thesis using idalloc_range_fresh [OF idalloc_example_ok(1), of 40] by auto
qed

text \<open>C24. Freeing an id removes exactly that id from the set of ids in use (nothing, if it is
  outside the bitmap), reserving one adds exactly that id, and iterating visits exactly the ids
  in use in increasing order; the invariant is kept.\<close>

theorem idalloc_free_reserve_foreach:
  assumes "idalloc_ok buf" "unat uid div 32 < 2 ^ 26"
  shows "idalloc_ok (util_idalloc_free buf uid) \<and>
    util_idalloc_foreach (util_idalloc_free buf uid) = sorted_list_of_set (idalloc_used buf - {unat uid}) \<and>
    (\<exists>buf'. util_idalloc_reserve buf uid = Some buf' \<and> idalloc_ok buf' \<and>
       util_idalloc_foreach buf' = sorted_list_of_set (insert (unat uid) (idalloc_used buf)))"
proof -
  obtain buf' where "util_idalloc_reserve buf uid = Some buf'" "idalloc_ok buf'"
    "idalloc_used buf' = insert (unat uid) (idalloc_used buf)"
    using idalloc_reserve [OF assms(1), of uid] assms(2) by blast
  then show ?thesis
    using idalloc_free [OF assms(1)] foreach_sorted [of buf'] foreach_sorted [of "util_idalloc_free buf uid"]
    by simp
qed

theorem idalloc_free_reserve_foreach_witness:
  "idalloc_ok (util_idalloc_free idalloc_example 33) \<and>
   util_idalloc_foreach (util_idalloc_free idalloc_example 33) =
     sorted_list_of_set (idalloc_used idalloc_example - {33})"
  using idalloc_free_reserve_foreach [OF idalloc_example_ok(1), of 33] by simp

text \<open>C9. In every run of the thread-safe allocator the ids its clients hold are pairwise
  different, zero is not among them when it was initialised to skip zero, and while there is
  room the next allocation succeeds with an id that nobody holds.\<close>

theorem mt_ids_unique:
  assumes "mt_run mt live"
  shows "distinct live \<and> (skip_zero mt \<longrightarrow> 0 \<notin> set live) \<and>
    (idalloc_room (mt_buf mt) \<longrightarrow> (\<exists>i mt'. util_idalloc_mt_alloc mt = Some (i, mt') \<and> i \<notin> set live))"
proof -
  have led: "mt_ok mt" "distinct live" "unat ` set live \<subseteq> mt_used mt"
    using mt_run_ledger [OF assms] by (auto simp: idmt.ledger_def)
  have "0 \<notin> set live" if "skip_zero mt"
    using that led(3) by (auto simp: mt_used_def image_subset_iff dest!: bspec)
  moreover have "\<exists>i mt'. util_idalloc_mt_alloc mt = Some (i, mt') \<and> i \<notin> set live"
    if "idalloc_room (mt_buf mt)" using idmt.take_law [OF led(1) that] led(3) by blast
  ultimately show ?thesis using led(2) by blast
qed

theorem mt_ids_unique_witness:
  "\<exists>mt. mt_run mt [2, 1] \<and> skip_zero mt \<and> distinct [2, 1 :: u32] \<and> (0 :: u32) \<notin> set [2, 1]"
proof -
  define m0 where "m0 = \<lparr>mt_buf = \<lparr>idata = [1], num_set_elements = 1, lowest_free_idx = 0\<rparr>, skip_zero = True\<rparr>"
  define m1 where "m1 = \<lparr>mt_buf = \<lparr>idata = [3], num_set_elements = 1, lowest_free_idx = 0\<rparr>, skip_zero = True\<rparr>"
  define m2 where "m2 = \<lparr>mt_buf = \<lparr>idata = [7], num_set_elements = 1, lowest_free_idx = 0\<rparr>, skip_zero = True\<rparr>"
  have "util_idalloc_mt_init 32 True = Some m0" unfolding m0_def by code_simp
  then have "mt_run m0 []" by (rule mt_run.init) simp
  moreover have "util_idalloc_mt_alloc m0 = Some (1, m1)" unfolding m0_def m1_def by code_simp
  moreover have "idalloc_room (mt_buf m0)" by (simp add: m0_def idalloc_room_def)
  ultimately have "mt_run m1 [1]" using mt_run.alloc by blast
  moreover have "util_idalloc_mt_alloc m1 = Some (2, m2)" unfolding m2_def m1_def by code_simp
  moreover have "idalloc_room (mt_buf m1)" by (simp add: m1_def idalloc_room_def)
  ultimately have "mt_run m2 [2, 1]" using mt_run.alloc by blast
  then show ?thesis using mt_ids_unique [of m2 "[2, 1]"] by (auto simp: m2_def)
qed

text \<open>C37. The segmented allocator hands out an id twice: once the 4194304 ids of the first segment
  are in use, the hint still points at the last element, so one more id is taken from the segment,
  the first id of the second segment, which the second segment then hands out again.\<close>

theorem sparse_alloc_repeats_id:
  "\<exists>ids segs. sparse_run (2 ^ 22 + 2) util_idalloc_sparse_init = Some (ids, segs) \<and> \<not> distinct ids"
proof -
  define rest where "rest = replicate 1022 (util_idalloc_init 1)"
  define t where "t = util_idalloc_init 1"
  define M :: nat where "M = 2 ^ 22"
  have "replicate (Suc (Suc 1022)) t = t # t # replicate 1022 t" by (simp only: replicate_Suc)
  then have init: "util_idalloc_sparse_init = t # t # rest"
    by (simp add: util_idalloc_sparse_init_def NUM_SEGMENTS_def rest_def t_def)
  obtain ids s where s: "sparse_run M (t # t # rest) = Some (ids, s # t # rest)" "filled M s"
    using sparse_run_filled [of M "t # rest"] by (auto simp: M_def t_def)
  obtain s1 where s1: "util_idalloc_alloc s = Some (of_nat M, s1)" "unat (lowest_free_idx s1) = M div 32"
    using filled_Suc [OF s(2)] by (auto simp: M_def)
  have a1: "util_idalloc_sparse_alloc (s # t # rest) = Some (of_nat M, s1 # t # rest)"
    using sparse_alloc_hd [OF filled_low [OF s(2)] s1(1)] by (simp add: M_def)
  have low: "\<not> lowest_free_idx s1 < 131072" using s1(2) by (simp add: word_less_nat_alt M_def)
  obtain t1 where t1: "util_idalloc_alloc t = Some (0, t1)"
    using filled_Suc [OF filled_0] by (auto simp: t_def)
  have a2: "util_idalloc_sparse_alloc (s1 # t # rest) = Some (of_nat M, s1 # t1 # rest)"
    using sparse_alloc_second [OF low _ t1] filled_low [OF filled_0] by (simp add: t_def M_def)
  have run: "sparse_run (Suc (Suc M)) (t # t # rest) = Some (ids @ [of_nat M, of_nat M], s1 # t1 # rest)"
    using s(1) a1 a2 by simp
  have "(2 ^ 22 + 2 :: nat) = Suc (Suc M)" by (simp add: M_def)
  then show ?thesis unfolding init by (intro exI conjI) (simp only: run, simp)
qed

end
