(* ===== verification/Sync_Timeline.thy ===== *)
theory Sync_Timeline
  imports Radv_Prelude "HOL-Library.Monad_Syntax"
begin

text \<open>
  The emulation of timeline semaphores on top of binary synchronisation objects,
  \<open>src/src/vulkan/runtime/vk_sync_timeline.c\<close>.

  The points live in an explicit store, since a point is shared by the list of pending points,
  the clients that hold a reference and the threads that wait for it. Every section of the code
  that runs under the mutex is one atomic operation on the timeline's state. \<open>vk_sync_timeline_wait\<close>
  drops the mutex while it waits for a point, so it is cut there into a beginning and a
  resumption; the step relation \<open>tl_step\<close> interleaves all operations of any number of threads. The whole
  wait is a function of the wake-ups the thread sees, and \<open>wakes_from\<close> are those that some interleaving
  with the other threads shows it.

  The binary synchronisation objects are outside code: what waiting for the object of a point
  returns, and what initialising or resetting one returns, are parameters. Following a pointer
  that is not in the store, or the first entry of an empty list, is undefined (\<open>None\<close>).
\<close>

section \<open>State\<close>

record vk_sync_timeline_point =
  pt_value :: u64
  pt_refcount :: int
  pt_pending :: bool

record vk_sync_timeline_state =
  highest_past :: u64
  highest_pending :: u64
  st_refcount :: u32
  pending_points :: "u64 list"
  free_points :: "u64 list"
  point_store :: "u64 \<rightharpoonup> vk_sync_timeline_point"
  st_freed :: bool

text \<open>What the binary synchronisation objects answer.\<close>

record point_sync =
  sync_wait :: "u64 \<Rightarrow> VkResult"
  sync_init :: VkResult
  sync_reset :: "u64 \<Rightarrow> VkResult"
  has_reset :: bool

section \<open>References\<close>

definition vk_sync_timeline_state_ref :: "vk_sync_timeline_state \<Rightarrow> vk_sync_timeline_state" where
  "vk_sync_timeline_state_ref st = st\<lparr>st_refcount := st_refcount st + 1\<rparr>"

definition vk_sync_timeline_state_unref :: "vk_sync_timeline_state \<Rightarrow> vk_sync_timeline_state" where
  "vk_sync_timeline_state_unref st =
     (let st = st\<lparr>st_refcount := st_refcount st - 1\<rparr>
      in if st_refcount st \<noteq> 0 then st
         else st\<lparr>point_store := point_store st |` (- set (free_points st @ pending_points st)),
                 free_points := [], pending_points := [], st_freed := True\<rparr>)"

definition vk_sync_timeline_init ::
  "u64 \<Rightarrow> bool \<Rightarrow> bool \<Rightarrow> u64 \<Rightarrow> VkResult + vk_sync_timeline_state" where
  "vk_sync_timeline_init zalloc mtx_ok cnd_ok initial_value =
     (if zalloc = 0 then Inl VK_ERROR_OUT_OF_HOST_MEMORY
      else if \<not> mtx_ok then Inl VK_ERROR_UNKNOWN
      else if \<not> cnd_ok then Inl VK_ERROR_UNKNOWN
      else Inr \<lparr>highest_past = initial_value, highest_pending = initial_value, st_refcount = 1,
                pending_points = [], free_points = [], point_store = Map.empty, st_freed = False\<rparr>)"

definition vk_sync_timeline_first_point :: "vk_sync_timeline_state \<Rightarrow> u64 option" where
  "vk_sync_timeline_first_point st =
     (case pending_points st of [] \<Rightarrow> None | p # ps \<Rightarrow> Some p)"

definition vk_sync_timeline_ref_point_locked ::
  "vk_sync_timeline_state \<Rightarrow> u64 \<Rightarrow> vk_sync_timeline_state option" where
  "vk_sync_timeline_ref_point_locked st p = do {
     pt \<leftarrow> point_store st p;
     Some (st\<lparr>point_store := (point_store st)(p \<mapsto> pt\<lparr>pt_refcount := pt_refcount pt + 1\<rparr>)\<rparr>)
   }"

text \<open>The first component tells whether this was the last reference to the point.\<close>

definition vk_sync_timeline_unref_point_no_unref_state_locked ::
  "vk_sync_timeline_state \<Rightarrow> u64 \<Rightarrow> (bool \<times> vk_sync_timeline_state) option" where
  "vk_sync_timeline_unref_point_no_unref_state_locked st p = do {
     pt \<leftarrow> point_store st p;
     let pt = pt\<lparr>pt_refcount := pt_refcount pt - 1\<rparr>;
     let st = st\<lparr>point_store := (point_store st)(p \<mapsto> pt)\<rparr>;
     Some (if pt_refcount pt > 0 then (False, st)
           else (True, st\<lparr>free_points := p # free_points st\<rparr>))
   }"

definition vk_sync_timeline_unref_point_locked ::
  "vk_sync_timeline_state \<Rightarrow> u64 \<Rightarrow> vk_sync_timeline_state option" where
  "vk_sync_timeline_unref_point_locked st p = do {
     (last_ref, st) \<leftarrow> vk_sync_timeline_unref_point_no_unref_state_locked st p;
     Some (if last_ref then vk_sync_timeline_state_unref st else st)
   }"

definition vk_sync_timeline_point_unref ::
  "vk_sync_timeline_state \<Rightarrow> u64 \<Rightarrow> vk_sync_timeline_state option" where
  "vk_sync_timeline_point_unref st p = do {
     (last_ref, st) \<leftarrow> vk_sync_timeline_unref_point_no_unref_state_locked st p;
     Some (if last_ref then vk_sync_timeline_state_unref st else st)
   }"

section \<open>Completing points\<close>

definition vk_sync_timeline_complete_point_locked ::
  "vk_sync_timeline_state \<Rightarrow> u64 \<Rightarrow> vk_sync_timeline_state option" where
  "vk_sync_timeline_complete_point_locked st p = do {
     pt \<leftarrow> point_store st p;
     (if \<not> pt_pending pt then Some st
      else vk_sync_timeline_unref_point_locked
        (st\<lparr>highest_past := pt_value pt,
            point_store := (point_store st)(p \<mapsto> pt\<lparr>pt_pending := False\<rparr>),
            pending_points := filter (\<lambda>q. q \<noteq> p) (pending_points st)\<rparr>) p)
   }"

text \<open>\<open>vk_sync_timeline_gc_locked\<close>: the loop over the pending points. The loop removes at most the
  point it is at, so it walks the list as it was at the start.\<close>

fun gc_loop ::
  "point_sync \<Rightarrow> bool \<Rightarrow> vk_sync_timeline_state \<Rightarrow> u64 list \<Rightarrow> (VkResult \<times> vk_sync_timeline_state) option" where
  "gc_loop sync drain st [] = Some (VK_SUCCESS, st)"
| "gc_loop sync drain st (p # ps) = do {
     pt \<leftarrow> point_store st p;
     (if pt_value pt > highest_pending st then Some (VK_SUCCESS, st)
      else if pt_refcount pt > 1 \<and> \<not> drain then Some (VK_SUCCESS, st)
      else if sync_wait sync p = VK_TIMEOUT then Some (VK_SUCCESS, st)
      else if sync_wait sync p \<noteq> VK_SUCCESS then Some (sync_wait sync p, st)
      else do {
        st \<leftarrow> vk_sync_timeline_complete_point_locked st p;
        gc_loop sync drain st ps
      })
   }"

definition vk_sync_timeline_gc_locked ::
  "point_sync \<Rightarrow> vk_sync_timeline_state \<Rightarrow> bool \<Rightarrow> (VkResult \<times> vk_sync_timeline_state) option" where
  "vk_sync_timeline_gc_locked sync st drain = gc_loop sync drain st (pending_points st)"

definition vk_sync_timeline_finish ::
  "point_sync \<Rightarrow> vk_sync_timeline_state \<Rightarrow> vk_sync_timeline_state option" where
  "vk_sync_timeline_finish sync st = do {
     (result, st) \<leftarrow> vk_sync_timeline_gc_locked sync st True;
     Some (vk_sync_timeline_state_unref st)
   }"

section \<open>Points\<close>

text \<open>\<open>vk_sync_timeline_alloc_point\<close>: \<open>zalloc\<close> is the address the allocator returns for a new point.\<close>

definition alloc_new_point ::
  "point_sync \<Rightarrow> u64 \<Rightarrow> vk_sync_timeline_state \<Rightarrow> VkResult + (u64 \<times> vk_sync_timeline_state)" where
  "alloc_new_point sync zalloc st =
     (if zalloc = 0 then Inl VK_ERROR_OUT_OF_HOST_MEMORY
      else if sync_init sync \<noteq> VK_SUCCESS then Inl (sync_init sync)
      else Inr (zalloc, st\<lparr>point_store := (point_store st)(zalloc \<mapsto>
             \<lparr>pt_value = 0, pt_refcount = 0, pt_pending = False\<rparr>)\<rparr>))"

definition vk_sync_timeline_alloc_point_locked ::
  "point_sync \<Rightarrow> u64 \<Rightarrow> vk_sync_timeline_state \<Rightarrow> u64 \<Rightarrow>
   (VkResult \<times> vk_sync_timeline_state \<times> u64 option) option" where
  "vk_sync_timeline_alloc_point_locked sync zalloc st value = do {
     (result, st) \<leftarrow> vk_sync_timeline_gc_locked sync st False;
     (if result \<noteq> VK_SUCCESS then Some (result, st, None)
      else
        let got = (case free_points st of
             [] \<Rightarrow> alloc_new_point sync zalloc st
           | p # ps \<Rightarrow>
               if has_reset sync \<and> sync_reset sync p \<noteq> VK_SUCCESS then Inl (sync_reset sync p)
               else Inr (p, st\<lparr>free_points := ps\<rparr>))
        in case got of
             Inl e \<Rightarrow> Some (e, st, None)
           | Inr (p, st) \<Rightarrow> do {
               pt \<leftarrow> point_store st p;
               let st = st\<lparr>point_store := (point_store st)(p \<mapsto>
                 pt\<lparr>pt_value := value, pt_refcount := pt_refcount pt + 1\<rparr>)\<rparr>;
               Some (VK_SUCCESS, vk_sync_timeline_state_ref st, Some p)
             })
   }"

definition vk_sync_timeline_point_install ::
  "bool \<Rightarrow> vk_sync_timeline_state \<Rightarrow> u64 \<Rightarrow> (VkResult \<times> vk_sync_timeline_state) option" where
  "vk_sync_timeline_point_install broadcast_ok st p = do {
     pt \<leftarrow> point_store st p;
     let st = st\<lparr>highest_pending := pt_value pt,
       point_store := (point_store st)(p \<mapsto> pt\<lparr>pt_pending := True\<rparr>),
       pending_points := pending_points st @ [p]\<rparr>;
     Some (if broadcast_ok then VK_SUCCESS else VK_ERROR_UNKNOWN, st)
   }"

fun find_point :: "vk_sync_timeline_state \<Rightarrow> u64 \<Rightarrow> u64 list \<Rightarrow> u64 option option" where
  "find_point st wait_value [] = Some None"
| "find_point st wait_value (p # ps) = do {
     pt \<leftarrow> point_store st p;
     (if pt_value pt \<ge> wait_value then Some (Some p) else find_point st wait_value ps)
   }"

definition vk_sync_timeline_get_point_locked ::
  "vk_sync_timeline_state \<Rightarrow> u64 \<Rightarrow> (VkResult \<times> vk_sync_timeline_state \<times> u64 option) option" where
  "vk_sync_timeline_get_point_locked st wait_value =
     (if highest_past st \<ge> wait_value then Some (VK_SUCCESS, st, None)
      else do {
        found \<leftarrow> find_point st wait_value (pending_points st);
        (case found of
           None \<Rightarrow> Some (VK_NOT_READY, st, None)
         | Some p \<Rightarrow> do {
             st \<leftarrow> vk_sync_timeline_ref_point_locked st p;
             Some (VK_SUCCESS, st, Some p)
           })
      })"

section \<open>Signalling, reading and waiting\<close>

definition vk_sync_timeline_signal_locked ::
  "point_sync \<Rightarrow> bool \<Rightarrow> vk_sync_timeline_state \<Rightarrow> u64 \<Rightarrow> (VkResult \<times> vk_sync_timeline_state) option" where
  "vk_sync_timeline_signal_locked sync broadcast_ok st value = do {
     (result, st) \<leftarrow> vk_sync_timeline_gc_locked sync st True;
     Some (if result \<noteq> VK_SUCCESS then (result, st)
           else if value \<le> highest_past st then (VK_ERROR_DEVICE_LOST, st)
           else (if broadcast_ok then VK_SUCCESS else VK_ERROR_UNKNOWN,
                 st\<lparr>highest_pending := value, highest_past := value\<rparr>))
   }"

text \<open>\<open>vk_sync_timeline_get_value\<close> reads the value after it released the mutex; the model reads it
  in the state the collection left, the earliest the code can see.\<close>

definition vk_sync_timeline_get_value ::
  "point_sync \<Rightarrow> vk_sync_timeline_state \<Rightarrow> (vk_sync_timeline_state \<times> (VkResult + u64)) option" where
  "vk_sync_timeline_get_value sync st = do {
     (result, st) \<leftarrow> vk_sync_timeline_gc_locked sync st True;
     Some (st, if result \<noteq> VK_SUCCESS then Inl result else Inr (highest_past st))
   }"

text \<open>A waiting thread is done, or has to wait on the condition variable until a high enough
  value is pending, or waits for a point outside the mutex.\<close>

datatype wait_state =
    WaitDone VkResult
  | WaitCond
  | WaitPoint u64

text \<open>The head of the second loop of \<open>vk_sync_timeline_wait_locked\<close>, up to releasing the mutex.\<close>

definition wait_loop_head ::
  "vk_sync_timeline_state \<Rightarrow> u64 \<Rightarrow> (vk_sync_timeline_state \<times> wait_state) option" where
  "wait_loop_head st wait_value =
     (if highest_past st < wait_value then do {
        p \<leftarrow> vk_sync_timeline_first_point st;
        st \<leftarrow> vk_sync_timeline_ref_point_locked st p;
        Some (st, WaitPoint p)
      } else Some (st, WaitDone VK_SUCCESS))"

definition wait_begin ::
  "point_sync \<Rightarrow> bool \<Rightarrow> vk_sync_timeline_state \<Rightarrow> u64 \<Rightarrow> (vk_sync_timeline_state \<times> wait_state) option" where
  "wait_begin sync wait_pending st wait_value =
     (if highest_pending st < wait_value then Some (st, WaitCond)
      else if wait_pending then Some (st, WaitDone VK_SUCCESS)
      else do {
        (result, st) \<leftarrow> vk_sync_timeline_gc_locked sync st False;
        (if result \<noteq> VK_SUCCESS then Some (st, WaitDone result)
         else wait_loop_head st wait_value)
      })"

text \<open>The wait for point \<open>p\<close> returned \<open>result\<close> and the thread has the mutex again.\<close>

definition wait_resume ::
  "vk_sync_timeline_state \<Rightarrow> u64 \<Rightarrow> u64 \<Rightarrow> VkResult \<Rightarrow> (vk_sync_timeline_state \<times> wait_state) option" where
  "wait_resume st wait_value p result = do {
     st \<leftarrow> vk_sync_timeline_unref_point_locked st p;
     (if result \<noteq> VK_SUCCESS then Some (st, WaitDone result)
      else do {
        st \<leftarrow> vk_sync_timeline_complete_point_locked st p;
        wait_loop_head st wait_value
      })
   }"

text \<open>The thread releases the mutex each time it waits, on the condition variable or for a point, and
  other threads run until it has the mutex again. A wake-up is what it finds then: the state of
  the timeline and what the timed wait on the condition variable or the wait for the point
  returned. A collection follows a wait on the condition variable that succeeded; that wake-up has
  what the objects of the points answer when they are polled.\<close>

datatype cnd_result = Thrd_success | Thrd_timedout | Thrd_error

datatype wake =
    CondWake vk_sync_timeline_state cnd_result point_sync
  | PointWake vk_sync_timeline_state VkResult

text \<open>The thread goes through its wake-ups in order. It returns \<open>r\<close> when it ends as \<open>WaitDone r\<close>; otherwise it
  still waits after the last wake-up. A wake-up from the wait it is not in does not exist.\<close>

fun wait_wakes ::
  "bool \<Rightarrow> u64 \<Rightarrow> wake list \<Rightarrow> vk_sync_timeline_state \<times> wait_state \<Rightarrow>
   (vk_sync_timeline_state \<times> wait_state) option" where
  "wait_wakes wait_pending wait_value ks (st, WaitDone r) = Some (st, WaitDone r)"
| "wait_wakes wait_pending wait_value [] (st, w) = Some (st, w)"
| "wait_wakes wait_pending wait_value (CondWake st' ret polls # ks) (st, WaitCond) =
     (case ret of
        Thrd_timedout \<Rightarrow> Some (st', WaitDone VK_TIMEOUT)
      | Thrd_error \<Rightarrow> Some (st', WaitDone VK_ERROR_UNKNOWN)
      | Thrd_success \<Rightarrow> do {
          next \<leftarrow> wait_begin polls wait_pending st' wait_value;
          wait_wakes wait_pending wait_value ks next
        })"
| "wait_wakes wait_pending wait_value (PointWake st' result # ks) (st, WaitPoint p) = do {
     next \<leftarrow> wait_resume st' wait_value p result;
     wait_wakes wait_pending wait_value ks next
   }"
| "wait_wakes wait_pending wait_value (CondWake _ _ _ # ks) (st, WaitPoint p) = None"
| "wait_wakes wait_pending wait_value (PointWake _ _ # ks) (st, WaitCond) = None"

definition vk_sync_timeline_wait ::
  "point_sync \<Rightarrow> bool \<Rightarrow> wake list \<Rightarrow> vk_sync_timeline_state \<Rightarrow> u64 \<Rightarrow>
   (vk_sync_timeline_state \<times> wait_state) option" where
  "vk_sync_timeline_wait sync wait_pending ks st wait_value =
     (if wait_value = 0 then Some (st, WaitDone VK_SUCCESS)
      else do {
        next \<leftarrow> wait_begin sync wait_pending st wait_value;
        wait_wakes wait_pending wait_value ks next
      })"

section \<open>The invariant\<close>

text \<open>\<open>refs p\<close> is the number of references to the point \<open>p\<close> outside the timeline, in the hands of clients
  and waiting threads. The reference count of a point is that number plus one while it is
  pending; the free points are exactly those with count zero. The values of the pending points
  increase strictly between the highest past and the highest pending value. The timeline's own
  count is one more than the number of points in use.\<close>

definition point_ok :: "vk_sync_timeline_state \<Rightarrow> (u64 \<Rightarrow> nat) \<Rightarrow> u64 \<Rightarrow> bool" where
  "point_ok st refs p =
     (case point_store st p of
        None \<Rightarrow> refs p = 0 \<and> p \<notin> set (pending_points st) \<and> p \<notin> set (free_points st)
      | Some pt \<Rightarrow> pt_pending pt = (p \<in> set (pending_points st)) \<and>
          pt_refcount pt = int (refs p) + (if p \<in> set (pending_points st) then 1 else 0) \<and>
          (p \<in> set (free_points st) \<longleftrightarrow> pt_refcount pt = 0))"

definition pval :: "vk_sync_timeline_state \<Rightarrow> u64 \<Rightarrow> u64" where
  "pval st p = pt_value (the (point_store st p))"

definition values_ok :: "vk_sync_timeline_state \<Rightarrow> bool" where
  "values_ok st \<longleftrightarrow>
     sorted_wrt (<) (map (pval st) (pending_points st)) \<and>
     (\<forall>p\<in>set (pending_points st). highest_past st < pval st p) \<and>
     highest_pending st =
       (if pending_points st = [] then highest_past st else pval st (last (pending_points st)))"

definition busy_points :: "vk_sync_timeline_state \<Rightarrow> u64 set" where
  "busy_points st = dom (point_store st) - set (free_points st)"

definition tl_inv :: "vk_sync_timeline_state \<Rightarrow> (u64 \<Rightarrow> nat) \<Rightarrow> bool" where
  "tl_inv st refs \<longleftrightarrow>
     \<not> st_freed st \<and> distinct (pending_points st) \<and> distinct (free_points st) \<and>
     (\<forall>p. point_ok st refs p) \<and> values_ok st \<and> finite (dom (point_store st)) \<and>
     unat (st_refcount st) = 1 + card (busy_points st)"

lemma tl_invD:
  assumes "tl_inv st refs"
  shows "\<not> st_freed st" "distinct (pending_points st)" "distinct (free_points st)" "point_ok st refs p"
    "values_ok st" "finite (dom (point_store st))" "unat (st_refcount st) = 1 + card (busy_points st)"
  using assms by (simp_all add: tl_inv_def)

text \<open>What stays the same when references change: the lists of pending points, the two values and
  the value of every point.\<close>

definition same_values :: "vk_sync_timeline_state \<Rightarrow> vk_sync_timeline_state \<Rightarrow> bool" where
  "same_values st st' \<longleftrightarrow> (\<forall>q. map_option pt_value (point_store st' q) = map_option pt_value (point_store st q))"

definition same_timeline :: "vk_sync_timeline_state \<Rightarrow> vk_sync_timeline_state \<Rightarrow> bool" where
  "same_timeline st st' \<longleftrightarrow>
     pending_points st' = pending_points st \<and> highest_past st' = highest_past st \<and>
     highest_pending st' = highest_pending st \<and> same_values st st'"

lemma same_values_refl [simp]: "same_values st st" by (simp add: same_values_def)

lemma same_values_trans: "same_values a b \<Longrightarrow> same_values b c \<Longrightarrow> same_values a c"
  by (simp add: same_values_def)

lemma same_values_pval: "same_values st st' \<Longrightarrow> p \<in> dom (point_store st) \<Longrightarrow> pval st' p = pval st p"
proof -
  assume "same_values st st'" "p \<in> dom (point_store st)"
  then obtain x y where "point_store st p = Some x" "point_store st' p = Some y" "pt_value y = pt_value x"
    by (force simp: same_values_def dest: spec [of _ p])
  then show ?thesis by (simp add: pval_def)
qed

lemma same_values_dom: "same_values st st' \<Longrightarrow> dom (point_store st') = dom (point_store st)"
proof -
  assume "same_values st st'"
  then have "point_store st' p = None \<longleftrightarrow> point_store st p = None" for p
    by (metis map_option_is_None same_values_def)
  then show ?thesis by (auto simp: dom_def)
qed

lemma pending_stored: "tl_inv st refs \<Longrightarrow> p \<in> set (pending_points st) \<Longrightarrow> p \<in> dom (point_store st)"
  using tl_invD(4) [of st refs p] by (auto simp: point_ok_def split: option.splits)

lemma refs_stored: "tl_inv st refs \<Longrightarrow> 0 < refs p \<Longrightarrow> p \<in> dom (point_store st)"
  using tl_invD(4) [of st refs p] by (auto simp: point_ok_def split: option.splits)

lemma values_ok_cong:
  assumes "values_ok st" "same_timeline st st'" "set (pending_points st) \<subseteq> dom (point_store st)"
  shows "values_ok st'"
proof -
  have eq: "pval st' p = pval st p" if "p \<in> set (pending_points st)" for p
    using assms that by (intro same_values_pval) (auto simp: same_timeline_def)
  then have m: "map (pval st') (pending_points st) = map (pval st) (pending_points st)" by simp
  show ?thesis using assms(1,2) eq by (auto simp: values_ok_def same_timeline_def m)
qed

text \<open>Dropping a reference that someone holds.\<close>

lemma unref_point:
  assumes inv: "tl_inv st refs" and held: "0 < refs p"
  obtains st' where "vk_sync_timeline_unref_point_locked st p = Some st'"
    "tl_inv st' (refs(p := refs p - 1))" "same_timeline st st'"
proof -
  obtain pt where pt: "point_store st p = Some pt" using refs_stored [OF inv held] by blast
  have ok: "pt_pending pt = (p \<in> set (pending_points st))"
    "pt_refcount pt = int (refs p) + (if p \<in> set (pending_points st) then 1 else 0)"
    "p \<in> set (free_points st) \<longleftrightarrow> pt_refcount pt = 0"
    using tl_invD(4) [OF inv, of p] pt by (simp_all add: point_ok_def)
  define st1 where "st1 = st\<lparr>point_store := (point_store st)(p \<mapsto> pt\<lparr>pt_refcount := pt_refcount pt - 1\<rparr>)\<rparr>"
  have frame: "same_timeline st st1" using pt by (simp add: same_timeline_def same_values_def st1_def)
  have dom: "dom (point_store st1) = dom (point_store st)" using pt by (auto simp: st1_def)
  have vals: "values_ok st1"
    using pending_stored [OF inv] by (intro values_ok_cong [OF tl_invD(5) [OF inv] frame]) blast
  have other: "point_ok st1 (refs(p := refs p - 1)) q" if "q \<noteq> p" for q
    using tl_invD(4) [OF inv, of q] that
    by (cases "point_store st q") (simp_all add: point_ok_def st1_def)
  show ?thesis
  proof (cases "pt_refcount pt - 1 > 0")
    case True
    then have "vk_sync_timeline_unref_point_locked st p = Some st1"
      using pt by (simp add: vk_sync_timeline_unref_point_locked_def
          vk_sync_timeline_unref_point_no_unref_state_locked_def st1_def)
    moreover have "point_ok st1 (refs(p := refs p - 1)) p"
      using ok held True by (auto simp: point_ok_def st1_def)
    then have "\<forall>q. point_ok st1 (refs(p := refs p - 1)) q" using other by metis
    then have "tl_inv st1 (refs(p := refs p - 1))"
      using inv vals dom by (simp add: tl_inv_def busy_points_def) (simp add: st1_def)
    ultimately show ?thesis using that frame by blast
  next
    case False
    then have last: "refs p = 1" "p \<notin> set (pending_points st)" "pt_refcount pt = 1" "p \<notin> set (free_points st)"
      using ok held by (auto split: if_splits)
    define st2 where "st2 = st1\<lparr>free_points := p # free_points st, st_refcount := st_refcount st - 1\<rparr>"
    have busy: "busy_points st2 = busy_points st - {p}" "p \<in> busy_points st"
      using dom pt last by (auto simp: busy_points_def st2_def)
    have fin: "finite (busy_points st)" using tl_invD(6) [OF inv] by (simp add: busy_points_def)
    then have card: "0 < card (busy_points st)" "card (busy_points st2) = card (busy_points st) - 1"
      using busy by (auto simp: card_gt_0_iff)
    have count: "unat (st_refcount st - 1) = 1 + card (busy_points st2)"
      using unat_sub_no_wrap [of 1 "st_refcount st"] tl_invD(7) [OF inv] card by simp
    then have "st_refcount st - 1 \<noteq> 0" by auto
    then have "vk_sync_timeline_unref_point_locked st p = Some st2"
      using pt last by (simp add: vk_sync_timeline_unref_point_locked_def Let_def
          vk_sync_timeline_unref_point_no_unref_state_locked_def vk_sync_timeline_state_unref_def
          st1_def st2_def)
    moreover have frame2: "same_timeline st st2"
      using frame by (simp add: same_timeline_def same_values_def st2_def)
    have all: "\<forall>q. point_ok st2 (refs(p := refs p - 1)) q"
    proof
      fix q show "point_ok st2 (refs(p := refs p - 1)) q"
      using other [of q] ok last by (cases "q = p") (auto simp: point_ok_def st2_def st1_def split: option.splits)
    qed
    have "values_ok st2"
      using pending_stored [OF inv] by (intro values_ok_cong [OF tl_invD(5) [OF inv] frame2]) blast
    then have "tl_inv st2 (refs(p := refs p - 1))"
      using all inv count last dom by (simp add: tl_inv_def st2_def) (simp add: st1_def)
    ultimately show ?thesis using that frame2 by blast
  qed
qed

text \<open>Taking a reference to a point that is in use.\<close>

lemma ref_point:
  assumes inv: "tl_inv st refs" and busy: "p \<in> busy_points st"
  obtains st' where "vk_sync_timeline_ref_point_locked st p = Some st'"
    "tl_inv st' (refs(p := refs p + 1))" "same_timeline st st'" "free_points st' = free_points st"
proof -
  obtain pt where pt: "point_store st p = Some pt" "p \<notin> set (free_points st)"
    using busy by (auto simp: busy_points_def)
  have ok: "pt_pending pt = (p \<in> set (pending_points st))" "pt_refcount pt \<noteq> 0"
    "pt_refcount pt = int (refs p) + (if p \<in> set (pending_points st) then 1 else 0)"
    using tl_invD(4) [OF inv, of p] pt by (simp_all add: point_ok_def)
  define st1 where "st1 = st\<lparr>point_store := (point_store st)(p \<mapsto> pt\<lparr>pt_refcount := pt_refcount pt + 1\<rparr>)\<rparr>"
  have frame: "same_timeline st st1" using pt by (simp add: same_timeline_def same_values_def st1_def)
  have dom: "dom (point_store st1) = dom (point_store st)" using pt by (auto simp: st1_def)
  have vals: "values_ok st1"
    using pending_stored [OF inv] by (intro values_ok_cong [OF tl_invD(5) [OF inv] frame]) blast
  have "\<forall>q. point_ok st1 (refs(p := refs p + 1)) q"
  proof
    fix q show "point_ok st1 (refs(p := refs p + 1)) q"
      using tl_invD(4) [OF inv, of q] ok pt
      by (cases "q = p"; cases "point_store st q") (auto simp: point_ok_def st1_def)
  qed
  then have "tl_inv st1 (refs(p := refs p + 1))"
    using inv vals dom by (simp add: tl_inv_def busy_points_def) (simp add: st1_def)
  then show ?thesis
    using that frame pt by (simp add: vk_sync_timeline_ref_point_locked_def st1_def)
qed

lemma pending_busy: "tl_inv st refs \<Longrightarrow> p \<in> set (pending_points st) \<Longrightarrow> p \<in> busy_points st"
  using tl_invD(4) [of st refs p] by (auto simp: point_ok_def busy_points_def split: option.splits)

text \<open>Completing the first pending point.\<close>

lemma complete_head:
  assumes inv: "tl_inv st refs" and pend: "pending_points st = p # ps"
  obtains st' where "vk_sync_timeline_complete_point_locked st p = Some st'" "tl_inv st' refs"
    "pending_points st' = ps" "highest_past st' = pval st p" "highest_pending st' = highest_pending st"
    "same_values st st'"
proof -
  obtain pt where pt: "point_store st p = Some pt" using pending_stored [OF inv] pend by auto
  have ok: "pt_pending pt" "pt_refcount pt = int (refs p) + 1" "p \<notin> set (free_points st)" "p \<notin> set ps"
    using tl_invD(4) [OF inv, of p] tl_invD(2) [OF inv] pt pend by (auto simp: point_ok_def)
  define st1 where "st1 = st\<lparr>highest_past := pt_value pt,
      point_store := (point_store st)(p \<mapsto> pt\<lparr>pt_pending := False\<rparr>), pending_points := ps\<rparr>"
  have vals: "same_values st st1" using pt by (simp add: same_values_def st1_def)
  have dom: "dom (point_store st1) = dom (point_store st)" by (rule same_values_dom [OF vals])
  have pv: "pval st1 q = pval st q" if "q \<in> set (p # ps)" for q
    using pending_stored [OF inv] pend that by (intro same_values_pval [OF vals]) simp
  then have m: "map (pval st1) ps = map (pval st) ps" by simp
  have p: "pval st p = pt_value pt" using pt by (simp add: pval_def)
  have "values_ok st1"
    using tl_invD(5) [OF inv] pend p pv unfolding values_ok_def
    by (auto simp: m st1_def [THEN arg_cong [of _ _ pending_points]] st1_def [THEN arg_cong [of _ _ highest_past]]
        st1_def [THEN arg_cong [of _ _ highest_pending]])
  moreover have "\<forall>q. point_ok st1 (refs(p := refs p + 1)) q"
  proof
    fix q show "point_ok st1 (refs(p := refs p + 1)) q"
      using tl_invD(4) [OF inv, of q] ok pt pend
      by (cases "q = p"; cases "point_store st q") (auto simp: point_ok_def st1_def)
  qed
  ultimately have inv1: "tl_inv st1 (refs(p := refs p + 1))"
    using inv dom pend by (simp add: tl_inv_def busy_points_def) (simp add: st1_def)
  have "0 < (refs(p := refs p + 1)) p" by simp
  then obtain st' where st': "vk_sync_timeline_unref_point_locked st1 p = Some st'"
    "tl_inv st' ((refs(p := refs p + 1))(p := (refs(p := refs p + 1)) p - 1))" "same_timeline st1 st'"
    by (rule unref_point [OF inv1])
  have "filter (\<lambda>q. q \<noteq> p) (pending_points st) = ps"
    using ok(4) pend by (auto simp: filter_id_conv)
  then have "vk_sync_timeline_complete_point_locked st p = Some st'"
    using st'(1) pt ok by (simp add: vk_sync_timeline_complete_point_locked_def st1_def)
  moreover have "tl_inv st' refs" using st'(2) by simp
  moreover have "pending_points st' = ps" "highest_past st' = pval st p" "highest_pending st' = highest_pending st"
    using st'(3) p by (simp_all add: same_timeline_def st1_def)
  moreover have "same_values st st'"
    using st'(3) vals same_values_trans by (auto simp: same_timeline_def)
  ultimately show ?thesis using that by blast
qed

text \<open>What a collection does: it completes a prefix of the pending points, all of them signalled.\<close>

definition collected ::
  "u64 list \<Rightarrow> vk_sync_timeline_state \<Rightarrow> vk_sync_timeline_state \<Rightarrow> bool" where
  "collected ps st st' \<longleftrightarrow>
     pending_points st = ps @ pending_points st' \<and> highest_pending st' = highest_pending st \<and>
     same_values st st' \<and> highest_past st' = (if ps = [] then highest_past st else pval st (last ps))"

lemma collected_Nil [simp]: "collected [] st st" by (simp add: collected_def)

lemma sorted_last_le:
  assumes "sorted_wrt (<) (map f xs)" "x \<in> set xs"
  shows "f x \<le> (f (last xs) :: u64)"
  using assms
proof (induction xs)
  case (Cons a xs)
  show ?case
  proof (cases "xs = []")
    case False
    then have "f a \<le> f (last xs)" using Cons.prems(1) by (simp add: less_imp_le)
    then show ?thesis using Cons False by auto
  qed (use Cons.prems in simp)
qed simp

lemma pending_le_highest:
  assumes "tl_inv st refs" "p \<in> set (pending_points st)"
  shows "pval st p \<le> highest_pending st"
  using assms(2) tl_invD(5) [OF assms(1)] sorted_last_le [of "pval st" "pending_points st" p]
  by (cases "pending_points st = []") (auto simp: values_ok_def)

lemma gc_step:
  assumes "tl_inv st refs" "pending_points st = p # ps"
  obtains pt where "point_store st p = Some pt" "\<not> pt_value pt > highest_pending st" "pt_value pt = pval st p"
    "pt_refcount pt = int (refs p) + 1"
proof -
  obtain pt where pt: "point_store st p = Some pt" using pending_stored [OF assms(1)] assms(2) by auto
  moreover have "pval st p \<le> highest_pending st" using pending_le_highest [OF assms(1)] assms(2) by simp
  moreover have "pt_refcount pt = int (refs p) + 1"
    using tl_invD(4) [OF assms(1), of p] assms(2) pt by (simp add: point_ok_def)
  moreover have "pval st p = pt_value pt" using pt by (simp add: pval_def)
  ultimately show ?thesis by (intro that [OF pt]) (simp_all add: not_less)
qed

lemma gc_loop_spec:
  assumes "tl_inv st refs" "pending_points st = ps"
  shows "\<exists>r st' fin. gc_loop sync drain st ps = Some (r, st') \<and> tl_inv st' refs \<and> collected fin st st' \<and>
    (\<forall>p\<in>set fin. sync_wait sync p = VK_SUCCESS) \<and>
    (drain \<longrightarrow> r = VK_SUCCESS \<longrightarrow> pending_points st' \<noteq> [] \<longrightarrow> sync_wait sync (hd (pending_points st')) = VK_TIMEOUT) \<and>
    (r \<noteq> VK_SUCCESS \<longrightarrow> pending_points st' \<noteq> [] \<and> r = sync_wait sync (hd (pending_points st')) \<and> r \<noteq> VK_TIMEOUT)"
  using assms
proof (induction ps arbitrary: st)
  case Nil
  then show ?case by (auto intro!: exI [of _ "[]"])
next
  case (Cons p ps)
  obtain pt where pt: "point_store st p = Some pt" "\<not> pt_value pt > highest_pending st"
    by (rule gc_step [OF Cons.prems])
  show ?case
  proof (cases "(pt_refcount pt > 1 \<and> \<not> drain) \<or> sync_wait sync p \<noteq> VK_SUCCESS")
    case True
    then obtain r where "gc_loop sync drain st (p # ps) = Some (r, st)"
      "drain \<longrightarrow> r = VK_SUCCESS \<longrightarrow> sync_wait sync p = VK_TIMEOUT"
      "r \<noteq> VK_SUCCESS \<longrightarrow> r = sync_wait sync p \<and> r \<noteq> VK_TIMEOUT"
      using pt by (cases "pt_refcount pt > 1 \<and> \<not> drain"; cases "sync_wait sync p = VK_TIMEOUT") auto
    then show ?thesis using Cons.prems by (intro exI [of _ r] exI [of _ st] exI [of _ "[]"]) auto
  next
    case False
    obtain st1 where st1: "vk_sync_timeline_complete_point_locked st p = Some st1" "tl_inv st1 refs"
      "pending_points st1 = ps" "highest_past st1 = pval st p" "highest_pending st1 = highest_pending st"
      "same_values st st1" by (rule complete_head [OF Cons.prems])
    from Cons.IH [OF st1(2,3)] obtain r st' fin where IH: "gc_loop sync drain st1 ps = Some (r, st')"
      "tl_inv st' refs" "collected fin st1 st'" "\<forall>p\<in>set fin. sync_wait sync p = VK_SUCCESS"
      "drain \<longrightarrow> r = VK_SUCCESS \<longrightarrow> pending_points st' \<noteq> [] \<longrightarrow> sync_wait sync (hd (pending_points st')) = VK_TIMEOUT"
      "r \<noteq> VK_SUCCESS \<longrightarrow> pending_points st' \<noteq> [] \<and> r = sync_wait sync (hd (pending_points st')) \<and> r \<noteq> VK_TIMEOUT"
      by blast
    have "pval st1 (last fin) = pval st (last fin)" if "fin \<noteq> []"
    proof -
      have "last fin \<in> set (pending_points st)"
        using that IH(3) st1(3) Cons.prems(2) by (auto simp: collected_def)
      then show ?thesis
        using pending_stored [OF Cons.prems(1)] by (intro same_values_pval [OF st1(6)]) blast
    qed
    then have "collected (p # fin) st st'"
      using IH(3) st1 Cons.prems(2) same_values_trans [OF st1(6)] by (auto simp: collected_def)
    moreover have "gc_loop sync drain st (p # ps) = Some (r, st')"
      using False pt st1(1) IH(1) by auto
    ultimately show ?thesis
      using IH(2,4,5,6) False by (intro exI [of _ r] exI [of _ st'] exI [of _ "p # fin"]) auto
  qed
qed

lemma gc_spec:
  assumes "tl_inv st refs"
  obtains r st' fin where "vk_sync_timeline_gc_locked sync st drain = Some (r, st')" "tl_inv st' refs"
    "collected fin st st'" "\<forall>p\<in>set fin. sync_wait sync p = VK_SUCCESS"
    "drain \<Longrightarrow> r = VK_SUCCESS \<Longrightarrow> pending_points st' \<noteq> [] \<Longrightarrow> sync_wait sync (hd (pending_points st')) = VK_TIMEOUT"
    "r \<noteq> VK_SUCCESS \<Longrightarrow> pending_points st' \<noteq> [] \<and> r = sync_wait sync (hd (pending_points st')) \<and> r \<noteq> VK_TIMEOUT"
  using gc_loop_spec [OF assms refl, of sync drain] unfolding vk_sync_timeline_gc_locked_def by blast

lemma collected_past_mono:
  assumes "tl_inv st refs" "collected fin st st'"
  shows "highest_past st \<le> highest_past st'"
proof (cases "fin = []")
  case False
  then have "last fin \<in> set (pending_points st)" using assms(2) by (simp add: collected_def)
  then have "highest_past st < pval st (last fin)" using tl_invD(5) [OF assms(1)] by (simp add: values_ok_def)
  then show ?thesis using assms(2) False by (simp add: collected_def)
qed (use assms(2) in \<open>simp add: collected_def\<close>)

text \<open>How the pending points evolve: a pending point keeps its value until it is completed, then the past
  value is at least that value; a point that becomes pending has a value above all pending ones.\<close>

definition advances :: "vk_sync_timeline_state \<Rightarrow> vk_sync_timeline_state \<Rightarrow> bool" where
  "advances st st' \<longleftrightarrow>
     highest_past st \<le> highest_past st' \<and> highest_pending st \<le> highest_pending st' \<and>
     (\<forall>p\<in>set (pending_points st'). p \<in> set (pending_points st) \<and> pval st' p = pval st p \<or>
        highest_pending st < pval st' p) \<and>
     (\<forall>p\<in>set (pending_points st). p \<in> set (pending_points st') \<or> pval st p \<le> highest_past st')"

lemma advances_refl [simp]: "advances st st" by (simp add: advances_def)

lemma advances_trans:
  assumes "tl_inv a refs" and ab: "advances a b" and bc: "advances b c"
  shows "advances a c"
  unfolding advances_def
proof (intro conjI ballI)
  show "highest_past a \<le> highest_past c" "highest_pending a \<le> highest_pending c"
    using ab bc by (auto simp: advances_def intro: order_trans)
next
  fix p assume "p \<in> set (pending_points c)"
  then consider "p \<in> set (pending_points b)" "pval c p = pval b p" | "highest_pending b < pval c p"
    using bc by (auto simp: advances_def)
  then show "p \<in> set (pending_points a) \<and> pval c p = pval a p \<or> highest_pending a < pval c p"
    using ab by cases (auto simp: advances_def)
next
  fix p assume p: "p \<in> set (pending_points a)"
  consider "p \<in> set (pending_points b)" | "pval a p \<le> highest_past b" using ab p by (auto simp: advances_def)
  then show "p \<in> set (pending_points c) \<or> pval a p \<le> highest_past c"
  proof cases
    case 1
    have "pval a p \<le> pval b p" using ab 1 pending_le_highest [OF assms(1) p] by (auto simp: advances_def)
    then show ?thesis using bc 1 by (auto simp: advances_def)
  qed (use bc in \<open>auto simp: advances_def\<close>)
qed

lemma same_advances:
  assumes "tl_inv st refs" "same_timeline st st'"
  shows "advances st st'"
  using assms(2) pending_stored [OF assms(1)] by (auto simp: advances_def same_timeline_def intro!: same_values_pval)

lemma collected_advances:
  assumes inv: "tl_inv st refs" and col: "collected fin st st'"
  shows "advances st st'"
proof -
  have eqs: "pending_points st = fin @ pending_points st'" "highest_pending st' = highest_pending st" "same_values st st'"
    using col by (simp_all add: collected_def)
  have kept: "pval st' p = pval st p" if "p \<in> set (pending_points st')" for p
    using pending_stored [OF inv, of p] that eqs(1) by (intro same_values_pval [OF eqs(3)]) simp
  have gone: "pval st p \<le> highest_past st'" if "p \<in> set fin" for p
  proof -
    have "sorted_wrt (<) (map (pval st) fin)"
      using tl_invD(5) [OF inv] unfolding values_ok_def eqs(1) map_append sorted_wrt_append by blast
    then show ?thesis using sorted_last_le [of "pval st" fin p] that col by (auto simp: collected_def)
  qed
  show ?thesis unfolding advances_def using collected_past_mono [OF inv col] eqs(1,2) kept gone by auto
qed

subsection \<open>Allocating and installing points\<close>

text \<open>The part of \<open>vk_sync_timeline_alloc_point_locked\<close> after the point was found: \<open>p\<close> is in the store
  with no references and in none of the lists.\<close>

lemma take_point:
  assumes inv: "tl_inv st refs" and fin: "finite (dom (point_store st))" and refs: "refs p = 0"
    and pt: "pt_refcount pt = 0" "\<not> pt_pending pt"
    and p: "p \<notin> set (pending_points st)" "p \<notin> busy_points st"
    and st1: "st1 = st\<lparr>free_points := filter (\<lambda>q. q \<noteq> p) (free_points st),
      point_store := (point_store st)(p \<mapsto> pt\<lparr>pt_value := v, pt_refcount := pt_refcount pt + 1\<rparr>)\<rparr>"
    and room: "unat (st_refcount st) < 2 ^ 32 - 1"
  shows "tl_inv (vk_sync_timeline_state_ref st1) (refs(p := 1))"
proof -
  let ?s = "vk_sync_timeline_state_ref st1"
  have s: "pending_points ?s = pending_points st" "highest_past ?s = highest_past st"
    "highest_pending ?s = highest_pending st" "free_points ?s = filter (\<lambda>q. q \<noteq> p) (free_points st)"
    "st_freed ?s = st_freed st" "st_refcount ?s = st_refcount st + 1"
    "point_store ?s = (point_store st)(p \<mapsto> pt\<lparr>pt_value := v, pt_refcount := pt_refcount pt + 1\<rparr>)"
    by (simp_all add: st1 vk_sync_timeline_state_ref_def)
  have pv: "pval ?s q = pval st q" if "q \<in> set (pending_points st)" for q
    using that p by (auto simp: pval_def s)
  then have m: "map (pval ?s) (pending_points st) = map (pval st) (pending_points st)" by simp
  have "values_ok ?s"
    using tl_invD(5) [OF inv] pv by (auto simp: values_ok_def s m)
  moreover have "\<forall>q. point_ok ?s (refs(p := 1)) q"
  proof
    fix q show "point_ok ?s (refs(p := 1)) q"
      using tl_invD(4) [OF inv, of q] pt p
      by (cases "q = p"; cases "point_store st q") (auto simp: point_ok_def s)
  qed
  moreover have "busy_points ?s = insert p (busy_points st)" by (auto simp: busy_points_def s)
  then have "card (busy_points ?s) = Suc (card (busy_points st))"
    using p(2) fin by (simp add: busy_points_def)
  moreover have "unat (st_refcount st + 1) = unat (st_refcount st) + 1"
    using unat_add_no_wrap [of "st_refcount st" 1] room by simp
  ultimately show ?thesis
    using inv fin by (simp add: tl_inv_def s)
qed

text \<open>Fewer points than the 32-bit reference count of the timeline can hold.\<close>

definition points_room :: "vk_sync_timeline_state \<Rightarrow> bool" where
  "points_room st \<longleftrightarrow> card (dom (point_store st)) < 2 ^ 32 - 2"

lemma refcount_room:
  assumes "tl_inv st refs" "points_room st"
  shows "unat (st_refcount st) < 2 ^ 32 - 1"
proof -
  have "card (busy_points st) \<le> card (dom (point_store st))"
    using tl_invD(6) [OF assms(1)] by (intro card_mono) (auto simp: busy_points_def)
  then show ?thesis using tl_invD(7) [OF assms(1)] assms(2) by (simp add: points_room_def)
qed

lemma alloc_point:
  assumes inv: "tl_inv st refs" and z: "z \<notin> dom (point_store st)" and room: "points_room st"
  shows "\<exists>r st' po fin. vk_sync_timeline_alloc_point_locked sync z st v = Some (r, st', po) \<and>
    pending_points st = fin @ pending_points st' \<and> highest_pending st' = highest_pending st \<and>
    highest_past st \<le> highest_past st' \<and> advances st st' \<and>
    (case po of None \<Rightarrow> tl_inv st' refs
     | Some p \<Rightarrow> refs p = 0 \<and> p \<notin> set (pending_points st') \<and> pval st' p = v \<and> tl_inv st' (refs(p := 1)))"
proof -
  obtain r st1 fin where gc: "vk_sync_timeline_gc_locked sync st False = Some (r, st1)" "tl_inv st1 refs"
    "collected fin st st1" by (rule gc_spec [OF inv])
  have past: "highest_past st \<le> highest_past st1" by (rule collected_past_mono [OF inv gc(3)])
  have frame: "pending_points st = fin @ pending_points st1" "highest_pending st1 = highest_pending st"
    "dom (point_store st1) = dom (point_store st)"
    using gc(3) same_values_dom by (auto simp: collected_def)
  have adv: "advances st st1" by (rule collected_advances [OF inv gc(3)])
  have adv': "advances st st'" if "pending_points st' = pending_points st1" "highest_past st' = highest_past st1"
      "highest_pending st' = highest_pending st1" "\<forall>q\<in>set (pending_points st1). point_store st' q = point_store st1 q" for st'
    using adv that by (auto simp: advances_def pval_def)
  have room1: "unat (st_refcount st1) < 2 ^ 32 - 1"
    using room frame(3) by (intro refcount_room [OF gc(2)]) (simp add: points_room_def)
  note take = take_point [OF gc(2) tl_invD(6) [OF gc(2)] _ _ _ _ _ refl room1]
  note alloc = vk_sync_timeline_alloc_point_locked_def alloc_new_point_def
  show ?thesis
  proof (cases "r = VK_SUCCESS")
    case False
    then show ?thesis using gc frame past adv by (simp add: alloc)
  next
    case ok: True
    show ?thesis
    proof (cases "free_points st1")
      case Nil
      have "point_store st1 z = None" using z frame(3) by blast
      then have "refs z = 0" "z \<notin> set (pending_points st1)" "z \<notin> busy_points st1"
        using tl_invD(4) [OF gc(2), of z] by (auto simp: point_ok_def busy_points_def)
      then have "tl_inv (vk_sync_timeline_state_ref (st1\<lparr>free_points := filter (\<lambda>q. q \<noteq> z) (free_points st1),
          point_store := (point_store st1)(z \<mapsto> \<lparr>pt_value = 0, pt_refcount = 0, pt_pending = False\<rparr>
            \<lparr>pt_value := v, pt_refcount := pt_refcount \<lparr>pt_value = 0, pt_refcount = 0, pt_pending = False\<rparr> + 1\<rparr>)\<rparr>))
          (refs(z := 1))"
        by (intro take) simp_all
      moreover have "st1\<lparr>free_points := filter (\<lambda>q. q \<noteq> z) (free_points st1)\<rparr> = st1" using Nil by (cases st1) simp
      ultimately have "tl_inv (vk_sync_timeline_state_ref (st1\<lparr>point_store := (point_store st1)(z \<mapsto>
          \<lparr>pt_value = v, pt_refcount = 1, pt_pending = False\<rparr>)\<rparr>)) (refs(z := 1))" by simp
      then show ?thesis
        using Nil ok gc frame past \<open>refs z = 0\<close> \<open>z \<notin> set (pending_points st1)\<close>
        by (auto simp: alloc Let_def vk_sync_timeline_state_ref_def pval_def intro!: adv')
    next
      case (Cons p ps)
      obtain pt where pt: "point_store st1 p = Some pt" "pt_refcount pt = 0" "\<not> pt_pending pt" "refs p = 0"
        "p \<notin> set (pending_points st1)"
        using tl_invD(4) [OF gc(2), of p] Cons by (auto simp: point_ok_def split: option.splits if_splits)
      have ps: "filter (\<lambda>q. q \<noteq> p) (free_points st1) = ps"
        using tl_invD(3) [OF gc(2)] Cons by (auto simp: filter_id_conv)
      have "p \<notin> busy_points st1" using Cons by (simp add: busy_points_def)
      then have "tl_inv (vk_sync_timeline_state_ref (st1\<lparr>free_points := ps,
          point_store := (point_store st1)(p \<mapsto> pt\<lparr>pt_value := v, pt_refcount := pt_refcount pt + 1\<rparr>)\<rparr>))
          (refs(p := 1))"
        using take [of p pt v] pt ps by simp
      then show ?thesis
        using Cons ok gc frame past pt
        by (auto simp: alloc Let_def vk_sync_timeline_state_ref_def pval_def intro!: adv')
    qed
  qed
qed

lemma install_point:
  assumes inv: "tl_inv st refs" and refs: "refs p = 1" and p: "p \<notin> set (pending_points st)"
    and contract: "highest_pending st < pval st p"
  shows "\<exists>r st'. vk_sync_timeline_point_install b st p = Some (r, st') \<and> tl_inv st' (refs(p := 0)) \<and>
    pending_points st' = pending_points st @ [p] \<and> highest_past st' = highest_past st \<and>
    highest_pending st' = pval st p"
proof -
  obtain pt where pt: "point_store st p = Some pt" using refs_stored [OF inv, of p] refs by auto
  have ok: "pt_refcount pt = 1" "p \<notin> set (free_points st)"
    using tl_invD(4) [OF inv, of p] pt refs p by (auto simp: point_ok_def)
  define st1 where "st1 = st\<lparr>highest_pending := pt_value pt,
    point_store := (point_store st)(p \<mapsto> pt\<lparr>pt_pending := True\<rparr>), pending_points := pending_points st @ [p]\<rparr>"
  have s: "pending_points st1 = pending_points st @ [p]" "highest_past st1 = highest_past st"
    "highest_pending st1 = pt_value pt" "free_points st1 = free_points st" "st_freed st1 = st_freed st"
    "st_refcount st1 = st_refcount st" "point_store st1 = (point_store st)(p \<mapsto> pt\<lparr>pt_pending := True\<rparr>)"
    by (simp_all add: st1_def)
  have pv: "pval st1 q = pval st q" for q using pt by (simp add: pval_def s)
  have p': "pval st p = pt_value pt" using pt by (simp add: pval_def)
  have le: "pval st q < pt_value pt" if "q \<in> set (pending_points st)" for q
    using pending_le_highest [OF inv that] contract p' by simp
  have past: "highest_past st < pt_value pt"
  proof (cases "pending_points st = []")
    case True
    then show ?thesis using tl_invD(5) [OF inv] contract p' by (simp add: values_ok_def)
  next
    case False
    then have "last (pending_points st) \<in> set (pending_points st)" by simp
    then show ?thesis using tl_invD(5) [OF inv] le by (metis order_less_trans values_ok_def)
  qed
  have "values_ok st1"
    using tl_invD(5) [OF inv] le past p' unfolding values_ok_def s map_append sorted_wrt_append pv by auto
  moreover have "\<forall>q. point_ok st1 (refs(p := 0)) q"
  proof
    fix q show "point_ok st1 (refs(p := 0)) q"
      using tl_invD(4) [OF inv, of q] ok pt
      by (cases "q = p"; cases "point_store st q") (auto simp: point_ok_def s)
  qed
  moreover have "busy_points st1 = busy_points st" using pt by (auto simp: busy_points_def s)
  ultimately have "tl_inv st1 (refs(p := 0))" using inv p by (simp add: tl_inv_def s)
  then show ?thesis using pt p' s by (simp add: vk_sync_timeline_point_install_def st1_def Let_def)
qed

lemma find_point_spec:
  assumes "\<forall>p\<in>set ps. p \<in> dom (point_store st)"
  shows "find_point st v ps = Some (find (\<lambda>p. v \<le> pval st p) ps)"
  using assms by (induction ps) (auto simp: pval_def)

lemma get_point:
  assumes inv: "tl_inv st refs"
  shows "\<exists>r st' po. vk_sync_timeline_get_point_locked st v = Some (r, st', po) \<and> same_timeline st st' \<and>
    (case po of None \<Rightarrow> tl_inv st' refs
     | Some p \<Rightarrow> p \<in> set (pending_points st) \<and> v \<le> pval st p \<and> tl_inv st' (refs(p := refs p + 1)))"
proof -
  have find: "find_point st v (pending_points st) = Some (find (\<lambda>p. v \<le> pval st p) (pending_points st))"
    using pending_stored [OF inv] by (intro find_point_spec) blast
  show ?thesis
  proof (cases "highest_past st \<ge> v \<or> find (\<lambda>p. v \<le> pval st p) (pending_points st) = None")
    case True
    then show ?thesis
      using inv find by (auto simp: vk_sync_timeline_get_point_locked_def same_timeline_def)
  next
    case False
    then obtain p where p: "find (\<lambda>p. v \<le> pval st p) (pending_points st) = Some p" by blast
    then have pin: "p \<in> set (pending_points st)" "v \<le> pval st p" by (auto simp: find_Some_iff)
    obtain st' where "vk_sync_timeline_ref_point_locked st p = Some st'" "tl_inv st' (refs(p := refs p + 1))"
      "same_timeline st st'" by (rule ref_point [OF inv pending_busy [OF inv pin(1)]])
    then show ?thesis
      using False find p pin by (auto simp: vk_sync_timeline_get_point_locked_def not_le)
  qed
qed

subsection \<open>Waiting\<close>

lemma loop_head:
  assumes inv: "tl_inv st refs" and v: "v \<le> highest_pending st"
  shows "(v \<le> highest_past st \<and> wait_loop_head st v = Some (st, WaitDone VK_SUCCESS)) \<or>
    (\<exists>p st'. highest_past st < v \<and> pending_points st \<noteq> [] \<and> p = hd (pending_points st) \<and>
      wait_loop_head st v = Some (st', WaitPoint p) \<and> tl_inv st' (refs(p := refs p + 1)) \<and> same_timeline st st')"
proof (cases "v \<le> highest_past st")
  case True
  then have "wait_loop_head st v = Some (st, WaitDone VK_SUCCESS)" by (auto simp: wait_loop_head_def)
  with True show ?thesis by blast
next
  case False
  then have "pending_points st \<noteq> []" using tl_invD(5) [OF inv] v by (auto simp: values_ok_def)
  then obtain p ps where p: "pending_points st = p # ps" by (cases "pending_points st") auto
  obtain st' where "vk_sync_timeline_ref_point_locked st p = Some st'" "tl_inv st' (refs(p := refs p + 1))"
    "same_timeline st st'" using ref_point [OF inv pending_busy [OF inv]] p by (metis list.set_intros(1))
  then show ?thesis
    using p False by (auto simp: wait_loop_head_def vk_sync_timeline_first_point_def)
qed

text \<open>The point a thread waited for is the first pending point, or no longer pending.\<close>

lemma resume_wait:
  assumes inv: "tl_inv st refs" and held: "0 < refs p" and v: "v \<le> highest_pending st"
    and first: "p \<in> set (pending_points st) \<longrightarrow> hd (pending_points st) = p"
  shows "\<exists>st' w fin. wait_resume st v p r = Some (st', w) \<and> pending_points st = fin @ pending_points st' \<and>
    highest_pending st' = highest_pending st \<and> highest_past st \<le> highest_past st' \<and> advances st st' \<and>
    (r = VK_SUCCESS \<longrightarrow> p \<notin> set (pending_points st')) \<and>
    (case w of
       WaitPoint q \<Rightarrow> highest_past st' < v \<and> pending_points st' \<noteq> [] \<and> q = hd (pending_points st') \<and>
         tl_inv st' (\<lambda>x. (refs(p := refs p - 1)) x + (if x = q then 1 else 0))
     | WaitDone r' \<Rightarrow> (r' = VK_SUCCESS \<longrightarrow> v \<le> highest_past st') \<and> (r = VK_SUCCESS \<longrightarrow> r' = VK_SUCCESS) \<and>
         tl_inv st' (refs(p := refs p - 1))
     | WaitCond \<Rightarrow> False)"
proof -
  obtain st1 where st1: "vk_sync_timeline_unref_point_locked st p = Some st1"
    "tl_inv st1 (refs(p := refs p - 1))" "same_timeline st st1" by (rule unref_point [OF inv held])
  have adv1: "advances st st1" by (rule same_advances [OF inv st1(3)])
  show ?thesis
  proof (cases "r = VK_SUCCESS")
    case False
    then show ?thesis
      using st1 adv1 by (auto simp: wait_resume_def same_timeline_def intro!: exI [of _ "[]"])
  next
    case True
    have dom: "p \<in> dom (point_store st1)"
      using refs_stored [OF inv held] st1(3) same_values_dom [of st st1] by (simp add: same_timeline_def)
    have "\<exists>st2 fin. vk_sync_timeline_complete_point_locked st1 p = Some st2 \<and>
      tl_inv st2 (refs(p := refs p - 1)) \<and> pending_points st = fin @ pending_points st2 \<and>
      highest_pending st2 = highest_pending st \<and> highest_past st \<le> highest_past st2 \<and>
      p \<notin> set (pending_points st2) \<and> advances st st2"
    proof (cases "p \<in> set (pending_points st)")
      case pend: True
      then obtain ps where ps: "pending_points st1 = p # ps"
        using first st1(3) by (cases "pending_points st") (auto simp: same_timeline_def)
      obtain st2 where st2: "vk_sync_timeline_complete_point_locked st1 p = Some st2"
        "tl_inv st2 (refs(p := refs p - 1))" "pending_points st2 = ps" "highest_past st2 = pval st1 p"
        "highest_pending st2 = highest_pending st1" "same_values st1 st2" by (rule complete_head [OF st1(2) ps])
      have "collected [p] st1 st2" using st2 ps by (simp add: collected_def)
      then have "advances st st2" by (rule advances_trans [OF inv adv1 collected_advances [OF st1(2)]])
      have "highest_past st1 \<le> pval st1 p" "p \<notin> set ps"
        using tl_invD(2,5) [OF st1(2)] ps by (auto simp: values_ok_def)
      with \<open>advances st st2\<close> show ?thesis using st2 ps st1(3) by (auto simp: same_timeline_def intro!: exI [of _ "[p]"])
    next
      case notp: False
      obtain pt where "point_store st1 p = Some pt" "\<not> pt_pending pt"
        using dom tl_invD(4) [OF st1(2), of p] notp st1(3)
        by (auto simp: point_ok_def same_timeline_def split: option.splits)
      then have "vk_sync_timeline_complete_point_locked st1 p = Some st1"
        by (simp add: vk_sync_timeline_complete_point_locked_def)
      then show ?thesis using st1(2,3) adv1 notp by (auto simp: same_timeline_def intro!: exI [of _ "[]"])
    qed
    then obtain st2 fin where st2: "vk_sync_timeline_complete_point_locked st1 p = Some st2"
      "tl_inv st2 (refs(p := refs p - 1))" "pending_points st = fin @ pending_points st2"
      "highest_pending st2 = highest_pending st" "highest_past st \<le> highest_past st2"
      "p \<notin> set (pending_points st2)" "advances st st2" by blast
    have eq: "wait_resume st v p r = wait_loop_head st2 v" using True st1(1) st2(1) by (simp add: wait_resume_def)
    have "v \<le> highest_pending st2" using v st2(4) by simp
    from loop_head [OF st2(2) this] show ?thesis
    proof
      assume "v \<le> highest_past st2 \<and> wait_loop_head st2 v = Some (st2, WaitDone VK_SUCCESS)"
      then show ?thesis using eq st2 by auto
    next
      assume "\<exists>q st'. highest_past st2 < v \<and> pending_points st2 \<noteq> [] \<and> q = hd (pending_points st2) \<and>
        wait_loop_head st2 v = Some (st', WaitPoint q) \<and>
        tl_inv st' ((refs(p := refs p - 1))(q := (refs(p := refs p - 1)) q + 1)) \<and> same_timeline st2 st'"
      then obtain q st' where q: "highest_past st2 < v" "pending_points st2 \<noteq> []" "q = hd (pending_points st2)"
        "wait_loop_head st2 v = Some (st', WaitPoint q)"
        "tl_inv st' ((refs(p := refs p - 1))(q := (refs(p := refs p - 1)) q + 1))" "same_timeline st2 st'" by blast
      have "advances st st'" by (rule advances_trans [OF inv st2(7) same_advances [OF st2(2) q(6)]])
      have "(refs(p := refs p - 1))(q := (refs(p := refs p - 1)) q + 1) =
          (\<lambda>x. (refs(p := refs p - 1)) x + (if x = q then 1 else 0))" by auto
      with \<open>advances st st'\<close> show ?thesis using q eq st2 by (auto simp: same_timeline_def)
    qed
  qed
qed

section \<open>All interleavings\<close>

text \<open>A configuration: the timeline, the points a client allocated and did not install yet, the
  points it holds a reference to, and the waiting threads, each with the point it waits for and
  the value it waits for. A step is one operation under the mutex by some thread. Two rules carry
  the contract of the code's assertions: a point is installed with a value above every pending
  one, and the host signals only when no point is pending after the collection.\<close>

record tl_config =
  tl_state :: vk_sync_timeline_state
  fresh :: "u64 list"
  held :: "u64 list"
  waiting :: "(u64 \<times> u64) list"

definition signal_contract :: "point_sync \<Rightarrow> vk_sync_timeline_state \<Rightarrow> bool" where
  "signal_contract sync st \<longleftrightarrow>
     (case vk_sync_timeline_gc_locked sync st True of
        Some (r, st') \<Rightarrow> r = VK_SUCCESS \<longrightarrow> pending_points st' = []
      | None \<Rightarrow> True)"

inductive tl_step :: "tl_config \<Rightarrow> tl_config \<Rightarrow> bool" where
  alloc: "z \<notin> dom (point_store (tl_state c)) \<Longrightarrow> points_room (tl_state c) \<Longrightarrow>
    vk_sync_timeline_alloc_point_locked sync z (tl_state c) v = Some (r, st, po) \<Longrightarrow>
    tl_step c (c\<lparr>tl_state := st, fresh := (case po of None \<Rightarrow> fresh c | Some p \<Rightarrow> p # fresh c)\<rparr>)"
| install: "p \<in> set (fresh c) \<Longrightarrow> highest_pending (tl_state c) < pval (tl_state c) p \<Longrightarrow>
    vk_sync_timeline_point_install b (tl_state c) p = Some (r, st) \<Longrightarrow>
    tl_step c (c\<lparr>tl_state := st, fresh := remove1 p (fresh c)\<rparr>)"
| discard: "p \<in> set (fresh c) \<Longrightarrow> vk_sync_timeline_point_unref (tl_state c) p = Some st \<Longrightarrow>
    tl_step c (c\<lparr>tl_state := st, fresh := remove1 p (fresh c)\<rparr>)"
| release: "p \<in> set (held c) \<Longrightarrow> vk_sync_timeline_point_unref (tl_state c) p = Some st \<Longrightarrow>
    tl_step c (c\<lparr>tl_state := st, held := remove1 p (held c)\<rparr>)"
| get: "vk_sync_timeline_get_point_locked (tl_state c) v = Some (r, st, po) \<Longrightarrow>
    tl_step c (c\<lparr>tl_state := st, held := (case po of None \<Rightarrow> held c | Some p \<Rightarrow> p # held c)\<rparr>)"
| signal: "signal_contract sync (tl_state c) \<Longrightarrow>
    vk_sync_timeline_signal_locked sync b (tl_state c) v = Some (r, st) \<Longrightarrow>
    tl_step c (c\<lparr>tl_state := st\<rparr>)"
| read: "vk_sync_timeline_get_value sync (tl_state c) = Some (st, res) \<Longrightarrow> tl_step c (c\<lparr>tl_state := st\<rparr>)"
| begin_wait: "wait_begin sync wp (tl_state c) v = Some (st, w) \<Longrightarrow>
    tl_step c (c\<lparr>tl_state := st, waiting := (case w of WaitPoint p \<Rightarrow> (p, v) # waiting c | _ \<Rightarrow> waiting c)\<rparr>)"
| resume: "(p, v) \<in> set (waiting c) \<Longrightarrow> wait_resume (tl_state c) v p r = Some (st, w) \<Longrightarrow>
    tl_step c (c\<lparr>tl_state := st, waiting := (case w of WaitPoint q \<Rightarrow> (q, v) # remove1 (p, v) (waiting c)
      | _ \<Rightarrow> remove1 (p, v) (waiting c))\<rparr>)"

inductive tl_reachable :: "tl_config \<Rightarrow> bool" where
  start: "vk_sync_timeline_init z mtx cnd v = Inr st \<Longrightarrow>
    tl_reachable \<lparr>tl_state = st, fresh = [], held = [], waiting = []\<rparr>"
| step: "tl_reachable c \<Longrightarrow> tl_step c c' \<Longrightarrow> tl_reachable c'"

definition ext_refs :: "tl_config \<Rightarrow> u64 \<Rightarrow> nat" where
  "ext_refs c p = count_list (fresh c) p + count_list (held c) p + count_list (map fst (waiting c)) p"

definition cfg_ok :: "tl_config \<Rightarrow> bool" where
  "cfg_ok c \<longleftrightarrow>
     tl_inv (tl_state c) (ext_refs c) \<and> distinct (fresh c) \<and>
     (\<forall>p\<in>set (fresh c). p \<notin> set (held c) \<and> p \<notin> fst ` set (waiting c) \<and> p \<notin> set (pending_points (tl_state c))) \<and>
     (\<forall>(p, v)\<in>set (waiting c). v \<le> highest_pending (tl_state c) \<and>
        (p \<in> set (pending_points (tl_state c)) \<longrightarrow> hd (pending_points (tl_state c)) = p))"

lemma cfg_okI:
  assumes "tl_inv (tl_state c) (ext_refs c)" "distinct (fresh c)"
    "\<And>p. p \<in> set (fresh c) \<Longrightarrow> p \<notin> set (held c) \<and> p \<notin> fst ` set (waiting c) \<and> p \<notin> set (pending_points (tl_state c))"
    "\<And>p v. (p, v) \<in> set (waiting c) \<Longrightarrow> v \<le> highest_pending (tl_state c)"
    "\<And>p v. (p, v) \<in> set (waiting c) \<Longrightarrow> p \<in> set (pending_points (tl_state c)) \<Longrightarrow> hd (pending_points (tl_state c)) = p"
  shows "cfg_ok c"
  using assms unfolding cfg_ok_def by blast

lemma cfg_okD:
  assumes "cfg_ok c"
  shows "tl_inv (tl_state c) (ext_refs c)" "distinct (fresh c)"
    "p \<in> set (fresh c) \<Longrightarrow> p \<notin> set (held c)" "p \<in> set (fresh c) \<Longrightarrow> p \<notin> fst ` set (waiting c)"
    "p \<in> set (fresh c) \<Longrightarrow> p \<notin> set (pending_points (tl_state c))"
    "(p, v) \<in> set (waiting c) \<Longrightarrow> v \<le> highest_pending (tl_state c)"
    "(p, v) \<in> set (waiting c) \<Longrightarrow> p \<in> set (pending_points (tl_state c)) \<Longrightarrow> hd (pending_points (tl_state c)) = p"
  using assms unfolding cfg_ok_def by blast+

lemma count_remove1: "x \<in> set xs \<Longrightarrow> count_list (remove1 x xs) y = count_list xs y - (if x = y then 1 else 0)"
  by (induction xs) (auto simp: count_list_0_iff)

lemma count_pos: "x \<in> set xs \<Longrightarrow> 0 < count_list xs x"
  by (metis count_list_0_iff gr0I)

lemma count_distinct: "distinct xs \<Longrightarrow> count_list xs x = (if x \<in> set xs then 1 else 0)"
  by (induction xs) auto

lemma hd_suffix:
  assumes "xs = ys @ zs" "distinct xs" "p \<in> set zs" "hd xs = p"
  shows "hd zs = p"
  using assms by (cases ys) auto

lemma map_remove1_fst:
  "(p, v) \<in> set ws \<Longrightarrow> count_list (map fst (remove1 (p, v) ws)) q = count_list (map fst ws) q - (if p = q then 1 else 0)"
proof (induction ws)
  case (Cons w ws)
  have "0 < count_list (map fst ws) p" if "(p, v) \<in> set ws" using that by (intro count_pos) force
  with Cons show ?case by auto
qed simp

text \<open>A step keeps the conditions on the waiting threads and on the fresh points when it completes
  points from the front of the list, appends new ones at its end, and lets threads wait for the
  first point only.\<close>

lemma cfg_move:
  assumes ok: "cfg_ok c" and inv: "tl_inv (tl_state c') (ext_refs c')"
    and pend: "pending_points (tl_state c) = fin @ rest" "pending_points (tl_state c') = rest @ new"
    and new: "\<And>p v. (p, v) \<in> set (waiting c) \<Longrightarrow> p \<notin> set new"
    and hp: "highest_pending (tl_state c) \<le> highest_pending (tl_state c')"
    and fresh: "distinct (fresh c')"
      "\<And>p. p \<in> set (fresh c') \<Longrightarrow> p \<notin> set (held c') \<and> p \<notin> fst ` set (waiting c') \<and> p \<notin> set (pending_points (tl_state c'))"
    and wait: "\<And>p v. (p, v) \<in> set (waiting c') \<Longrightarrow>
      (p, v) \<in> set (waiting c) \<or> v \<le> highest_pending (tl_state c') \<and> p = hd (pending_points (tl_state c'))"
  shows "cfg_ok c'"
proof (rule cfg_okI [OF inv fresh])
  fix p v assume pv: "(p, v) \<in> set (waiting c')"
  show "v \<le> highest_pending (tl_state c')" using wait [OF pv] cfg_okD(6) [OF ok, of p v] hp by (meson order_trans)
  assume p: "p \<in> set (pending_points (tl_state c'))"
  show "hd (pending_points (tl_state c')) = p"
  proof (cases "(p, v) \<in> set (waiting c)")
    case True
    then have rest: "p \<in> set rest" using new [OF True] p pend(2) by simp
    have "hd (fin @ rest) = p" using cfg_okD(7) [OF ok True] rest pend(1) by simp
    moreover have "distinct (fin @ rest)" using tl_invD(2) [OF cfg_okD(1) [OF ok]] pend(1) by simp
    ultimately have "hd rest = p" by (rule hd_suffix [OF refl _ rest, rotated])
    then show ?thesis using rest pend(2) by (cases rest) auto
  qed (use wait [OF pv] in simp)
qed auto

lemma ext_refs_fresh:
  assumes "cfg_ok c" "p \<in> set (fresh c)"
  shows "ext_refs c p = 1"
proof -
  have "p \<notin> set (held c)" "p \<notin> set (map fst (waiting c))" using cfg_okD(3,4) [OF assms] by auto
  then show ?thesis using assms cfg_okD(2) [OF assms(1)]
    by (simp add: ext_refs_def count_distinct count_notin)
qed

lemma ext_refs_zero:
  assumes "ext_refs c p = 0"
  shows "p \<notin> set (fresh c)" "p \<notin> set (held c)" "p \<notin> fst ` set (waiting c)"
  using assms by (auto simp: ext_refs_def count_list_0_iff image_iff)

lemma ext_refs_pos:
  "p \<in> set (fresh c) \<or> p \<in> set (held c) \<or> p \<in> fst ` set (waiting c) \<Longrightarrow> 0 < ext_refs c p"
  using ext_refs_zero by blast

lemma ext_refs_upd:
  "ext_refs (c\<lparr>tl_state := st\<rparr>) = ext_refs c"
  "ext_refs (c\<lparr>tl_state := st, fresh := p # fresh c\<rparr>) = (ext_refs c)(p := ext_refs c p + 1)"
  "ext_refs (c\<lparr>tl_state := st, held := p # held c\<rparr>) = (ext_refs c)(p := ext_refs c p + 1)"
  "ext_refs (c\<lparr>tl_state := st, waiting := (p, v) # waiting c\<rparr>) = (ext_refs c)(p := ext_refs c p + 1)"
  by (auto simp: ext_refs_def)

lemma ext_refs_drop:
  "p \<in> set (fresh c) \<Longrightarrow> ext_refs (c\<lparr>tl_state := st, fresh := remove1 p (fresh c)\<rparr>) = (ext_refs c)(p := ext_refs c p - 1)"
  "p \<in> set (held c) \<Longrightarrow> ext_refs (c\<lparr>tl_state := st, held := remove1 p (held c)\<rparr>) = (ext_refs c)(p := ext_refs c p - 1)"
  by (rule ext; frule count_pos; simp add: ext_refs_def count_remove1)+

lemma ext_refs_resume:
  assumes "(p, v) \<in> set (waiting c)"
  shows "ext_refs (c\<lparr>tl_state := st, waiting := remove1 (p, v) (waiting c)\<rparr>) = (ext_refs c)(p := ext_refs c p - 1)"
proof
  fix x
  have "p \<in> set (map fst (waiting c))" using assms by force
  from count_pos [OF this]
  show "ext_refs (c\<lparr>tl_state := st, waiting := remove1 (p, v) (waiting c)\<rparr>) x = ((ext_refs c)(p := ext_refs c p - 1)) x"
    by (simp add: ext_refs_def map_remove1_fst [OF assms])
qed

lemma ext_refs_requeue:
  assumes "(p, v) \<in> set (waiting c)"
  shows "ext_refs (c\<lparr>tl_state := st, waiting := (q, v) # remove1 (p, v) (waiting c)\<rparr>) =
    (\<lambda>x. ((ext_refs c)(p := ext_refs c p - 1)) x + (if x = q then 1 else 0))"
  using ext_refs_resume [OF assms, of st] by (auto simp: ext_refs_def fun_eq_iff)

text \<open>Every operation keeps the configuration well-formed and the past value does not go back.\<close>

definition tl_grows :: "tl_config \<Rightarrow> tl_config \<Rightarrow> bool" where
  "tl_grows c c' \<longleftrightarrow> cfg_ok c' \<and> highest_past (tl_state c) \<le> highest_past (tl_state c')"

lemma grows_collect:
  assumes ok: "cfg_ok c" and inv: "tl_inv st (ext_refs c)"
    and pend: "pending_points (tl_state c) = fin @ pending_points st"
    and hp: "highest_pending (tl_state c) \<le> highest_pending st" "highest_past (tl_state c) \<le> highest_past st"
  shows "tl_grows c (c\<lparr>tl_state := st\<rparr>)"
proof -
  have "cfg_ok (c\<lparr>tl_state := st\<rparr>)"
  proof (rule cfg_move [OF ok, of _ fin "pending_points st" "[]"])
    fix p assume "p \<in> set (fresh (c\<lparr>tl_state := st\<rparr>))"
    then have "p \<in> set (fresh c)" by simp
    from cfg_okD(3,4,5) [OF ok this]
    show "p \<notin> set (held (c\<lparr>tl_state := st\<rparr>)) \<and> p \<notin> fst ` set (waiting (c\<lparr>tl_state := st\<rparr>)) \<and>
      p \<notin> set (pending_points (tl_state (c\<lparr>tl_state := st\<rparr>)))" using pend by simp
  qed (use inv pend hp cfg_okD(2) [OF ok] in \<open>simp_all add: ext_refs_upd\<close>)
  then show ?thesis using hp by (simp add: tl_grows_def)
qed

lemma grows_drop:
  assumes ok: "cfg_ok c" and p: "0 < ext_refs c p"
    and un: "vk_sync_timeline_point_unref (tl_state c) p = Some st"
    and c': "c' = c\<lparr>tl_state := st, fresh := fr, held := he\<rparr>"
    and sub: "set fr \<subseteq> set (fresh c)" "set he \<subseteq> set (held c)" "distinct fr"
    and refs: "ext_refs c' = (ext_refs c)(p := ext_refs c p - 1)"
  shows "tl_grows c c'"
proof -
  obtain st' where st': "vk_sync_timeline_unref_point_locked (tl_state c) p = Some st'"
    "tl_inv st' ((ext_refs c)(p := ext_refs c p - 1))" "same_timeline (tl_state c) st'"
    by (rule unref_point [OF cfg_okD(1) [OF ok] p])
  have "st' = st" using st'(1) un
    by (simp add: vk_sync_timeline_unref_point_locked_def vk_sync_timeline_point_unref_def)
  then have s: "pending_points st = pending_points (tl_state c)" "highest_pending st = highest_pending (tl_state c)"
    "highest_past st = highest_past (tl_state c)" "tl_inv st (ext_refs c')"
    using st' refs by (simp_all add: same_timeline_def)
  have "cfg_ok c'"
  proof (rule cfg_move [OF ok, of _ "[]" "pending_points st" "[]"])
    fix q assume "q \<in> set (fresh c')"
    then have "q \<in> set (fresh c)" using sub(1) c' by auto
    from cfg_okD(3,4,5) [OF ok this]
    show "q \<notin> set (held c') \<and> q \<notin> fst ` set (waiting c') \<and> q \<notin> set (pending_points (tl_state c'))"
      using sub(2) c' s(1) by auto
  qed (use s c' sub(3) in simp_all)
  then show ?thesis using s c' by (simp add: tl_grows_def)
qed

lemma grows_alloc:
  assumes ok: "cfg_ok c" and z: "z \<notin> dom (point_store (tl_state c))" and room: "points_room (tl_state c)"
    and al: "vk_sync_timeline_alloc_point_locked sync z (tl_state c) v = Some (r, st, po)"
  shows "tl_grows c (c\<lparr>tl_state := st, fresh := (case po of None \<Rightarrow> fresh c | Some p \<Rightarrow> p # fresh c)\<rparr>)"
proof -
  obtain fin where s: "pending_points (tl_state c) = fin @ pending_points st"
    "highest_pending st = highest_pending (tl_state c)" "highest_past (tl_state c) \<le> highest_past st"
    and po: "case po of None \<Rightarrow> tl_inv st (ext_refs c)
     | Some p \<Rightarrow> ext_refs c p = 0 \<and> p \<notin> set (pending_points st) \<and> pval st p = v \<and> tl_inv st ((ext_refs c)(p := 1))"
    using alloc_point [OF cfg_okD(1) [OF ok] z room, of sync v] al by auto
  show ?thesis
  proof (cases po)
    case None
    have "c\<lparr>tl_state := st, fresh := fresh c\<rparr> = c\<lparr>tl_state := st\<rparr>" by (cases c) simp
    then show ?thesis using grows_collect [OF ok _ s(1) _ s(3)] s(2) po None by simp
  next
    case (Some p)
    let ?c = "c\<lparr>tl_state := st, fresh := p # fresh c\<rparr>"
    have p: "ext_refs c p = 0" "p \<notin> set (pending_points st)" "tl_inv st ((ext_refs c)(p := 1))"
      using po Some by auto
    note z = ext_refs_zero [OF p(1)]
    have "cfg_ok ?c"
    proof (rule cfg_move [OF ok, of _ fin "pending_points st" "[]"])
      show "tl_inv (tl_state ?c) (ext_refs ?c)" using p by (simp add: ext_refs_upd)
      fix q assume "q \<in> set (fresh ?c)"
      then consider "q = p" | "q \<in> set (fresh c)" by auto
      then show "q \<notin> set (held ?c) \<and> q \<notin> fst ` set (waiting ?c) \<and> q \<notin> set (pending_points (tl_state ?c))"
      proof cases
        case 2
        from cfg_okD(3,4,5) [OF ok 2] show ?thesis using s(1) by simp
      qed (use z p in simp)
    qed (use s z(1) cfg_okD(2) [OF ok] in simp_all)
    then show ?thesis using s Some by (simp add: tl_grows_def)
  qed
qed

lemma grows_install:
  assumes ok: "cfg_ok c" and p: "p \<in> set (fresh c)" and pv: "highest_pending (tl_state c) < pval (tl_state c) p"
    and ins: "vk_sync_timeline_point_install b (tl_state c) p = Some (r, st)"
  shows "tl_grows c (c\<lparr>tl_state := st, fresh := remove1 p (fresh c)\<rparr>)"
proof -
  let ?c = "c\<lparr>tl_state := st, fresh := remove1 p (fresh c)\<rparr>"
  note one = ext_refs_fresh [OF ok p]
  have s: "tl_inv st ((ext_refs c)(p := 0))" "pending_points st = pending_points (tl_state c) @ [p]"
    "highest_past st = highest_past (tl_state c)" "highest_pending st = pval (tl_state c) p"
    using install_point [OF cfg_okD(1) [OF ok] one cfg_okD(5) [OF ok p] pv, of b] ins by auto
  have "cfg_ok ?c"
  proof (rule cfg_move [OF ok, of _ "[]" "pending_points (tl_state c)" "[p]"])
    show "tl_inv (tl_state ?c) (ext_refs ?c)" using s one by (simp add: ext_refs_drop(1) [OF p])
    show "q \<notin> set [p]" if "(q, v) \<in> set (waiting c)" for q v using cfg_okD(4) [OF ok p] that by force
    fix q assume "q \<in> set (fresh ?c)"
    then have q: "q \<in> set (fresh c)" "q \<noteq> p" using cfg_okD(2) [OF ok] by simp_all
    from cfg_okD(3,4,5) [OF ok q(1)] q(2)
    show "q \<notin> set (held ?c) \<and> q \<notin> fst ` set (waiting ?c) \<and> q \<notin> set (pending_points (tl_state ?c))"
      using s by simp
  qed (use s pv cfg_okD(2) [OF ok] in simp_all)
  then show ?thesis using s by (simp add: tl_grows_def)
qed

lemma grows_get:
  assumes ok: "cfg_ok c" and get: "vk_sync_timeline_get_point_locked (tl_state c) v = Some (r, st, po)"
  shows "tl_grows c (c\<lparr>tl_state := st, held := (case po of None \<Rightarrow> held c | Some p \<Rightarrow> p # held c)\<rparr>)"
proof -
  have s: "same_timeline (tl_state c) st"
    and po: "case po of None \<Rightarrow> tl_inv st (ext_refs c)
     | Some p \<Rightarrow> p \<in> set (pending_points (tl_state c)) \<and> v \<le> pval (tl_state c) p \<and>
         tl_inv st ((ext_refs c)(p := ext_refs c p + 1))"
    using get_point [OF cfg_okD(1) [OF ok], of v] get by auto
  show ?thesis
  proof (cases po)
    case None
    have "c\<lparr>tl_state := st, held := held c\<rparr> = c\<lparr>tl_state := st\<rparr>" by (cases c) simp
    then show ?thesis using grows_collect [OF ok, of st "[]"] s po None by (simp add: same_timeline_def)
  next
    case (Some p)
    let ?c = "c\<lparr>tl_state := st, held := p # held c\<rparr>"
    have "cfg_ok ?c"
    proof (rule cfg_move [OF ok, of _ "[]" "pending_points st" "[]"])
      show "tl_inv (tl_state ?c) (ext_refs ?c)" using po Some by (simp add: ext_refs_upd)
      fix q assume "q \<in> set (fresh ?c)"
      then have "q \<in> set (fresh c)" by simp
      from cfg_okD(3,4,5) [OF ok this]
      show "q \<notin> set (held ?c) \<and> q \<notin> fst ` set (waiting ?c) \<and> q \<notin> set (pending_points (tl_state ?c))"
        using po Some s by (auto simp: same_timeline_def)
    qed (use s cfg_okD(2) [OF ok] in \<open>simp_all add: same_timeline_def\<close>)
    then show ?thesis using s Some by (simp add: tl_grows_def same_timeline_def)
  qed
qed

lemma gc_grows:
  assumes ok: "cfg_ok c" and gc: "vk_sync_timeline_gc_locked sync (tl_state c) drain = Some (r, st)"
  shows "tl_inv st (ext_refs c)" "\<exists>fin. pending_points (tl_state c) = fin @ pending_points st"
    "highest_pending st = highest_pending (tl_state c)" "highest_past (tl_state c) \<le> highest_past st"
proof -
  note inv = cfg_okD(1) [OF ok]
  obtain r' st' fin where g: "vk_sync_timeline_gc_locked sync (tl_state c) drain = Some (r', st')"
    "tl_inv st' (ext_refs c)" "collected fin (tl_state c) st'" by (rule gc_spec [OF inv])
  have "st' = st" using g(1) gc by simp
  then show "tl_inv st (ext_refs c)" "\<exists>fin. pending_points (tl_state c) = fin @ pending_points st"
    "highest_pending st = highest_pending (tl_state c)" "highest_past (tl_state c) \<le> highest_past st"
    using g collected_past_mono [OF inv g(3)] by (auto simp: collected_def)
qed

text \<open>With no point pending, raising both values together keeps the invariant.\<close>

lemma inv_raise:
  assumes inv: "tl_inv st refs" and none: "pending_points st = []"
  shows "tl_inv (st\<lparr>highest_pending := v, highest_past := v\<rparr>) refs"
proof -
  have "point_ok (st\<lparr>highest_pending := v, highest_past := v\<rparr>) refs p" for p
    using tl_invD(4) [OF inv, of p] by (simp add: point_ok_def split: option.splits)
  then have "All (point_ok (st\<lparr>highest_pending := v, highest_past := v\<rparr>) refs)" by blast
  then show ?thesis using inv none unfolding tl_inv_def by (simp add: values_ok_def busy_points_def)
qed

lemma grows_signal:
  assumes ok: "cfg_ok c" and con: "signal_contract sync (tl_state c)"
    and sig: "vk_sync_timeline_signal_locked sync b (tl_state c) v = Some (r, st)"
  shows "tl_grows c (c\<lparr>tl_state := st\<rparr>)"
proof -
  obtain r1 st1 where gc: "vk_sync_timeline_gc_locked sync (tl_state c) True = Some (r1, st1)"
    using sig by (auto simp: vk_sync_timeline_signal_locked_def split: bind_splits)
  note g = gc_grows [OF ok gc]
  obtain fin where fin: "pending_points (tl_state c) = fin @ pending_points st1" using g(2) by blast
  show ?thesis
  proof (cases "r1 = VK_SUCCESS \<and> \<not> v \<le> highest_past st1")
    case False
    then have "st = st1" using sig gc by (auto simp: vk_sync_timeline_signal_locked_def split: if_splits)
    then show ?thesis using grows_collect [OF ok g(1) fin] g(3,4) by simp
  next
    case True
    then have st: "st = st1\<lparr>highest_pending := v, highest_past := v\<rparr>"
      using sig gc by (auto simp: vk_sync_timeline_signal_locked_def split: if_splits)
    have none: "pending_points st1 = []" using con gc True by (simp add: signal_contract_def)
    have "highest_pending st1 = highest_past st1" using tl_invD(5) [OF g(1)] none by (simp add: values_ok_def)
    moreover have "highest_past st1 \<le> v" using True by (simp add: not_le less_imp_le)
    moreover from this have "highest_past (tl_state c) \<le> v" using g(4) by (rule order_trans [rotated])
    ultimately show ?thesis
      using grows_collect [OF ok inv_raise [OF g(1) none], of fin v] fin g(3) st by simp
  qed
qed

lemma grows_read:
  assumes ok: "cfg_ok c" and read: "vk_sync_timeline_get_value sync (tl_state c) = Some (st, res)"
  shows "tl_grows c (c\<lparr>tl_state := st\<rparr>)"
proof -
  obtain r1 where gc: "vk_sync_timeline_gc_locked sync (tl_state c) True = Some (r1, st)"
    using read by (auto simp: vk_sync_timeline_get_value_def split: bind_splits)
  note g = gc_grows [OF ok gc]
  then show ?thesis using grows_collect [OF ok g(1)] by auto
qed

text \<open>A thread that starts to wait, or goes on waiting, waits for the first point.\<close>

lemma grows_wait_point:
  assumes ok: "cfg_ok c" and inv: "tl_inv st (ext_refs c')"
    and pend: "pending_points (tl_state c) = fin @ pending_points st" "pending_points st \<noteq> []"
    and hp: "highest_pending st = highest_pending (tl_state c)" "highest_past (tl_state c) \<le> highest_past st"
    and c': "c' = c\<lparr>tl_state := st, waiting := ws\<rparr>"
    and ws: "set ws \<subseteq> insert (hd (pending_points st), v) (set (waiting c))" "v \<le> highest_pending st"
  shows "tl_grows c c'"
proof -
  have "cfg_ok c'"
  proof (rule cfg_move [OF ok, of _ fin "pending_points st" "[]"])
    show "(p, x) \<in> set (waiting c) \<or> x \<le> highest_pending (tl_state c') \<and> p = hd (pending_points (tl_state c'))"
      if "(p, x) \<in> set (waiting c')" for p x using that ws c' by auto
    fix q assume "q \<in> set (fresh c')"
    then have q: "q \<in> set (fresh c)" using c' by simp
    have "hd (pending_points st) \<in> set (pending_points (tl_state c))" using pend by simp
    then have "q \<noteq> hd (pending_points st)" using cfg_okD(5) [OF ok q] by metis
    then have "q \<notin> fst ` set ws" using cfg_okD(4) [OF ok q] ws(1) by fastforce
    then show "q \<notin> set (held c') \<and> q \<notin> fst ` set (waiting c') \<and> q \<notin> set (pending_points (tl_state c'))"
      using cfg_okD(3,5) [OF ok q] c' pend by simp
  qed (use inv pend hp c' cfg_okD(2) [OF ok] in simp_all)
  then show ?thesis using hp c' by (simp add: tl_grows_def)
qed

lemma grows_begin_wait:
  assumes ok: "cfg_ok c" and wb: "wait_begin sync wp (tl_state c) v = Some (st, w)"
  shows "tl_grows c (c\<lparr>tl_state := st, waiting := (case w of WaitPoint p \<Rightarrow> (p, v) # waiting c | _ \<Rightarrow> waiting c)\<rparr>)"
proof -
  have same: "c\<lparr>tl_state := st, waiting := waiting c\<rparr> = c\<lparr>tl_state := st\<rparr>" for st by (cases c) simp
  have idle: "tl_grows c (c\<lparr>tl_state := tl_state c\<rparr>)" using ok by (simp add: tl_grows_def)
  show ?thesis
  proof (cases "highest_pending (tl_state c) < v \<or> wp")
    case True
    then have "st = tl_state c" "\<forall>p. w \<noteq> WaitPoint p" using wb by (auto simp: wait_begin_def split: if_splits)
    then show ?thesis using idle same by (cases w) simp_all
  next
    case False
    then obtain r1 st1 where gc: "vk_sync_timeline_gc_locked sync (tl_state c) False = Some (r1, st1)"
      using wb by (auto simp: wait_begin_def split: bind_splits)
    note g = gc_grows [OF ok gc]
    obtain fin where fin: "pending_points (tl_state c) = fin @ pending_points st1" using g(2) by blast
    have grow1: "tl_grows c (c\<lparr>tl_state := st1\<rparr>)" using grows_collect [OF ok g(1) fin] g(3,4) by simp
    have le: "v \<le> highest_pending st1" using False g(3) by (simp add: not_less)
    have "(\<exists>r. st = st1 \<and> w = WaitDone r) \<or> wait_loop_head st1 v = Some (st, w)"
      using wb gc False by (auto simp: wait_begin_def split: if_splits)
    with loop_head [OF g(1) le]
    consider (finished) r where "st = st1" "w = WaitDone r"
      | (point) p where "pending_points st1 \<noteq> []" "p = hd (pending_points st1)" "w = WaitPoint p"
          "tl_inv st ((ext_refs c)(p := ext_refs c p + 1))" "same_timeline st1 st"
      by auto
    then show ?thesis
    proof cases
      case finished
      then show ?thesis using grow1 same by simp
    next
      case point
      have "tl_grows c (c\<lparr>tl_state := st, waiting := (p, v) # waiting c\<rparr>)"
        by (rule grows_wait_point [OF ok _ _ _ _ _ refl, where fin = fin and v = v])
          (use point fin g(3,4) le in \<open>simp_all add: same_timeline_def ext_refs_upd\<close>)
      then show ?thesis using point by simp
    qed
  qed
qed

lemma grows_resume:
  assumes ok: "cfg_ok c" and pv: "(p, v) \<in> set (waiting c)"
    and res: "wait_resume (tl_state c) v p r = Some (st, w)"
  shows "tl_grows c (c\<lparr>tl_state := st, waiting := (case w of WaitPoint q \<Rightarrow> (q, v) # remove1 (p, v) (waiting c)
      | _ \<Rightarrow> remove1 (p, v) (waiting c))\<rparr>)"
proof -
  let ?refs = "(ext_refs c)(p := ext_refs c p - 1)"
  have held: "0 < ext_refs c p" using pv by (intro ext_refs_pos) force
  note first = cfg_okD(7) [OF ok pv]
  obtain fin where s: "pending_points (tl_state c) = fin @ pending_points st"
    "highest_pending st = highest_pending (tl_state c)" "highest_past (tl_state c) \<le> highest_past st"
    and w: "case w of
       WaitPoint q \<Rightarrow> highest_past st < v \<and> pending_points st \<noteq> [] \<and> q = hd (pending_points st) \<and>
         tl_inv st (\<lambda>x. ?refs x + (if x = q then 1 else 0))
     | WaitDone r' \<Rightarrow> (r' = VK_SUCCESS \<longrightarrow> v \<le> highest_past st) \<and> (r = VK_SUCCESS \<longrightarrow> r' = VK_SUCCESS) \<and>
         tl_inv st ?refs
     | WaitCond \<Rightarrow> False"
    using resume_wait [OF cfg_okD(1) [OF ok] held cfg_okD(6) [OF ok pv], of r] first res by auto
  show ?thesis
  proof (cases w)
    case (WaitDone r')
    let ?c = "c\<lparr>tl_state := st, waiting := remove1 (p, v) (waiting c)\<rparr>"
    have sub: "set (remove1 (p, v) (waiting c)) \<subseteq> set (waiting c)" by (rule set_remove1_subset)
    have "cfg_ok ?c"
    proof (rule cfg_move [OF ok, of _ fin "pending_points st" "[]"])
      show "(q, x) \<in> set (waiting c) \<or> x \<le> highest_pending (tl_state ?c) \<and> q = hd (pending_points (tl_state ?c))"
        if "(q, x) \<in> set (waiting ?c)" for q x using that sub by auto
      fix q assume "q \<in> set (fresh ?c)"
      then have q: "q \<in> set (fresh c)" by simp
      show "q \<notin> set (held ?c) \<and> q \<notin> fst ` set (waiting ?c) \<and> q \<notin> set (pending_points (tl_state ?c))"
        using cfg_okD(3,4,5) [OF ok q] sub s(1) by auto
    qed (use s w WaitDone cfg_okD(2) [OF ok] in \<open>simp_all add: ext_refs_resume [OF pv]\<close>)
    then show ?thesis using s WaitDone by (simp add: tl_grows_def)
  next
    case (WaitPoint q)
    from w [unfolded WaitPoint wait_state.case]
    have q: "pending_points st \<noteq> []" "q = hd (pending_points st)"
      "tl_inv st (\<lambda>x. ?refs x + (if x = q then 1 else 0))" by blast+
    have "tl_grows c (c\<lparr>tl_state := st, waiting := (q, v) # remove1 (p, v) (waiting c)\<rparr>)"
    proof (rule grows_wait_point [OF ok _ s(1) q(1) s(2,3) refl, where v = v])
      show "tl_inv st (ext_refs (c\<lparr>tl_state := st, waiting := (q, v) # remove1 (p, v) (waiting c)\<rparr>))"
        using q(3) by (simp only: ext_refs_requeue [OF pv])
      show "set ((q, v) # remove1 (p, v) (waiting c)) \<subseteq> insert (hd (pending_points st), v) (set (waiting c))"
        using q(2) set_remove1_subset [of "(p, v)" "waiting c"] by auto
    qed (use s cfg_okD(6) [OF ok pv] in simp)
    then show ?thesis using WaitPoint by simp
  qed (use w in simp)
qed

lemma step_grows:
  assumes "tl_step c c'" "cfg_ok c"
  shows "tl_grows c c'"
  using assms
proof cases
  case (discard p st)
  have "0 < ext_refs c p" using discard by (intro ext_refs_pos) simp
  then show ?thesis
    using discard assms(2) cfg_okD(2) [OF assms(2)]
    by (intro grows_drop [where fr = "remove1 p (fresh c)" and he = "held c"])
      (auto simp: ext_refs_drop set_remove1_subset dest: notin_set_remove1)
next
  case (release p st)
  have "0 < ext_refs c p" using release by (intro ext_refs_pos) simp
  then show ?thesis
    using release assms(2) cfg_okD(2) [OF assms(2)]
    by (intro grows_drop [where fr = "fresh c" and he = "remove1 p (held c)"])
      (auto simp: ext_refs_drop set_remove1_subset dest: notin_set_remove1)
qed (use assms(2) in \<open>simp_all add: grows_alloc grows_install grows_get grows_signal grows_read
  grows_begin_wait grows_resume\<close>)

lemma reachable_ok: "tl_reachable c \<Longrightarrow> cfg_ok c"
proof (induction rule: tl_reachable.induct)
  case (start z mtx cnd v st)
  then have st: "st = \<lparr>highest_past = v, highest_pending = v, st_refcount = 1, pending_points = [],
      free_points = [], point_store = Map.empty, st_freed = False\<rparr>"
    by (auto simp: vk_sync_timeline_init_def split: if_splits)
  show ?case
    by (rule cfg_okI) (simp_all add: st tl_inv_def point_ok_def values_ok_def busy_points_def ext_refs_def)
next
  case (step c c')
  then show ?case using step_grows by (simp add: tl_grows_def)
qed

section \<open>What a client sees\<close>

text \<open>The collection that drains the timeline completes exactly the longest prefix of signalled points.\<close>

definition past_value :: "vk_sync_timeline_state \<Rightarrow> u64 list \<Rightarrow> u64" where
  "past_value st ps = (if ps = [] then highest_past st else pval st (last ps))"

lemma drain_prefix:
  assumes inv: "tl_inv st refs"
    and gc: "vk_sync_timeline_gc_locked sync st True = Some (r, st')"
  shows "pending_points st' = dropWhile (\<lambda>p. sync_wait sync p = VK_SUCCESS) (pending_points st)"
    "highest_past st' = past_value st (takeWhile (\<lambda>p. sync_wait sync p = VK_SUCCESS) (pending_points st))"
    "r = (case pending_points st' of [] \<Rightarrow> VK_SUCCESS
          | p # _ \<Rightarrow> if sync_wait sync p = VK_TIMEOUT then VK_SUCCESS else sync_wait sync p)"
proof -
  let ?P = "\<lambda>p. sync_wait sync p = VK_SUCCESS"
  obtain r1 st1 fin where g: "vk_sync_timeline_gc_locked sync st True = Some (r1, st1)" "collected fin st st1"
    "\<forall>p\<in>set fin. sync_wait sync p = VK_SUCCESS"
    "r1 = VK_SUCCESS \<Longrightarrow> pending_points st1 \<noteq> [] \<Longrightarrow> sync_wait sync (hd (pending_points st1)) = VK_TIMEOUT"
    "r1 \<noteq> VK_SUCCESS \<Longrightarrow> pending_points st1 \<noteq> [] \<and> r1 = sync_wait sync (hd (pending_points st1)) \<and> r1 \<noteq> VK_TIMEOUT"
    by (rule gc_spec [OF inv, where sync = sync and drain = True]) blast
  have eq: "r1 = r" "st1 = st'" using g(1) gc by simp_all
  have pend: "pending_points st = fin @ pending_points st'" using g(2) eq by (simp add: collected_def)
  have stop: "pending_points st' = [] \<or> \<not> ?P (hd (pending_points st'))"
    using g(4,5) eq by (cases "r = VK_SUCCESS") auto
  have split: "takeWhile ?P (pending_points st) = fin" "dropWhile ?P (pending_points st) = pending_points st'"
    using stop g(3) unfolding pend by (cases "pending_points st'"; simp add: takeWhile_append2 dropWhile_append2)+
  show "pending_points st' = dropWhile ?P (pending_points st)" using split by simp
  show "highest_past st' = past_value st (takeWhile ?P (pending_points st))"
    using split g(2) eq by (simp add: collected_def past_value_def)
  show "r = (case pending_points st' of [] \<Rightarrow> VK_SUCCESS
          | p # _ \<Rightarrow> if sync_wait sync p = VK_TIMEOUT then VK_SUCCESS else sync_wait sync p)"
    using g(4,5) eq by (cases "pending_points st'"; cases "r = VK_SUCCESS"; simp)
qed

lemma gc_defined:
  assumes "tl_inv st refs"
  obtains r st' where "vk_sync_timeline_gc_locked sync st drain = Some (r, st')"
  by (rule gc_spec [OF assms])

subsection \<open>A waiting thread among others\<close>

text \<open>The configuration after a thread began to wait in \<open>c\<close>, and after it resumed there.\<close>

abbreviation began :: "tl_config \<Rightarrow> u64 \<Rightarrow> vk_sync_timeline_state \<Rightarrow> wait_state \<Rightarrow> tl_config" where
  "began c v st w \<equiv> c\<lparr>tl_state := st, waiting := (case w of WaitPoint p \<Rightarrow> (p, v) # waiting c | _ \<Rightarrow> waiting c)\<rparr>"

abbreviation resumed :: "tl_config \<Rightarrow> u64 \<Rightarrow> u64 \<Rightarrow> vk_sync_timeline_state \<Rightarrow> wait_state \<Rightarrow> tl_config" where
  "resumed c p v st w \<equiv> c\<lparr>tl_state := st, waiting := (case w of WaitPoint q \<Rightarrow> (q, v) # remove1 (p, v) (waiting c)
      | _ \<Rightarrow> remove1 (p, v) (waiting c))\<rparr>"

text \<open>The wake-ups a thread in state \<open>w\<close> can see from configuration \<open>c\<close> on: before each of them the other threads
  take any number of steps, during which the thread keeps waiting for its point.\<close>

inductive wakes_from :: "bool \<Rightarrow> u64 \<Rightarrow> tl_config \<Rightarrow> wait_state \<Rightarrow> wake list \<Rightarrow> bool" for wp v where
  returned: "wakes_from wp v c (WaitDone r) ks"
| asleep: "wakes_from wp v c w []"
| gave_up: "tl_step\<^sup>*\<^sup>* c c' \<Longrightarrow> ret \<noteq> Thrd_success \<Longrightarrow>
    wakes_from wp v c WaitCond (CondWake (tl_state c') ret polls # ks)"
| notified: "tl_step\<^sup>*\<^sup>* c c' \<Longrightarrow> wait_begin polls wp (tl_state c') v = Some (st, w) \<Longrightarrow>
    wakes_from wp v (began c' v st w) w ks \<Longrightarrow>
    wakes_from wp v c WaitCond (CondWake (tl_state c') Thrd_success polls # ks)"
| waited: "tl_step\<^sup>*\<^sup>* c c' \<Longrightarrow> (p, v) \<in> set (waiting c') \<Longrightarrow>
    wait_resume (tl_state c') v p result = Some (st, w) \<Longrightarrow> wakes_from wp v (resumed c' p v st w) w ks \<Longrightarrow>
    wakes_from wp v c (WaitPoint p) (PointWake (tl_state c') result # ks)"

inductive_cases wakes_from_point: "wakes_from wp v c (WaitPoint p) (k # ks)"

lemma begin_advances:
  assumes inv: "tl_inv st refs" and wb: "wait_begin sync wp st v = Some (st', w)"
  shows "advances st st'"
    "w = WaitDone r \<Longrightarrow> r = VK_SUCCESS \<Longrightarrow> v \<le> (if wp then highest_pending st' else highest_past st')"
    "w = WaitDone r \<Longrightarrow> r \<noteq> VK_SUCCESS \<Longrightarrow> \<exists>p\<in>set (pending_points st). r = sync_wait sync p \<and> r \<noteq> VK_TIMEOUT"
    "w = WaitPoint p \<Longrightarrow> highest_past st' < v \<and> v \<le> highest_pending st' \<and> pending_points st' \<noteq> [] \<and> p = hd (pending_points st')"
    "w = WaitCond \<Longrightarrow> highest_pending st < v"
proof -
  have "advances st st' \<and>
    (\<forall>r. w = WaitDone r \<longrightarrow> r = VK_SUCCESS \<longrightarrow> v \<le> (if wp then highest_pending st' else highest_past st')) \<and>
    (\<forall>r. w = WaitDone r \<longrightarrow> r \<noteq> VK_SUCCESS \<longrightarrow> (\<exists>p\<in>set (pending_points st). r = sync_wait sync p \<and> r \<noteq> VK_TIMEOUT)) \<and>
    (\<forall>p. w = WaitPoint p \<longrightarrow> highest_past st' < v \<and> v \<le> highest_pending st' \<and> pending_points st' \<noteq> [] \<and> p = hd (pending_points st')) \<and>
    (w = WaitCond \<longrightarrow> highest_pending st < v)"
  proof (cases "highest_pending st < v \<or> wp")
    case True
    then show ?thesis using wb by (auto simp: wait_begin_def not_less split: if_splits)
  next
    case False
    obtain r st1 fin where g: "vk_sync_timeline_gc_locked sync st False = Some (r, st1)" "tl_inv st1 refs"
      "collected fin st st1"
      "r \<noteq> VK_SUCCESS \<Longrightarrow> pending_points st1 \<noteq> [] \<and> r = sync_wait sync (hd (pending_points st1)) \<and> r \<noteq> VK_TIMEOUT"
      by (rule gc_spec [OF inv, where sync = sync and drain = False]) blast
    note adv = collected_advances [OF inv g(3)]
    have hp: "highest_pending st1 = highest_pending st" "pending_points st = fin @ pending_points st1"
      using g(3) by (simp_all add: collected_def)
    have v: "v \<le> highest_pending st1" using False hp by (simp add: not_less)
    show ?thesis
    proof (cases "r = VK_SUCCESS")
      case nok: False
      then have "st' = st1" "w = WaitDone r" using wb g(1) False by (auto simp: wait_begin_def)
      moreover have "\<exists>p\<in>set (pending_points st). r = sync_wait sync p \<and> r \<noteq> VK_TIMEOUT"
        using g(4) [OF nok] hp(2) by (intro bexI [of _ "hd (pending_points st1)"]) auto
      ultimately show ?thesis using adv nok by simp
    next
      case True
      then have "wait_loop_head st1 v = Some (st', w)" using wb g(1) False by (simp add: wait_begin_def)
      with loop_head [OF g(2) v] consider "v \<le> highest_past st1" "st' = st1" "w = WaitDone VK_SUCCESS"
        | "highest_past st1 < v" "pending_points st1 \<noteq> []" "w = WaitPoint (hd (pending_points st1))" "same_timeline st1 st'"
        by auto
      then show ?thesis
      proof cases
        case 2
        then show ?thesis
          using v advances_trans [OF inv adv same_advances [OF g(2) 2(4)]] by (simp add: same_timeline_def)
      qed (use adv False in simp)
    qed
  qed
  then show "advances st st'"
    "w = WaitDone r \<Longrightarrow> r = VK_SUCCESS \<Longrightarrow> v \<le> (if wp then highest_pending st' else highest_past st')"
    "w = WaitDone r \<Longrightarrow> r \<noteq> VK_SUCCESS \<Longrightarrow> \<exists>p\<in>set (pending_points st). r = sync_wait sync p \<and> r \<noteq> VK_TIMEOUT"
    "w = WaitPoint p \<Longrightarrow> highest_past st' < v \<and> v \<le> highest_pending st' \<and> pending_points st' \<noteq> [] \<and> p = hd (pending_points st')"
    "w = WaitCond \<Longrightarrow> highest_pending st < v"
    by blast+
qed

lemma signal_advances:
  assumes inv: "tl_inv st refs" and con: "signal_contract sync st"
    and sig: "vk_sync_timeline_signal_locked sync b st v = Some (r, st')"
  shows "advances st st'"
proof -
  obtain r1 st1 fin where g: "vk_sync_timeline_gc_locked sync st True = Some (r1, st1)" "tl_inv st1 refs"
    "collected fin st st1" by (rule gc_spec [OF inv])
  note adv = collected_advances [OF inv g(3)]
  show ?thesis
  proof (cases "r1 = VK_SUCCESS \<and> \<not> v \<le> highest_past st1")
    case True
    then have st': "st' = st1\<lparr>highest_pending := v, highest_past := v\<rparr>"
      using sig g(1) by (auto simp: vk_sync_timeline_signal_locked_def split: if_splits)
    have none: "pending_points st1 = []" using con g(1) True by (simp add: signal_contract_def)
    have "highest_pending st1 = highest_past st1" using tl_invD(5) [OF g(2)] none by (simp add: values_ok_def)
    then have "advances st1 st'" using True none by (auto simp: st' advances_def not_le)
    then show ?thesis by (rule advances_trans [OF inv adv])
  qed (use adv sig g(1) in \<open>auto simp: vk_sync_timeline_signal_locked_def split: if_splits\<close>)
qed

lemma unref_advances:
  assumes inv: "tl_inv st refs" and "0 < refs p" and un: "vk_sync_timeline_point_unref st p = Some st'"
  shows "advances st st'"
proof -
  obtain st1 where st1: "vk_sync_timeline_unref_point_locked st p = Some st1" "same_timeline st st1"
    by (rule unref_point [OF assms(1,2)])
  have "st1 = st'" using st1(1) un
    by (simp add: vk_sync_timeline_unref_point_locked_def vk_sync_timeline_point_unref_def)
  then show ?thesis using same_advances [OF inv st1(2)] by simp
qed

lemma step_advances:
  assumes "tl_step c c'" "cfg_ok c"
  shows "advances (tl_state c) (tl_state c')"
  using assms(1)
proof cases
  note inv = cfg_okD(1) [OF assms(2)]
  {
    case (alloc z sync v r st po)
    then show ?thesis using alloc_point [OF inv alloc(2,3), of sync v] by auto
  next
    case (install p b r st)
    from install_point [OF inv ext_refs_fresh [OF assms(2) install(2)] cfg_okD(5) [OF assms(2) install(2)] install(3), of b]
      install(4)
    have s: "pending_points st = pending_points (tl_state c) @ [p]" "highest_past st = highest_past (tl_state c)"
      "highest_pending st = pval (tl_state c) p" by auto
    have "pval st q = pval (tl_state c) q" for q
      using install(4) by (auto simp: vk_sync_timeline_point_install_def Let_def pval_def split: bind_splits)
    then show ?thesis using install(1,3) s by (simp add: advances_def)
  next
    case (discard p st)
    have "0 < ext_refs c p" using discard by (intro ext_refs_pos) simp
    then show ?thesis using discard unref_advances [OF inv] by simp
  next
    case (release p st)
    have "0 < ext_refs c p" using release by (intro ext_refs_pos) simp
    then show ?thesis using release unref_advances [OF inv] by simp
  next
    case (get v r st po)
    then show ?thesis using get_point [OF inv, of v] same_advances [OF inv] by auto
  next
    case (signal sync b v r st)
    then show ?thesis using signal_advances [OF inv] by simp
  next
    case (read sync st res)
    obtain r1 st1 fin where g: "vk_sync_timeline_gc_locked sync (tl_state c) True = Some (r1, st1)"
      "collected fin (tl_state c) st1" by (rule gc_spec [OF inv])
    then have "st1 = st" using read by (simp add: vk_sync_timeline_get_value_def)
    then show ?thesis using collected_advances [OF inv g(2)] read by simp
  next
    case (begin_wait sync wp v st w)
    then show ?thesis using begin_advances(1) [OF inv] by simp
  next
    case (resume p v r st w)
    have "0 < ext_refs c p" using resume by (intro ext_refs_pos) force
    from resume_wait [OF inv this cfg_okD(6) [OF assms(2) resume(2)], of r] cfg_okD(7) [OF assms(2) resume(2)] resume(1,3)
    show ?thesis by auto
  }
qed

lemma steps_ok:
  assumes "tl_step\<^sup>*\<^sup>* c c'" "cfg_ok c"
  shows "cfg_ok c' \<and> advances (tl_state c) (tl_state c')"
  using assms(1)
proof (induction rule: rtranclp_induct)
  case (step c1 c2)
  then have "cfg_ok c2" "advances (tl_state c1) (tl_state c2)"
    using step_grows [of c1 c2] step_advances [of c1 c2] by (auto simp: tl_grows_def)
  then show ?case using advances_trans [OF cfg_okD(1) [OF assms(2)]] step.IH by blast
qed (use assms(2) in simp)

text \<open>The points that have to complete before a wait for \<open>v\<close> can look at the first point with a value of
  at least \<open>v\<close>.\<close>

definition ahead :: "vk_sync_timeline_state \<Rightarrow> u64 \<Rightarrow> u64 set" where
  "ahead st v = {p \<in> set (pending_points st). pval st p < v}"

lemma finite_ahead [simp]: "finite (ahead st v)" by (simp add: ahead_def)

lemma ahead_mono: "advances st st' \<Longrightarrow> v \<le> highest_pending st \<Longrightarrow> ahead st' v \<subseteq> ahead st v"
  by (fastforce simp: ahead_def advances_def)

lemma ahead_less:
  assumes inv: "tl_inv st refs" and "v \<le> highest_pending st" "pending_points st \<noteq> []"
  shows "card (ahead st v) < length (pending_points st)"
proof -
  have "last (pending_points st) \<notin> ahead st v"
    using tl_invD(5) [OF inv] assms(2,3) by (simp add: ahead_def values_ok_def not_less)
  moreover have "last (pending_points st) \<in> set (pending_points st)" using assms(3) by simp
  ultimately have "ahead st v \<subset> set (pending_points st)" by (auto simp: ahead_def)
  then have "card (ahead st v) < card (set (pending_points st))" by (simp add: psubset_card_mono)
  then show ?thesis using card_length [of "pending_points st"] by simp
qed

text \<open>One round: the point the thread waited for is gone, whoever completed it.\<close>

lemma round_progress:
  assumes ok: "cfg_ok c" and steps: "tl_step\<^sup>*\<^sup>* c c'" and pv: "(p, v) \<in> set (waiting c')"
    and p: "p \<in> set (pending_points (tl_state c))" and v: "v \<le> highest_pending (tl_state c)"
    and res: "wait_resume (tl_state c') v p VK_SUCCESS = Some (st, w)"
  shows "cfg_ok (resumed c' p v st w)" "v \<le> highest_pending st"
    "w \<noteq> WaitCond" "w = WaitDone r \<Longrightarrow> r = VK_SUCCESS \<and> v \<le> highest_past st"
    "w = WaitPoint q \<Longrightarrow> q \<in> set (pending_points st) \<and> card (ahead st v) < card (ahead (tl_state c) v)"
proof -
  have ok': "cfg_ok c'" "advances (tl_state c) (tl_state c')" using steps_ok [OF steps ok] by auto
  show "cfg_ok (resumed c' p v st w)" using grows_resume [OF ok'(1) pv res] by (simp add: tl_grows_def)
  have held: "0 < ext_refs c' p" using pv by (intro ext_refs_pos) force
  have s: "advances (tl_state c') st" "p \<notin> set (pending_points st)"
    and w: "case w of
       WaitPoint q \<Rightarrow> highest_past st < v \<and> pending_points st \<noteq> [] \<and> q = hd (pending_points st)
     | WaitDone r' \<Rightarrow> r' = VK_SUCCESS \<and> v \<le> highest_past st
     | WaitCond \<Rightarrow> False"
    using resume_wait [OF cfg_okD(1) [OF ok'(1)] held cfg_okD(6) [OF ok'(1) pv], of VK_SUCCESS]
      cfg_okD(7) [OF ok'(1) pv] res by (auto split: wait_state.splits)
  have adv: "advances (tl_state c) st" by (rule advances_trans [OF cfg_okD(1) [OF ok] ok'(2) s(1)])
  then show "v \<le> highest_pending st" using v by (auto simp: advances_def)
  show "w \<noteq> WaitCond" "w = WaitDone r \<Longrightarrow> r = VK_SUCCESS \<and> v \<le> highest_past st" using w by auto
  assume "w = WaitPoint q"
  then have q: "highest_past st < v" "q \<in> set (pending_points st)" using w by auto
  have "pval (tl_state c) p \<le> highest_past st" using adv p s(2) by (auto simp: advances_def)
  then have "p \<in> ahead (tl_state c) v" using p q(1) by (simp add: ahead_def)
  moreover have "p \<notin> ahead st v" using s(2) by (simp add: ahead_def)
  ultimately have "ahead st v \<subset> ahead (tl_state c) v" using ahead_mono [OF adv v] by blast
  then have "card (ahead st v) < card (ahead (tl_state c) v)" by (simp add: psubset_card_mono)
  with q(2) show "q \<in> set (pending_points st) \<and> card (ahead st v) < card (ahead (tl_state c) v)" by blast
qed

lemma rounds_succeed:
  assumes "cfg_ok c" "p \<in> set (pending_points (tl_state c))" "v \<le> highest_pending (tl_state c)"
    "wakes_from wp v c (WaitPoint p) ks" "\<forall>st r. PointWake st r \<in> set ks \<longrightarrow> r = VK_SUCCESS"
    "card (ahead (tl_state c) v) < length ks"
  shows "\<exists>st'. wait_wakes wp v ks (st, WaitPoint p) = Some (st', WaitDone VK_SUCCESS) \<and> v \<le> highest_past st'"
  using assms
proof (induction ks arbitrary: c p st)
  case (Cons k ks)
  from Cons.prems(4) show ?case
  proof (rule wakes_from_point)
    fix c' r st1 w
    assume s: "k = PointWake (tl_state c') r" "tl_step\<^sup>*\<^sup>* c c'" "(p, v) \<in> set (waiting c')"
      "wait_resume (tl_state c') v p r = Some (st1, w)" "wakes_from wp v (resumed c' p v st1 w) w ks"
    have res: "wait_resume (tl_state c') v p VK_SUCCESS = Some (st1, w)" using s(1,4) Cons.prems(5) by auto
    note prog = round_progress [OF Cons.prems(1) s(2,3) Cons.prems(2,3) res]
    have eq: "wait_wakes wp v (k # ks) (st, WaitPoint p) = wait_wakes wp v ks (st1, w)" using s(1,4) by simp
    show ?thesis
    proof (cases w)
      case (WaitPoint q)
      have "\<exists>st'. wait_wakes wp v ks (st1, WaitPoint q) = Some (st', WaitDone VK_SUCCESS) \<and> v \<le> highest_past st'"
        by (rule Cons.IH [OF prog(1)]) (use prog(2) prog(5) [OF WaitPoint] s(5) WaitPoint Cons.prems(5,6) in simp_all)
      then show ?thesis using eq WaitPoint by simp
    qed (use prog(3,4) eq in auto)
  qed
qed simp





text \<open>The timeline is idle when no point is in use; then the last reference is the creator's.\<close>

lemma busy_empty:
  assumes "tl_inv st refs"
  shows "busy_points st = {} \<longleftrightarrow> (\<forall>p. refs p = 0) \<and> pending_points st = []"
proof
  assume busy: "busy_points st = {}"
  have "p \<notin> set (pending_points st)" for p using pending_busy [OF assms, of p] busy by blast
  then have pend: "pending_points st = []" by (cases "pending_points st") auto
  have "refs p = 0" for p
  proof (rule ccontr)
    assume "refs p \<noteq> 0"
    then have pos: "0 < refs p" by simp
    obtain pt where pt: "point_store st p = Some pt" using refs_stored [OF assms pos] by blast
    then have "p \<notin> set (free_points st)" using tl_invD(4) [OF assms, of p] pos by (simp add: point_ok_def)
    then show False using busy pt by (auto simp: busy_points_def)
  qed
  with pend show "(\<forall>p. refs p = 0) \<and> pending_points st = []" by blast
next
  assume idle: "(\<forall>p. refs p = 0) \<and> pending_points st = []"
  have "p \<in> set (free_points st)" if "point_store st p = Some pt" for p pt
    using tl_invD(4) [OF assms, of p] that idle by (simp add: point_ok_def)
  then have "dom (point_store st) \<subseteq> set (free_points st)" by blast
  then show "busy_points st = {}" by (simp add: busy_points_def)
qed

lemma ext_refs_none: "(\<forall>p. ext_refs c p = 0) \<longleftrightarrow> fresh c = [] \<and> held c = [] \<and> waiting c = []"
proof
  assume none: "\<forall>p. ext_refs c p = 0"
  have "fresh c = []" using ext_refs_zero(1) [OF none [rule_format]] by (metis list.set_sel(1))
  moreover have "held c = []" using ext_refs_zero(2) [OF none [rule_format]] by (metis list.set_sel(1))
  moreover have "waiting c = []" using ext_refs_zero(3) [OF none [rule_format]] by (metis imageI list.set_sel(1))
  ultimately show "fresh c = [] \<and> held c = [] \<and> waiting c = []" by simp
qed (simp add: ext_refs_def)

lemma unref_state_frees:
  assumes inv: "tl_inv st refs"
  shows "st_freed (vk_sync_timeline_state_unref st) \<longleftrightarrow> busy_points st = {}"
    "busy_points st = {} \<Longrightarrow> point_store (vk_sync_timeline_state_unref st) = Map.empty"
proof -
  have fin: "finite (busy_points st)" using tl_invD(6) [OF inv] by (simp add: busy_points_def)
  have "st_refcount st - 1 = 0 \<longleftrightarrow> unat (st_refcount st) = 1"
    using right_minus_eq [of "st_refcount st" 1] by (simp only: word_unat_eq_iff [of _ 1] unsigned_1)
  then have zero: "st_refcount st - 1 = 0 \<longleftrightarrow> busy_points st = {}" using tl_invD(7) [OF inv] fin by simp
  then show "st_freed (vk_sync_timeline_state_unref st) \<longleftrightarrow> busy_points st = {}"
    using tl_invD(1) [OF inv] by (simp add: vk_sync_timeline_state_unref_def Let_def)
  assume busy: "busy_points st = {}"
  then have "point_store st |` (- set (free_points st @ pending_points st)) = Map.empty"
    by (auto simp: busy_points_def restrict_map_def fun_eq_iff)
  then show "point_store (vk_sync_timeline_state_unref st) = Map.empty"
    using zero busy by (simp add: vk_sync_timeline_state_unref_def Let_def)
qed

text \<open>Points above the pending value are never collected.\<close>

lemma gc_stuck:
  assumes "point_store st p = Some pt" "pending_points st = p # ps" "highest_pending st < pt_value pt"
  shows "vk_sync_timeline_gc_locked sync st drain = Some (VK_SUCCESS, st)"
  using assms by (simp add: vk_sync_timeline_gc_locked_def)

section \<open>An example run\<close>

text \<open>A timeline starts at 0; a point with value 5 is allocated and installed, and a thread starts to
  wait for value 3.\<close>

definition busy_sync :: point_sync where
  "busy_sync = \<lparr>sync_wait = \<lambda>p. VK_TIMEOUT, sync_init = VK_SUCCESS, sync_reset = \<lambda>p. VK_SUCCESS, has_reset = True\<rparr>"

definition idle_sync :: point_sync where
  "idle_sync = busy_sync\<lparr>sync_wait := \<lambda>p. VK_SUCCESS\<rparr>"

definition run_state :: "int \<Rightarrow> bool \<Rightarrow> vk_sync_timeline_state" where
  "run_state n inst = \<lparr>highest_past = 0, highest_pending = (if inst then 5 else 0), st_refcount = 2,
     pending_points = (if inst then [100] else []), free_points = [],
     point_store = [100 \<mapsto> \<lparr>pt_value = 5, pt_refcount = n, pt_pending = inst\<rparr>], st_freed = False\<rparr>"

definition run_installed :: tl_config where
  "run_installed = \<lparr>tl_state = run_state 1 True, fresh = [], held = [], waiting = []\<rparr>"

definition run_waiting :: tl_config where
  "run_waiting = \<lparr>tl_state = run_state 2 True, fresh = [], held = [], waiting = [(100, 3)]\<rparr>"

lemma run_installed_reachable: "tl_reachable run_installed"
proof -
  let ?st0 = "\<lparr>highest_past = 0, highest_pending = 0, st_refcount = 1, pending_points = [],
      free_points = [], point_store = Map.empty, st_freed = False\<rparr>"
  let ?c0 = "\<lparr>tl_state = ?st0, fresh = [], held = [], waiting = []\<rparr>"
  have r0: "tl_reachable ?c0" by (rule tl_reachable.start [of 1 True True 0]) (simp add: vk_sync_timeline_init_def)
  have al: "vk_sync_timeline_alloc_point_locked busy_sync 100 (tl_state ?c0) 5 =
      Some (VK_SUCCESS, run_state 1 False, Some 100)"
    by (simp add: vk_sync_timeline_alloc_point_locked_def vk_sync_timeline_gc_locked_def alloc_new_point_def
        busy_sync_def run_state_def vk_sync_timeline_state_ref_def Let_def)
  from tl_step.alloc [OF _ _ al]
  have s1: "tl_step ?c0 \<lparr>tl_state = run_state 1 False, fresh = [100], held = [], waiting = []\<rparr>" (is "tl_step _ ?c1")
    by (simp add: points_room_def)
  have ins: "vk_sync_timeline_point_install True (tl_state ?c1) 100 = Some (VK_SUCCESS, run_state 1 True)"
    by (simp add: vk_sync_timeline_point_install_def run_state_def Let_def)
  from tl_step.install [OF _ _ ins] have s2: "tl_step ?c1 run_installed"
    by (simp add: run_installed_def run_state_def pval_def)
  show ?thesis by (rule tl_reachable.step [OF tl_reachable.step [OF r0 s1] s2])
qed

lemma run_wait_begin: "wait_begin busy_sync False (tl_state run_installed) 3 = Some (run_state 2 True, WaitPoint 100)"
  by (simp add: wait_begin_def run_installed_def run_state_def vk_sync_timeline_gc_locked_def busy_sync_def
      wait_loop_head_def vk_sync_timeline_first_point_def vk_sync_timeline_ref_point_locked_def)

lemma run_began: "began run_installed 3 (run_state 2 True) (WaitPoint 100) = run_waiting"
  by (simp add: run_installed_def run_waiting_def)

lemma run_wait_step: "tl_step run_installed run_waiting"
  using tl_step.begin_wait [OF run_wait_begin] unfolding run_began .

lemma run_waiting_reachable: "tl_reachable run_waiting"
  by (rule tl_reachable.step [OF run_installed_reachable run_wait_step])

text \<open>Another thread asks for the point of value 4 while the first one waits; then the wait for the point
  returns success.\<close>

definition run_got :: tl_config where
  "run_got = \<lparr>tl_state = run_state 3 True, fresh = [], held = [100], waiting = [(100, 3)]\<rparr>"

definition run_wake :: wake where
  "run_wake = PointWake (tl_state run_got) VK_SUCCESS"

lemma run_get_step: "tl_step run_waiting run_got"
proof -
  have "vk_sync_timeline_get_point_locked (tl_state run_waiting) 4 = Some (VK_SUCCESS, run_state 3 True, Some 100)"
    by (simp add: vk_sync_timeline_get_point_locked_def run_waiting_def run_state_def vk_sync_timeline_ref_point_locked_def)
  from tl_step.get [OF this] show ?thesis by (simp add: run_waiting_def run_got_def)
qed

lemma run_wakes: "wakes_from False 3 (began run_installed 3 (run_state 2 True) (WaitPoint 100)) (WaitPoint 100) [run_wake]"
proof -
  have ok: "cfg_ok run_got"
    by (rule reachable_ok [OF tl_reachable.step [OF run_waiting_reachable run_get_step]])
  have pv: "(100, 3) \<in> set (waiting run_got)" by (simp add: run_got_def)
  have "0 < ext_refs run_got 100" by (simp add: ext_refs_def run_got_def)
  from resume_wait [OF cfg_okD(1) [OF ok] this cfg_okD(6) [OF ok pv], of VK_SUCCESS] cfg_okD(7) [OF ok pv]
  obtain st w where "wait_resume (tl_state run_got) 3 100 VK_SUCCESS = Some (st, w)" by auto
  then have "wakes_from False 3 run_waiting (WaitPoint 100) [run_wake]"
    unfolding run_wake_def
    by (rule wakes_from.waited [OF r_into_rtranclp [of tl_step, OF run_get_step] pv _ wakes_from.asleep])
  then show ?thesis unfolding run_began .
qed

section \<open>Properties\<close>

text \<open>C7. In every configuration any number of threads can reach through the timeline's operations, the
  reference counts are exact: each point's count is the number of clients and waiting threads
  that hold it plus one while it is pending, the timeline's count is one more than the number of
  points in use, and the free points are those with count zero. So a point that somebody holds
  or waits for is never on the free list, where it could be recycled under the waiter.\<close>

theorem timeline_refs_exact:
  assumes "tl_reachable c"
  shows "\<not> st_freed (tl_state c) \<and>
    unat (st_refcount (tl_state c)) = 1 + card (busy_points (tl_state c)) \<and>
    (\<forall>p pt. point_store (tl_state c) p = Some pt \<longrightarrow>
       pt_refcount pt = int (ext_refs c p) + (if p \<in> set (pending_points (tl_state c)) then 1 else 0) \<and>
       (p \<in> set (free_points (tl_state c)) \<longleftrightarrow> pt_refcount pt = 0)) \<and>
    (\<forall>p \<in> set (fresh c) \<union> set (held c) \<union> fst ` set (waiting c). p \<in> busy_points (tl_state c))"
proof -
  note inv = cfg_okD(1) [OF reachable_ok [OF assms]]
  have pts: "pt_refcount pt = int (ext_refs c p) + (if p \<in> set (pending_points (tl_state c)) then 1 else 0) \<and>
       (p \<in> set (free_points (tl_state c)) \<longleftrightarrow> pt_refcount pt = 0)" if "point_store (tl_state c) p = Some pt" for p pt
    using tl_invD(4) [OF inv, of p] that by (simp add: point_ok_def)
  have "p \<in> busy_points (tl_state c)" if "p \<in> set (fresh c) \<union> set (held c) \<union> fst ` set (waiting c)" for p
  proof -
    have pos: "0 < ext_refs c p" using that by (intro ext_refs_pos) auto
    from refs_stored [OF inv this] obtain pt where "point_store (tl_state c) p = Some pt" by blast
    with pts [OF this] pos show ?thesis by (auto simp: busy_points_def)
  qed
  then show ?thesis using tl_invD(1,7) [OF inv] pts by blast
qed

theorem timeline_refs_exact_witness:
  "tl_reachable run_waiting \<and> pt_refcount (the (point_store (tl_state run_waiting) 100)) = int (ext_refs run_waiting 100) + 1 \<and>
   100 \<in> busy_points (tl_state run_waiting)"
proof -
  note ex = timeline_refs_exact [OF run_waiting_reachable, THEN conjunct2, THEN conjunct2]
  have run: "point_store (tl_state run_waiting) 100 = Some \<lparr>pt_value = 5, pt_refcount = 2, pt_pending = True\<rparr>"
    "100 \<in> set (pending_points (tl_state run_waiting))" "100 \<in> fst ` set (waiting run_waiting)"
    by (simp_all add: run_waiting_def run_state_def)
  have "2 = int (ext_refs run_waiting 100) + 1" using ex [THEN conjunct1, rule_format, OF run(1)] run(2) by simp
  moreover have "100 \<in> busy_points (tl_state run_waiting)" using ex [THEN conjunct2, THEN bspec, of 100] run(3) by simp
  ultimately show ?thesis using run_waiting_reachable run(1) by simp
qed

text \<open>C25. In every reachable configuration every operation is defined: no operation, of a client or of
  a thread that comes back from its wait, follows a pointer to a point that does not exist or
  takes the first entry of an empty list of pending points. For the allocation of a point, the
  memory the allocator returns holds no other point and the timeline has fewer points than its
  32-bit reference count can count.\<close>

theorem timeline_ops_defined:
  assumes "tl_reachable c"
  shows "vk_sync_timeline_gc_locked sync (tl_state c) drain \<noteq> None \<and>
    (z \<notin> dom (point_store (tl_state c)) \<and> points_room (tl_state c) \<longrightarrow>
       vk_sync_timeline_alloc_point_locked sync z (tl_state c) v \<noteq> None) \<and>
    vk_sync_timeline_get_point_locked (tl_state c) v \<noteq> None \<and>
    vk_sync_timeline_signal_locked sync b (tl_state c) v \<noteq> None \<and>
    vk_sync_timeline_get_value sync (tl_state c) \<noteq> None \<and>
    vk_sync_timeline_finish sync (tl_state c) \<noteq> None \<and>
    wait_begin sync wp (tl_state c) v \<noteq> None \<and>
    (\<forall>(p, x) \<in> set (waiting c). wait_resume (tl_state c) x p r \<noteq> None) \<and>
    (\<forall>p \<in> set (fresh c). vk_sync_timeline_point_install b (tl_state c) p \<noteq> None) \<and>
    (\<forall>p \<in> set (fresh c) \<union> set (held c). vk_sync_timeline_point_unref (tl_state c) p \<noteq> None)"
proof -
  note ok = reachable_ok [OF assms]
  note inv = cfg_okD(1) [OF ok]
  have gc: "\<exists>r st. vk_sync_timeline_gc_locked sync (tl_state c) drain = Some (r, st) \<and> tl_inv st (ext_refs c) \<and>
      highest_pending st = highest_pending (tl_state c)" for drain
  proof -
    obtain r st where "vk_sync_timeline_gc_locked sync (tl_state c) drain = Some (r, st)" by (rule gc_defined [OF inv])
    with gc_grows(1,3) [OF ok this] show ?thesis by blast
  qed
  obtain r1 st1 where g1: "vk_sync_timeline_gc_locked sync (tl_state c) True = Some (r1, st1)" using gc by blast
  obtain r2 st2 where g2: "vk_sync_timeline_gc_locked sync (tl_state c) False = Some (r2, st2)"
    "tl_inv st2 (ext_refs c)" "highest_pending st2 = highest_pending (tl_state c)" using gc by blast
  have "wait_begin sync wp (tl_state c) v \<noteq> None"
  proof (cases "highest_pending (tl_state c) < v")
    case False
    then have "v \<le> highest_pending st2" using g2(3) by (simp add: not_less)
    from loop_head [OF g2(2) this] g2(1) show ?thesis by (auto simp: wait_begin_def)
  qed (simp add: wait_begin_def)
  moreover have "wait_resume (tl_state c) x p r \<noteq> None" if "(p, x) \<in> set (waiting c)" for p x
  proof -
    have "0 < ext_refs c p" using that by (intro ext_refs_pos) force
    from resume_wait [OF inv this cfg_okD(6) [OF ok that], of r] cfg_okD(7) [OF ok that] show ?thesis by auto
  qed
  moreover have "vk_sync_timeline_point_install b (tl_state c) p \<noteq> None" if "p \<in> set (fresh c)" for p
    using refs_stored [OF inv, of p] ext_refs_fresh [OF ok that] by (auto simp: vk_sync_timeline_point_install_def)
  moreover have "vk_sync_timeline_point_unref (tl_state c) p \<noteq> None" if "p \<in> set (fresh c) \<union> set (held c)" for p
  proof -
    have "0 < ext_refs c p" using that by (intro ext_refs_pos) auto
    from refs_stored [OF inv this] show ?thesis
      by (auto simp: vk_sync_timeline_point_unref_def vk_sync_timeline_unref_point_no_unref_state_locked_def Let_def)
  qed
  moreover have "vk_sync_timeline_get_point_locked (tl_state c) v \<noteq> None" using get_point [OF inv, of v] by auto
  moreover have "vk_sync_timeline_alloc_point_locked sync z (tl_state c) v \<noteq> None"
    if "z \<notin> dom (point_store (tl_state c))" "points_room (tl_state c)"
    using alloc_point [OF inv that, of sync v] by auto
  ultimately show ?thesis
    using gc [of drain] g1 by (auto simp: vk_sync_timeline_signal_locked_def vk_sync_timeline_get_value_def
      vk_sync_timeline_finish_def)
qed

theorem timeline_ops_defined_witness:
  "tl_reachable run_waiting \<and> wait_resume (tl_state run_waiting) 3 100 VK_SUCCESS \<noteq> None \<and>
   vk_sync_timeline_alloc_point_locked busy_sync 200 (tl_state run_waiting) 3 \<noteq> None \<and>
   vk_sync_timeline_get_value busy_sync (tl_state run_waiting) \<noteq> None"
  using timeline_ops_defined [OF run_waiting_reachable, of busy_sync True 200 3 True False VK_SUCCESS] run_waiting_reachable
  by (simp add: run_waiting_def run_state_def points_room_def)

text \<open>C26. \<open>vk_sync_timeline_get_value\<close> completes exactly the longest prefix of signalled pending points and
  returns the value of the last of them, or the past value when there is none; an error of the
  first point that is neither signalled nor busy is returned instead. The value does not go
  back.\<close>

theorem timeline_get_value_exact:
  assumes "tl_reachable c"
  shows "\<exists>st. vk_sync_timeline_get_value sync (tl_state c) = Some (st,
      (let ok = (\<lambda>p. sync_wait sync p = VK_SUCCESS);
           value = past_value (tl_state c) (takeWhile ok (pending_points (tl_state c)))
       in case dropWhile ok (pending_points (tl_state c)) of
            [] \<Rightarrow> Inr value
          | p # _ \<Rightarrow> if sync_wait sync p = VK_TIMEOUT then Inr value else Inl (sync_wait sync p))) \<and>
    pending_points st = dropWhile (\<lambda>p. sync_wait sync p = VK_SUCCESS) (pending_points (tl_state c)) \<and>
    highest_past (tl_state c) \<le> highest_past st"
proof -
  note ok = reachable_ok [OF assms]
  note inv = cfg_okD(1) [OF ok]
  obtain r st where gc: "vk_sync_timeline_gc_locked sync (tl_state c) True = Some (r, st)" by (rule gc_defined [OF inv])
  note d = drain_prefix [OF inv gc]
  have result: "vk_sync_timeline_get_value sync (tl_state c) =
      Some (st, if r \<noteq> VK_SUCCESS then Inl r else Inr (highest_past st))"
    using gc by (simp add: vk_sync_timeline_get_value_def)
  have "(if r \<noteq> VK_SUCCESS then Inl r else Inr (highest_past st)) =
      (case pending_points st of
         [] \<Rightarrow> Inr (highest_past st)
       | p # _ \<Rightarrow> if sync_wait sync p = VK_TIMEOUT then Inr (highest_past st) else Inl (sync_wait sync p))"
  proof (cases "pending_points st")
    case (Cons p ps)
    have "dropWhile (\<lambda>p. sync_wait sync p = VK_SUCCESS) (pending_points (tl_state c)) = p # ps"
      by (rule trans [OF d(1) [symmetric] Cons])
    then have "sync_wait sync p \<noteq> VK_SUCCESS" unfolding dropWhile_eq_Cons_conv by blast
    then show ?thesis using d(3) Cons by simp
  qed (use d(3) in simp)
  then show ?thesis
    unfolding Let_def d(1) [symmetric] d(2) [symmetric]
    using result gc_grows(4) [OF ok gc] by (intro exI [of _ st] conjI) (simp_all only:)
qed

theorem timeline_get_value_exact_witness:
  "\<exists>st. vk_sync_timeline_get_value idle_sync (tl_state run_waiting) = Some (st, Inr 5)"
  using timeline_get_value_exact [OF run_waiting_reachable, of idle_sync]
  by (auto simp: run_waiting_def run_state_def idle_sync_def past_value_def pval_def)

text \<open>C27. Along every sequence of operations by any number of threads the value of the timeline never
  decreases.\<close>

theorem timeline_value_monotone:
  assumes "tl_reachable c" "tl_step\<^sup>*\<^sup>* c c'"
  shows "highest_past (tl_state c) \<le> highest_past (tl_state c')"
proof -
  from assms(2) have "cfg_ok c' \<and> highest_past (tl_state c) \<le> highest_past (tl_state c')"
  proof (induction rule: rtranclp_induct)
    case base
    then show ?case using reachable_ok [OF assms(1)] by simp
  next
    case (step c1 c2)
    then show ?case using step_grows [of c1 c2] by (auto simp: tl_grows_def intro: order_trans)
  qed
  then show ?thesis by blast
qed

theorem timeline_value_monotone_witness:
  "highest_past (tl_state run_installed) \<le> highest_past (tl_state run_waiting)"
  by (rule timeline_value_monotone [OF run_installed_reachable r_into_rtranclp [of tl_step, OF run_wait_step]])

text \<open>C28. A wait for a value that is pending returns success, with the timeline at that value or above,
  whatever the other threads do while it waits, when the waits for the points it waits for succeed;
  as many of these waits as points were pending when it was called suffice. The polls of the
  collection at its beginning may find the points busy.\<close>

theorem timeline_wait_returns:
  assumes "tl_reachable c" "v \<le> highest_pending (tl_state c)"
    "\<forall>p\<in>set (pending_points (tl_state c)). sync_wait sync p = VK_SUCCESS \<or> sync_wait sync p = VK_TIMEOUT"
    "wait_begin sync False (tl_state c) v = Some (st, w)" "wakes_from False v (began c v st w) w ks"
    "\<forall>st r. PointWake st r \<in> set ks \<longrightarrow> r = VK_SUCCESS" "length (pending_points (tl_state c)) \<le> length ks"
  shows "\<exists>st'. vk_sync_timeline_wait sync False ks (tl_state c) v = Some (st', WaitDone VK_SUCCESS) \<and> v \<le> highest_past st'"
proof (cases "v = 0")
  case True
  then show ?thesis by (simp add: vk_sync_timeline_wait_def)
next
  case False
  note ok = reachable_ok [OF assms(1)]
  note inv = cfg_okD(1) [OF ok]
  note b = begin_advances [OF inv assms(4)]
  have eq: "vk_sync_timeline_wait sync False ks (tl_state c) v = wait_wakes False v ks (st, w)"
    using False assms(4) by (simp add: vk_sync_timeline_wait_def)
  show ?thesis
  proof (cases w)
    case (WaitDone r)
    have "r = VK_SUCCESS" using b(3) [OF WaitDone] assms(3) by auto
    then show ?thesis using eq WaitDone b(2) [OF WaitDone] by simp
  next
    case WaitCond
    then show ?thesis using b(5) assms(2) by (simp add: not_less)
  next
    case (WaitPoint p)
    note p = b(4) [OF WaitPoint]
    have some: "pending_points (tl_state c) \<noteq> []"
    proof
      assume none: "pending_points (tl_state c) = []"
      then have "highest_pending (tl_state c) = highest_past (tl_state c)" using tl_invD(5) [OF inv] by (simp add: values_ok_def)
      then show False using b(1) assms(2) p by (auto simp: advances_def)
    qed
    have "card (ahead st v) \<le> card (ahead (tl_state c) v)"
      using ahead_mono [OF b(1) assms(2)] by (simp add: card_mono)
    then have "card (ahead st v) < length ks" using ahead_less [OF inv assms(2) some] assms(7) by simp
    moreover have "cfg_ok (began c v st w)" using grows_begin_wait [OF ok assms(4)] by (simp add: tl_grows_def)
    ultimately show ?thesis
      unfolding eq WaitPoint using p assms(5,6) WaitPoint by (intro rounds_succeed [where c = "began c v st w"]) auto
  qed
qed

theorem timeline_wait_returns_witness:
  "\<exists>st. vk_sync_timeline_wait busy_sync False [run_wake] (tl_state run_installed) 3 = Some (st, WaitDone VK_SUCCESS) \<and>
    3 \<le> highest_past st"
  by (rule timeline_wait_returns [OF run_installed_reachable _ _ run_wait_begin run_wakes])
    (simp_all add: run_installed_def run_state_def busy_sync_def run_wake_def)



text \<open>C30. \<open>vk_sync_timeline_finish\<close> frees the state at once exactly when no client holds a point, no
  thread waits and every pending point is signalled; then every point is freed with it.\<close>

theorem timeline_finish_frees:
  assumes "tl_reachable c"
  shows "\<exists>st. vk_sync_timeline_finish sync (tl_state c) = Some st \<and>
    (st_freed st \<longleftrightarrow> fresh c = [] \<and> held c = [] \<and> waiting c = [] \<and>
       (\<forall>p\<in>set (pending_points (tl_state c)). sync_wait sync p = VK_SUCCESS)) \<and>
    (st_freed st \<longrightarrow> point_store st = Map.empty)"
proof -
  note ok = reachable_ok [OF assms]
  note inv = cfg_okD(1) [OF ok]
  obtain r st1 where gc: "vk_sync_timeline_gc_locked sync (tl_state c) True = Some (r, st1)" by (rule gc_defined [OF inv])
  note inv1 = gc_grows(1) [OF ok gc]
  have "pending_points st1 = [] \<longleftrightarrow> (\<forall>p\<in>set (pending_points (tl_state c)). sync_wait sync p = VK_SUCCESS)"
    using drain_prefix(1) [OF inv gc] by simp
  then show ?thesis
    using unref_state_frees [OF inv1] gc by (simp add: vk_sync_timeline_finish_def busy_empty [OF inv1] ext_refs_none)
qed

theorem timeline_finish_frees_witness:
  "\<exists>st. vk_sync_timeline_finish idle_sync (tl_state run_installed) = Some st \<and> st_freed st \<and> point_store st = Map.empty"
proof -
  have "fresh run_installed = [] \<and> held run_installed = [] \<and> waiting run_installed = [] \<and>
    (\<forall>p\<in>set (pending_points (tl_state run_installed)). sync_wait idle_sync p = VK_SUCCESS)"
    by (simp add: run_installed_def idle_sync_def)
  with timeline_finish_frees [OF run_installed_reachable, of idle_sync] show ?thesis by auto
qed

text \<open>C38. A host signal of a value below the first pending point, which the asserted contract excludes
  but \<open>vkSignalSemaphore\<close> requires, succeeds and sets the pending value back below the pending points.
  In the state it leaves, no collection completes a point, whatever the objects of the points
  answer: reading the timeline gives the host's value and leaves the state as it is, and a thread
  that begins to wait for any later value goes to the condition variable, although a point with
  that value may be pending.\<close>

theorem host_signal_loses_points:
  assumes "tl_reachable c" "vk_sync_timeline_gc_locked sync (tl_state c) True = Some (VK_SUCCESS, st1)"
    "pending_points st1 = p # ps" "highest_past st1 < v" "v < pval st1 p"
  shows "\<exists>st. vk_sync_timeline_signal_locked sync True (tl_state c) v = Some (VK_SUCCESS, st) \<and>
    pending_points st = p # ps \<and>
    (\<forall>sync' drain. vk_sync_timeline_gc_locked sync' st drain = Some (VK_SUCCESS, st)) \<and>
    (\<forall>sync'. vk_sync_timeline_get_value sync' st = Some (st, Inr v)) \<and>
    (\<forall>sync' wp x. v < x \<longrightarrow> wait_begin sync' wp st x = Some (st, WaitCond))"
proof -
  let ?st = "st1\<lparr>highest_pending := v, highest_past := v\<rparr>"
  note inv1 = gc_grows(1) [OF reachable_ok [OF assms(1)] assms(2)]
  obtain pt where pt: "point_store st1 p = Some pt" using pending_stored [OF inv1] assms(3) by auto
  have stuck: "vk_sync_timeline_gc_locked sync' ?st drain = Some (VK_SUCCESS, ?st)" for sync' drain
    using pt assms(3,5) by (intro gc_stuck [of _ p pt ps]) (simp_all add: pval_def)
  have "\<not> v \<le> highest_past st1" using assms(4) by (simp add: not_le)
  then have "vk_sync_timeline_signal_locked sync True (tl_state c) v = Some (VK_SUCCESS, ?st)"
    using assms(2) by (simp add: vk_sync_timeline_signal_locked_def)
  then show ?thesis
    using stuck assms(3) by (intro exI [of _ ?st]) (simp add: vk_sync_timeline_get_value_def wait_begin_def)
qed

theorem host_signal_loses_points_witness:
  "\<exists>st. vk_sync_timeline_signal_locked busy_sync True (tl_state run_installed) 2 = Some (VK_SUCCESS, st) \<and>
    pending_points st = [100] \<and> vk_sync_timeline_get_value idle_sync st = Some (st, Inr 2) \<and>
    wait_begin idle_sync False st 5 = Some (st, WaitCond)"
proof -
  have gc: "vk_sync_timeline_gc_locked busy_sync (tl_state run_installed) True = Some (VK_SUCCESS, run_state 1 True)"
    by (simp add: vk_sync_timeline_gc_locked_def run_installed_def run_state_def busy_sync_def)
  from host_signal_loses_points [OF run_installed_reachable gc, of 100 "[]" 2]
  show ?thesis by (auto simp: run_state_def pval_def)
qed

end
