(* ===== verification/Blob.thy ===== *)
theory Blob
  imports Radv_Prelude "HOL-Library.Monad_Syntax"
begin

text \<open>
  The serialisation buffer of \<open>src/src/util/blob.c\<close>, through which shaders and pipelines enter and
  leave the caches: a growing byte buffer with aligned writes, and a reader over bytes that may
  come from a file.

  \<open>realloc\<close> is outside code and a parameter; \<open>realloc_ok\<close> states what the C standard and the size
  limit of an object promise of it. The bytes of an integer are those of a little-endian host.
  A \<open>memcpy\<close> or \<open>memset\<close> outside the allocation is undefined (\<open>None\<close>). Pointers into the bytes of a reader are
  offsets from its \<open>data\<close>.
\<close>

section \<open>The bytes of an integer\<close>

definition word_bytes :: "nat \<Rightarrow> 'a::len word \<Rightarrow> u8 list" where
  "word_bytes n w = map (\<lambda>i. ucast (drop_bit (8 * i) w)) [0..<n]"

primrec bytes_word :: "u8 list \<Rightarrow> 'a::len word" where
  "bytes_word [] = 0"
| "bytes_word (b # bs) = ucast b OR push_bit 8 (bytes_word bs)"

definition align_uintptr :: "u64 \<Rightarrow> u64 \<Rightarrow> u64" where
  "align_uintptr value alignment = ALIGN_POT value alignment"

section \<open>Writing\<close>

record blob =
  bdata :: "u8 list option"
  allocated :: u64
  bsize :: u64
  fixed_allocation :: bool
  out_of_memory :: bool

type_synonym realloc_fn = "u8 list option \<Rightarrow> u64 \<Rightarrow> u8 list option"

definition BLOB_INITIAL_SIZE :: u64 where "BLOB_INITIAL_SIZE = 4096"

definition grow_to_fit :: "realloc_fn \<Rightarrow> blob \<Rightarrow> u64 \<Rightarrow> bool \<times> blob" where
  "grow_to_fit realloc blob additional =
     (if out_of_memory blob then (False, blob)
      else if bsize blob + additional \<le> allocated blob then (True, blob)
      else if fixed_allocation blob then (False, blob\<lparr>out_of_memory := True\<rparr>)
      else
        let to_allocate = (if allocated blob = 0 then BLOB_INITIAL_SIZE else allocated blob * 2);
            to_allocate = max to_allocate (allocated blob + additional)
        in case realloc (bdata blob) to_allocate of
             None \<Rightarrow> (False, blob\<lparr>out_of_memory := True\<rparr>)
           | Some new_data \<Rightarrow> (True, blob\<lparr>bdata := Some new_data, allocated := to_allocate\<rparr>))"

text \<open>Storing bytes at an offset of the data; nothing happens when the data pointer is null.\<close>

definition store_bytes :: "blob \<Rightarrow> u64 \<Rightarrow> u8 list \<Rightarrow> blob option" where
  "store_bytes blob offset bytes =
     (case bdata blob of
        None \<Rightarrow> Some blob
      | Some d \<Rightarrow> map_option (\<lambda>d'. blob\<lparr>bdata := Some d'\<rparr>) (array_write d (unat offset) bytes))"

definition blob_align :: "realloc_fn \<Rightarrow> blob \<Rightarrow> u64 \<Rightarrow> (bool \<times> blob) option" where
  "blob_align realloc blob alignment =
     (let new_size = align_uintptr (bsize blob) alignment in
      if bsize blob < new_size then
        (case grow_to_fit realloc blob (new_size - bsize blob) of
           (False, blob) \<Rightarrow> Some (False, blob)
         | (True, blob) \<Rightarrow> do {
             blob \<leftarrow> store_bytes blob (bsize blob) (replicate (unat (new_size - bsize blob)) 0);
             Some (True, blob\<lparr>bsize := new_size\<rparr>)
           })
      else Some (True, blob))"

definition blob_init :: blob where
  "blob_init = \<lparr>bdata = None, allocated = 0, bsize = 0, fixed_allocation = False, out_of_memory = False\<rparr>"

definition blob_init_fixed :: "u8 list option \<Rightarrow> u64 \<Rightarrow> blob" where
  "blob_init_fixed data sz =
     \<lparr>bdata = data, allocated = sz, bsize = 0, fixed_allocation = True, out_of_memory = False\<rparr>"

definition blob_finish_get_buffer ::
  "realloc_fn \<Rightarrow> blob \<Rightarrow> u8 list option \<times> u64 \<times> blob" where
  "blob_finish_get_buffer realloc blob =
     (realloc (bdata blob) (bsize blob), bsize blob, blob\<lparr>bdata := None\<rparr>)"

text \<open>The bytes are the source object; \<open>to_write\<close> is its size.\<close>

definition blob_overwrite_bytes :: "blob \<Rightarrow> u64 \<Rightarrow> u8 list \<Rightarrow> (bool \<times> blob) option" where
  "blob_overwrite_bytes blob offset bytes =
     (let to_write = of_nat (length bytes) in
      if offset + to_write < offset \<or> bsize blob < offset + to_write then Some (False, blob)
      else map_option (Pair True) (store_bytes blob offset bytes))"

definition blob_write_bytes :: "realloc_fn \<Rightarrow> blob \<Rightarrow> u8 list \<Rightarrow> (bool \<times> blob) option" where
  "blob_write_bytes realloc blob bytes =
     (let to_write = of_nat (length bytes) in
      case grow_to_fit realloc blob to_write of
        (False, blob) \<Rightarrow> Some (False, blob)
      | (True, blob) \<Rightarrow> do {
          blob \<leftarrow> (if to_write > 0 then store_bytes blob (bsize blob) bytes else Some blob);
          Some (True, blob\<lparr>bsize := bsize blob + to_write\<rparr>)
        })"

definition blob_reserve_bytes :: "realloc_fn \<Rightarrow> blob \<Rightarrow> u64 \<Rightarrow> u64 \<times> blob" where
  "blob_reserve_bytes realloc blob to_write =
     (case grow_to_fit realloc blob to_write of
        (False, blob) \<Rightarrow> (-1, blob)
      | (True, blob) \<Rightarrow> (bsize blob, blob\<lparr>bsize := bsize blob + to_write\<rparr>))"

definition blob_reserve_uint32 :: "realloc_fn \<Rightarrow> blob \<Rightarrow> (u64 \<times> blob) option" where
  "blob_reserve_uint32 realloc blob = do {
     (_, blob) \<leftarrow> blob_align realloc blob 4;
     Some (blob_reserve_bytes realloc blob 4)
   }"

definition blob_reserve_intptr :: "realloc_fn \<Rightarrow> blob \<Rightarrow> (u64 \<times> blob) option" where
  "blob_reserve_intptr realloc blob = do {
     (_, blob) \<leftarrow> blob_align realloc blob 8;
     Some (blob_reserve_bytes realloc blob 8)
   }"

text \<open>\<open>BLOB_WRITE_TYPE\<close>, for a type of \<open>n\<close> bytes.\<close>

definition BLOB_WRITE_TYPE :: "nat \<Rightarrow> realloc_fn \<Rightarrow> blob \<Rightarrow> 'a::len word \<Rightarrow> (bool \<times> blob) option" where
  "BLOB_WRITE_TYPE n realloc blob value = do {
     (_, blob) \<leftarrow> blob_align realloc blob (of_nat n);
     blob_write_bytes realloc blob (word_bytes n value)
   }"

definition blob_write_uint8 :: "realloc_fn \<Rightarrow> blob \<Rightarrow> u8 \<Rightarrow> (bool \<times> blob) option" where
  "blob_write_uint8 = BLOB_WRITE_TYPE 1"

definition blob_write_uint16 :: "realloc_fn \<Rightarrow> blob \<Rightarrow> u16 \<Rightarrow> (bool \<times> blob) option" where
  "blob_write_uint16 = BLOB_WRITE_TYPE 2"

definition blob_write_uint32 :: "realloc_fn \<Rightarrow> blob \<Rightarrow> u32 \<Rightarrow> (bool \<times> blob) option" where
  "blob_write_uint32 = BLOB_WRITE_TYPE 4"

definition blob_write_uint64 :: "realloc_fn \<Rightarrow> blob \<Rightarrow> u64 \<Rightarrow> (bool \<times> blob) option" where
  "blob_write_uint64 = BLOB_WRITE_TYPE 8"

definition blob_write_intptr :: "realloc_fn \<Rightarrow> blob \<Rightarrow> u64 \<Rightarrow> (bool \<times> blob) option" where
  "blob_write_intptr = BLOB_WRITE_TYPE 8"

definition blob_overwrite_uint8 :: "blob \<Rightarrow> u64 \<Rightarrow> u8 \<Rightarrow> (bool \<times> blob) option" where
  "blob_overwrite_uint8 blob offset value = blob_overwrite_bytes blob offset (word_bytes 1 value)"

definition blob_overwrite_uint32 :: "blob \<Rightarrow> u64 \<Rightarrow> u32 \<Rightarrow> (bool \<times> blob) option" where
  "blob_overwrite_uint32 blob offset value = blob_overwrite_bytes blob offset (word_bytes 4 value)"

definition blob_overwrite_intptr :: "blob \<Rightarrow> u64 \<Rightarrow> u64 \<Rightarrow> (bool \<times> blob) option" where
  "blob_overwrite_intptr blob offset value = blob_overwrite_bytes blob offset (word_bytes 8 value)"

text \<open>\<open>str\<close> is the memory at the string pointer; \<open>strlen\<close> is undefined without a terminator.\<close>

definition strlen :: "u8 list \<Rightarrow> nat option" where
  "strlen str = (if 0 \<in> set str then Some (length (takeWhile (\<lambda>c. c \<noteq> 0) str)) else None)"

definition blob_write_string :: "realloc_fn \<Rightarrow> blob \<Rightarrow> u8 list \<Rightarrow> (bool \<times> blob) option" where
  "blob_write_string realloc blob str = do {
     len \<leftarrow> strlen str;
     blob_write_bytes realloc blob (take (len + 1) str)
   }"

section \<open>Reading\<close>

record blob_reader =
  rdata :: "u8 list"
  rend :: u64
  rcurrent :: u64
  overrun :: bool

definition blob_reader_init :: "u8 list \<Rightarrow> u64 \<Rightarrow> blob_reader" where
  "blob_reader_init data sz = \<lparr>rdata = data, rend = sz, rcurrent = 0, overrun = False\<rparr>"

definition blob_reader_align :: "blob_reader \<Rightarrow> u64 \<Rightarrow> blob_reader" where
  "blob_reader_align blob alignment = blob\<lparr>rcurrent := align_uintptr (rcurrent blob) alignment\<rparr>"

definition ensure_can_read :: "blob_reader \<Rightarrow> u64 \<Rightarrow> bool \<times> blob_reader" where
  "ensure_can_read blob sz =
     (if overrun blob then (False, blob)
      else if rcurrent blob \<le> rend blob \<and> rend blob - rcurrent blob \<ge> sz then (True, blob)
      else (False, blob\<lparr>overrun := True\<rparr>))"

text \<open>The result is the offset of the bytes, or null.\<close>

definition blob_read_bytes :: "blob_reader \<Rightarrow> u64 \<Rightarrow> u64 option \<times> blob_reader" where
  "blob_read_bytes blob sz =
     (case ensure_can_read blob sz of
        (False, blob) \<Rightarrow> (None, blob)
      | (True, blob) \<Rightarrow> (Some (rcurrent blob), blob\<lparr>rcurrent := rcurrent blob + sz\<rparr>))"

text \<open>Copying to the object \<open>dest\<close>; the new contents of \<open>dest\<close> are returned.\<close>

definition blob_copy_bytes :: "blob_reader \<Rightarrow> u8 list \<Rightarrow> u64 \<Rightarrow> (u8 list \<times> blob_reader) option" where
  "blob_copy_bytes blob dest sz =
     (case blob_read_bytes blob sz of
        (None, blob) \<Rightarrow> Some (dest, blob)
      | (Some p, blob) \<Rightarrow>
          if sz = 0 then Some (dest, blob)
          else do {
            bytes \<leftarrow> array_slice (rdata blob) (unat p) (unat sz);
            dest \<leftarrow> array_write dest 0 bytes;
            Some (dest, blob)
          })"

definition blob_skip_bytes :: "blob_reader \<Rightarrow> u64 \<Rightarrow> blob_reader" where
  "blob_skip_bytes blob sz =
     (case ensure_can_read blob sz of
        (True, blob) \<Rightarrow> blob\<lparr>rcurrent := rcurrent blob + sz\<rparr>
      | (False, blob) \<Rightarrow> blob)"

text \<open>\<open>BLOB_READ_TYPE\<close>, for a type of \<open>n\<close> bytes.\<close>

definition BLOB_READ_TYPE :: "nat \<Rightarrow> blob_reader \<Rightarrow> ('a::len word \<times> blob_reader) option" where
  "BLOB_READ_TYPE n blob = do {
     let blob = blob_reader_align blob (of_nat n);
     (ret, blob) \<leftarrow> blob_copy_bytes blob (replicate n 0) (of_nat n);
     Some (bytes_word ret, blob)
   }"

definition blob_read_uint8 :: "blob_reader \<Rightarrow> (u8 \<times> blob_reader) option" where
  "blob_read_uint8 = BLOB_READ_TYPE 1"

definition blob_read_uint16 :: "blob_reader \<Rightarrow> (u16 \<times> blob_reader) option" where
  "blob_read_uint16 = BLOB_READ_TYPE 2"

definition blob_read_uint32 :: "blob_reader \<Rightarrow> (u32 \<times> blob_reader) option" where
  "blob_read_uint32 = BLOB_READ_TYPE 4"

definition blob_read_uint64 :: "blob_reader \<Rightarrow> (u64 \<times> blob_reader) option" where
  "blob_read_uint64 = BLOB_READ_TYPE 8"

definition blob_read_intptr :: "blob_reader \<Rightarrow> (u64 \<times> blob_reader) option" where
  "blob_read_intptr = BLOB_READ_TYPE 8"

text \<open>The string is returned as the offset of its first byte. The size of the string is an \<open>int\<close>, so it
  is cut to 32 bits and sign-extended when the reader advances. \<open>memchr\<close> looks at the bytes up to
  the end, which must exist.\<close>

definition blob_read_string :: "blob_reader \<Rightarrow> (u64 option \<times> blob_reader) option" where
  "blob_read_string blob =
     (if rcurrent blob \<ge> rend blob then Some (None, blob\<lparr>overrun := True\<rparr>)
      else do {
        rest \<leftarrow> array_slice (rdata blob) (unat (rcurrent blob)) (unat (rend blob - rcurrent blob));
        (case strlen rest of
           None \<Rightarrow> Some (None, blob\<lparr>overrun := True\<rparr>)
         | Some nul \<Rightarrow>
             let sz = (of_nat nul + 1 :: 32 word)
             in Some (Some (rcurrent blob), blob\<lparr>rcurrent := rcurrent blob + scast sz\<rparr>))
      })"

section \<open>Bytes of integers: round trip\<close>

lemma bit_bytes_word:
  "bit (bytes_word bs :: 'a::len word) k \<longleftrightarrow>
     k < LENGTH('a) \<and> k div 8 < length bs \<and> bit (bs ! (k div 8)) (k mod 8)"
proof (induction bs arbitrary: k)
  case (Cons b bs)
  show ?case
  proof (cases "k < 8")
    case True
    then show ?thesis by (auto simp: bit_simps)
  next
    case False
    then obtain j where k: "k = j + 8" by (metis add.commute le_Suc_ex not_less)
    have "\<not> bit b k" using False bit_imp_le_length [of b k] by auto
    moreover have "(j + 8) div 8 = Suc (j div 8)" "(j + 8) mod 8 = j mod 8" by simp_all
    ultimately show ?thesis using Cons.IH [of j] k by (auto simp: bit_simps)
  qed
qed simp

lemma length_word_bytes [simp]: "length (word_bytes n w) = n"
  by (simp add: word_bytes_def)

lemma bytes_word_bytes:
  fixes w :: "'a::len word"
  assumes "LENGTH('a) = 8 * n"
  shows "bytes_word (word_bytes n w) = w"
proof (rule bit_word_eqI)
  fix k assume k: "k < LENGTH('a)"
  then have "k div 8 < n" using assms by simp
  then show "bit (bytes_word (word_bytes n w) :: 'a word) k = bit w k"
    using k by (simp add: bit_bytes_word word_bytes_def bit_simps)
qed

section \<open>Well-formed blobs\<close>

text \<open>What \<open>realloc\<close> promises: a block of the new size with the old contents up to the smaller size,
  and never a block of more than \<open>PTRDIFF_MAX\<close> bytes.\<close>

definition realloc_ok :: "realloc_fn \<Rightarrow> bool" where
  "realloc_ok realloc \<longleftrightarrow>
     (\<forall>d n d'. realloc d n = Some d' \<longrightarrow> length d' = unat n \<and> unat n < 2 ^ 63 \<and>
        (\<forall>old. d = Some old \<longrightarrow> take (min (length old) (unat n)) d' = take (min (length old) (unat n)) old))"

text \<open>The type of a blob that is not yet finished: the data has exactly the allocated size, the bytes
  written fit into it, and without data nothing is allocated.\<close>

definition blob_ok :: "blob \<Rightarrow> bool" where
  "blob_ok b \<longleftrightarrow>
     (case bdata b of None \<Rightarrow> allocated b = 0 | Some d \<Rightarrow> length d = unat (allocated b)) \<and>
     bsize b \<le> allocated b \<and> unat (allocated b) < 2 ^ 63"

definition contents :: "blob \<Rightarrow> u8 list" where
  "contents b = (case bdata b of None \<Rightarrow> [] | Some d \<Rightarrow> take (unat (bsize b)) d)"

lemma blob_okD:
  assumes "blob_ok b"
  shows "bdata b = None \<Longrightarrow> allocated b = 0" "bdata b = Some d \<Longrightarrow> length d = unat (allocated b)"
    "unat (bsize b) \<le> unat (allocated b)" "unat (allocated b) < 2 ^ 63" "unat (bsize b) < 2 ^ 63"
  using assms by (auto simp: blob_ok_def word_le_nat_alt)

lemma contents_length: "blob_ok b \<Longrightarrow> length (contents b) = unat (bsize b)"
  by (auto simp: blob_ok_def contents_def word_le_nat_alt split: option.splits)

lemma blob_oom [simp]:
  "blob_ok (b\<lparr>out_of_memory := x\<rparr>) = blob_ok b" "contents (b\<lparr>out_of_memory := x\<rparr>) = contents b"
  by (simp_all add: blob_ok_def contents_def split: option.splits)

lemma blob_init_ok: "blob_ok blob_init" "contents blob_init = []"
  by (simp_all add: blob_ok_def contents_def blob_init_def)

lemma unat_of_nat_u64: "n < 2 ^ 64 \<Longrightarrow> unat (of_nat n :: u64) = n"
  by (simp add: unat_of_nat)

text \<open>The outcome of making room.\<close>

lemma grow_spec:
  assumes ok: "blob_ok b" and r: "realloc_ok r" and n: "unat n < 2 ^ 63"
    and grow: "grow_to_fit r b n = (res, b')"
  shows "blob_ok b'" "bsize b' = bsize b" "contents b' = contents b" "fixed_allocation b' = fixed_allocation b"
    "res \<Longrightarrow> unat (bsize b) + unat n \<le> unat (allocated b') \<and> out_of_memory b' = out_of_memory b"
    "\<not> res \<Longrightarrow> out_of_memory b'" "out_of_memory b \<Longrightarrow> \<not> res"
proof -
  note b = blob_okD [OF ok]
  have sum: "unat (bsize b + n) = unat (bsize b) + unat n" "unat (allocated b + n) = unat (allocated b) + unat n"
    using b(4,5) n by (simp_all add: unat_add_no_wrap)
  have "blob_ok b' \<and> bsize b' = bsize b \<and> contents b' = contents b \<and> fixed_allocation b' = fixed_allocation b \<and>
    (res \<longrightarrow> unat (bsize b) + unat n \<le> unat (allocated b') \<and> out_of_memory b' = out_of_memory b) \<and>
    (\<not> res \<longrightarrow> out_of_memory b') \<and> (out_of_memory b \<longrightarrow> \<not> res)"
  proof (cases "out_of_memory b \<or> bsize b + n \<le> allocated b \<or> fixed_allocation b")
    case True
    then show ?thesis
      using grow ok sum by (auto simp: grow_to_fit_def word_le_nat_alt split: if_splits)
  next
    case False
    define m where "m = max (if allocated b = 0 then BLOB_INITIAL_SIZE else allocated b * 2) (allocated b + n)"
    have le: "unat (allocated b) + unat n \<le> unat m" using sum by (simp add: m_def max_def word_le_nat_alt)
    have g: "grow_to_fit r b n = (case r (bdata b) m of None \<Rightarrow> (False, b\<lparr>out_of_memory := True\<rparr>)
        | Some d \<Rightarrow> (True, b\<lparr>bdata := Some d, allocated := m\<rparr>))"
      using False unfolding grow_to_fit_def Let_def m_def by (simp only: de_Morgan_disj if_False)
    show ?thesis
    proof (cases "r (bdata b) m")
      case None
      then show ?thesis using g grow ok False by auto
    next
      case (Some d)
      have d: "length d = unat m" "unat m < 2 ^ 63" "\<And>old. bdata b = Some old \<Longrightarrow>
          take (min (length old) (unat m)) d = take (min (length old) (unat m)) old"
        using r Some unfolding realloc_ok_def by blast+
      have b': "res" "b' = b\<lparr>bdata := Some d, allocated := m\<rparr>" using g grow Some by simp_all
      have "take (unat (bsize b)) d = contents b"
      proof (cases "bdata b")
        case None
        then have "unat (bsize b) = 0" using b(1,3) by simp
        then show ?thesis using None by (simp add: contents_def)
      next
        case old: (Some old)
        have "min (length old) (unat m) = length old" using b(2) [OF old] le by simp
        then have "take (length old) d = old" using d(3) [OF old] by simp
        then have "take (unat (bsize b)) (take (length old) d) = take (unat (bsize b)) old" by simp
        then show ?thesis using b(3) b(2) [OF old] old by (simp add: contents_def)
      qed
      moreover have "blob_ok b'" using d(1,2) b(3) le b' by (simp add: blob_ok_def word_le_nat_alt)
      ultimately show ?thesis using b' b(3) le False by (simp add: contents_def)
    qed
  qed
  then show "blob_ok b'" "bsize b' = bsize b" "contents b' = contents b" "fixed_allocation b' = fixed_allocation b"
    "res \<Longrightarrow> unat (bsize b) + unat n \<le> unat (allocated b') \<and> out_of_memory b' = out_of_memory b"
    "\<not> res \<Longrightarrow> out_of_memory b'" "out_of_memory b \<Longrightarrow> \<not> res" by blast+
qed

text \<open>Storing bytes behind the contents and moving the size over them appends them.\<close>

lemma store_append:
  assumes ok: "blob_ok b" and fit: "unat (bsize b) + length bs \<le> unat (allocated b)"
  obtains b' where "store_bytes b (bsize b) bs = Some b'"
    "blob_ok (b'\<lparr>bsize := bsize b + of_nat (length bs)\<rparr>)"
    "contents (b'\<lparr>bsize := bsize b + of_nat (length bs)\<rparr>) = contents b @ bs"
    "bsize b' = bsize b" "out_of_memory b' = out_of_memory b" "fixed_allocation b' = fixed_allocation b"
proof (cases "bdata b")
  case None
  then have "bs = []" "bsize b = 0" using fit blob_okD(1,3) [OF ok] by (auto simp: word_unat_eq_iff)
  have same: "b\<lparr>bsize := bsize b + of_nat (length bs)\<rparr> = b" using \<open>bs = []\<close> by (cases b) simp
  have "store_bytes b (bsize b) bs = Some b" using None by (simp add: store_bytes_def)
  from that [OF this, unfolded same] ok \<open>bs = []\<close> show ?thesis by (simp only: append_Nil2)
next
  case (Some d)
  note len = blob_okD(2) [OF ok Some]
  let ?n = "bsize b + of_nat (length bs)"
  have "length bs < 2 ^ 64" using fit blob_okD(4) [OF ok] by simp
  then have n: "unat ?n = unat (bsize b) + length bs"
    using fit blob_okD(4) [OF ok] unat_add_no_wrap [of "bsize b" "of_nat (length bs)"] by (simp add: unat_of_nat_u64)
  let ?d = "take (unat (bsize b)) d @ bs @ drop (unat (bsize b) + length bs) d"
  have "store_bytes b (bsize b) bs = Some (b\<lparr>bdata := Some ?d\<rparr>)"
    using Some fit len by (simp add: store_bytes_def array_write_def)
  moreover have "length ?d = length d" "take (unat ?n) ?d = contents b @ bs"
    using fit len n Some by (simp_all add: contents_def)
  moreover from this(1) have "blob_ok (b\<lparr>bdata := Some ?d, bsize := ?n\<rparr>)"
    using fit len n blob_okD(4) [OF ok] unfolding blob_ok_def word_le_nat_alt by simp
  ultimately show ?thesis using that [of "b\<lparr>bdata := Some ?d\<rparr>"] by (simp add: contents_def)
qed

lemma write_bytes_spec:
  assumes ok: "blob_ok b" and r: "realloc_ok r" and n: "length bs < 2 ^ 63"
  obtains res b' where "blob_write_bytes r b bs = Some (res, b')" "blob_ok b'"
    "contents b' = (if res then contents b @ bs else contents b)"
    "res \<Longrightarrow> out_of_memory b' = out_of_memory b" "\<not> res \<Longrightarrow> out_of_memory b'" "out_of_memory b \<Longrightarrow> \<not> res"
proof -
  have un: "unat (of_nat (length bs) :: u64) = length bs" using n by (simp add: unat_of_nat_u64)
  obtain res b1 where g: "grow_to_fit r b (of_nat (length bs)) = (res, b1)" by fastforce
  have n': "unat (of_nat (length bs) :: u64) < 2 ^ 63" using n un by simp
  note s = grow_spec [OF ok r n' g]
  show ?thesis
  proof (cases res)
    case False
    then show ?thesis using that [of False b1] g s by (simp add: blob_write_bytes_def)
  next
    case True
    obtain b2 where b2: "store_bytes b1 (bsize b1) bs = Some b2"
      "blob_ok (b2\<lparr>bsize := bsize b1 + of_nat (length bs)\<rparr>)"
      "contents (b2\<lparr>bsize := bsize b1 + of_nat (length bs)\<rparr>) = contents b1 @ bs"
      "bsize b2 = bsize b1" "out_of_memory b2 = out_of_memory b1"
      using s(1,2,5) True un by (rule_tac store_append [of b1 bs]) simp_all
    have "blob_write_bytes r b bs = Some (True, b2\<lparr>bsize := bsize b1 + of_nat (length bs)\<rparr>)"
    proof (cases "bs = []")
      case empty: True
      then have "b2 = b1" using b2(1) s(1)
        by (auto simp: store_bytes_def array_write_def blob_ok_def word_le_nat_alt split: option.splits)
      then show ?thesis using empty g True by (simp add: blob_write_bytes_def)
    next
      case False
      then have "0 < (of_nat (length bs) :: u64)" using un by (simp add: word_less_nat_alt)
      then show ?thesis using g True b2(1,4) by (simp add: blob_write_bytes_def Let_def)
    qed
    moreover have "out_of_memory b2 = out_of_memory b" "\<not> out_of_memory b" using b2(5) s(5,7) True by auto
    ultimately show ?thesis using that [of True] b2 s(2,3) by simp
  qed
qed

section \<open>Alignment\<close>

definition round_up :: "nat \<Rightarrow> nat \<Rightarrow> nat" where
  "round_up n x = (x + n - 1) div n * n"

lemma round_up_bounds:
  assumes "0 < n"
  shows "x \<le> round_up n x" "round_up n x < x + n"
proof -
  have "x + n - 1 < n + (x + n - 1) div n * n" using assms by (rule dividend_less_div_times)
  then show "x \<le> round_up n x" using assms by (simp add: round_up_def)
  have "(x + n - 1) div n * n \<le> x + n - 1" by (rule div_times_less_eq_dividend)
  then show "round_up n x < x + n" using assms unfolding round_up_def by linarith
qed

lemma align_spec:
  assumes "k \<le> 3" "unat x < 2 ^ 63"
  shows "unat (align_uintptr x (of_nat (2 ^ k))) = round_up (2 ^ k) (unat x)"
proof -
  have "(2::nat) ^ k \<le> 2 ^ 3" using assms(1) by (intro power_increasing) simp_all
  then have "unat x + 2 ^ k \<le> 2 ^ LENGTH(64)" using assms(2) by simp
  from ALIGN_POT_pow2 [OF _ this] assms(1) show ?thesis by (simp add: align_uintptr_def round_up_def)
qed

lemma align_spec_diff:
  assumes "k \<le> 3" "unat x < 2 ^ 63"
  defines "y \<equiv> align_uintptr x (of_nat (2 ^ k))"
  shows "x \<le> y" "unat (y - x) = round_up (2 ^ k) (unat x) - unat x" "unat (y - x) < 2 ^ k"
    "y = x + of_nat (round_up (2 ^ k) (unat x) - unat x)"
proof -
  note y = align_spec [OF assms(1,2), folded y_def]
  have b: "unat x \<le> round_up (2 ^ k) (unat x)" "round_up (2 ^ k) (unat x) < unat x + 2 ^ k"
    by (rule round_up_bounds, simp)+
  then show le: "x \<le> y" by (simp add: word_le_nat_alt y)
  then show d: "unat (y - x) = round_up (2 ^ k) (unat x) - unat x" by (simp add: unat_sub y)
  then show "unat (y - x) < 2 ^ k" using b by simp
  have "of_nat (unat (y - x)) = y - x" by simp
  then show "y = x + of_nat (round_up (2 ^ k) (unat x) - unat x)" unfolding d by simp
qed

definition padding :: "nat \<Rightarrow> nat \<Rightarrow> u8 list" where
  "padding n x = replicate (round_up n x - x) 0"

lemma blob_align_spec:
  assumes ok: "blob_ok b" and r: "realloc_ok r" and k: "k \<le> 3"
  obtains res b' where "blob_align r b (of_nat (2 ^ k)) = Some (res, b')" "blob_ok b'"
    "contents b' = (if res then contents b @ padding (2 ^ k) (length (contents b)) else contents b)"
    "res \<Longrightarrow> out_of_memory b' = out_of_memory b" "\<not> res \<Longrightarrow> out_of_memory b'"
proof -
  let ?y = "align_uintptr (bsize b) (of_nat (2 ^ k))"
  note y = align_spec_diff [OF k blob_okD(5) [OF ok]]
  note len = contents_length [OF ok]
  show ?thesis
  proof (cases "bsize b < ?y")
    case False
    then have "?y = bsize b" using y(1) by simp
    then have "unat (?y - bsize b) = 0" by simp
    then have "padding (2 ^ k) (length (contents b)) = []" using y(2) len by (simp add: padding_def)
    then show ?thesis using that [of True b] False ok by (simp add: blob_align_def Let_def)
  next
    case True
    have "(2::nat) ^ k \<le> 2 ^ 3" using k by (intro power_increasing) simp_all
    then have n: "unat (?y - bsize b) < 2 ^ 63" using y(3) by simp
    obtain res b1 where g: "grow_to_fit r b (?y - bsize b) = (res, b1)" by fastforce
    note s = grow_spec [OF ok r n g]
    show ?thesis
    proof (cases res)
      case False
      then show ?thesis using that [of False b1] True g s by (simp add: blob_align_def Let_def)
    next
      case res: True
      let ?z = "replicate (unat (?y - bsize b)) (0 :: u8)"
      obtain b2 where b2: "store_bytes b1 (bsize b1) ?z = Some b2"
        "blob_ok (b2\<lparr>bsize := bsize b1 + of_nat (length ?z)\<rparr>)"
        "contents (b2\<lparr>bsize := bsize b1 + of_nat (length ?z)\<rparr>) = contents b1 @ ?z"
        "out_of_memory b2 = out_of_memory b1"
        using s(1,2,5) res by (rule_tac store_append [of b1 ?z]) simp_all
      have new: "bsize b1 + of_nat (length ?z) = ?y" using s(2) by simp
      have "blob_align r b (of_nat (2 ^ k)) = Some (True, b2\<lparr>bsize := ?y\<rparr>)"
        using True g res b2(1) s(2) unfolding blob_align_def Let_def by simp
      moreover have "?z = padding (2 ^ k) (length (contents b))" using y(2) len by (simp add: padding_def)
      ultimately show ?thesis using that [of True "b2\<lparr>bsize := ?y\<rparr>"] b2(2-4) s(3,5) res unfolding new by simp
    qed
  qed
qed

lemma write_type_spec:
  fixes v :: "'a::len word"
  assumes ok: "blob_ok b" and r: "realloc_ok r" and k: "k \<le> 3"
  obtains res b' where "BLOB_WRITE_TYPE (2 ^ k) r b v = Some (res, b')" "blob_ok b'"
    "res \<Longrightarrow> contents b' = contents b @ padding (2 ^ k) (length (contents b)) @ word_bytes (2 ^ k) v"
    "res \<Longrightarrow> out_of_memory b' = out_of_memory b" "\<not> res \<Longrightarrow> out_of_memory b'" "out_of_memory b \<Longrightarrow> \<not> res"
    "\<exists>ys. contents b' = contents b @ ys"
proof -
  obtain r1 b1 where a: "blob_align r b (of_nat (2 ^ k)) = Some (r1, b1)" "blob_ok b1"
    "contents b1 = (if r1 then contents b @ padding (2 ^ k) (length (contents b)) else contents b)"
    "r1 \<Longrightarrow> out_of_memory b1 = out_of_memory b" "\<not> r1 \<Longrightarrow> out_of_memory b1" by (rule blob_align_spec [OF ok r k]) blast
  have "(2::nat) ^ k \<le> 2 ^ 3" using k by (intro power_increasing) simp_all
  then have "length (word_bytes (2 ^ k) v) < 2 ^ 63" by simp
  then obtain r2 b2 where w: "blob_write_bytes r b1 (word_bytes (2 ^ k) v) = Some (r2, b2)" "blob_ok b2"
    "contents b2 = (if r2 then contents b1 @ word_bytes (2 ^ k) v else contents b1)"
    "r2 \<Longrightarrow> out_of_memory b2 = out_of_memory b1" "\<not> r2 \<Longrightarrow> out_of_memory b2" "out_of_memory b1 \<Longrightarrow> \<not> r2"
    by (rule write_bytes_spec [OF a(2) r]) blast
  have wt: "BLOB_WRITE_TYPE (2 ^ k) r b v = Some (r2, b2)"
    using a(1) w(1) by (simp add: BLOB_WRITE_TYPE_def)
  have imp: "r2 \<Longrightarrow> r1" using a(5) w(6) by blast
  show ?thesis
  proof (rule that [OF wt w(2)])
    show "contents b2 = contents b @ padding (2 ^ k) (length (contents b)) @ word_bytes (2 ^ k) v" if r2
      using a(3) w(3) imp that by simp
    show "out_of_memory b2 = out_of_memory b" if r2 using a(4) w(4) imp that by simp
    show "out_of_memory b2" if "\<not> r2" using w(5) that .
    show "\<not> r2" if "out_of_memory b" using a(4,5) w(6) that by blast
    show "\<exists>ys. contents b2 = contents b @ ys" using a(3) w(3) by auto
  qed
qed

section \<open>Sequences of values\<close>

text \<open>A client writes a sequence of values and stops at the first failure; a reader reads values of
  given types. \<open>TCopy\<close> and \<open>TSkip\<close> are further ways to pass over bytes.\<close>

datatype blob_item =
    Item8 u8 | Item16 u16 | Item32 u32 | Item64 u64 | ItemIntptr u64
  | ItemBytes "u8 list" | ItemString "u8 list"

datatype item_type =
    T8 | T16 | T32 | T64 | TIntptr | TBytes u64 | TString | TCopy u64 | TSkip u64

primrec type_of :: "blob_item \<Rightarrow> item_type" where
  "type_of (Item8 v) = T8"
| "type_of (Item16 v) = T16"
| "type_of (Item32 v) = T32"
| "type_of (Item64 v) = T64"
| "type_of (ItemIntptr v) = TIntptr"
| "type_of (ItemBytes bs) = TBytes (of_nat (length bs))"
| "type_of (ItemString s) = TString"

primrec write_item :: "realloc_fn \<Rightarrow> blob \<Rightarrow> blob_item \<Rightarrow> (bool \<times> blob) option" where
  "write_item r b (Item8 v) = blob_write_uint8 r b v"
| "write_item r b (Item16 v) = blob_write_uint16 r b v"
| "write_item r b (Item32 v) = blob_write_uint32 r b v"
| "write_item r b (Item64 v) = blob_write_uint64 r b v"
| "write_item r b (ItemIntptr v) = blob_write_intptr r b v"
| "write_item r b (ItemBytes bs) = blob_write_bytes r b bs"
| "write_item r b (ItemString s) = blob_write_string r b (s @ [0])"

fun write_items :: "realloc_fn \<Rightarrow> blob \<Rightarrow> blob_item list \<Rightarrow> (bool \<times> blob) option" where
  "write_items r b [] = Some (True, b)"
| "write_items r b (it # its) = do {
     (res, b) \<leftarrow> write_item r b it;
     (if res then write_items r b its else Some (False, b))
   }"

definition the_bytes :: "blob_reader \<Rightarrow> u64 \<Rightarrow> u64 \<Rightarrow> u8 list option" where
  "the_bytes br p n = array_slice (rdata br) (unat p) (unat n)"

text \<open>The result is a value, or nothing for a null pointer and for \<open>TSkip\<close>.\<close>

primrec read_item :: "item_type \<Rightarrow> blob_reader \<Rightarrow> (blob_item option \<times> blob_reader) option" where
  "read_item T8 br = map_option (\<lambda>(v, br). (Some (Item8 v), br)) (blob_read_uint8 br)"
| "read_item T16 br = map_option (\<lambda>(v, br). (Some (Item16 v), br)) (blob_read_uint16 br)"
| "read_item T32 br = map_option (\<lambda>(v, br). (Some (Item32 v), br)) (blob_read_uint32 br)"
| "read_item T64 br = map_option (\<lambda>(v, br). (Some (Item64 v), br)) (blob_read_uint64 br)"
| "read_item TIntptr br = map_option (\<lambda>(v, br). (Some (ItemIntptr v), br)) (blob_read_intptr br)"
| "read_item (TBytes n) br =
     (case blob_read_bytes br n of
        (None, br) \<Rightarrow> Some (None, br)
      | (Some p, br) \<Rightarrow> map_option (\<lambda>bs. (Some (ItemBytes bs), br)) (the_bytes br p n))"
| "read_item TString br = do {
     (res, br) \<leftarrow> blob_read_string br;
     (case res of
        None \<Rightarrow> Some (None, br)
      | Some p \<Rightarrow> Some (Some (ItemString (takeWhile (\<lambda>c. c \<noteq> 0) (drop (unat p) (rdata br)))), br))
   }"
| "read_item (TCopy n) br =
     map_option (\<lambda>(bs, br). (Some (ItemBytes bs), br)) (blob_copy_bytes br (replicate (unat n) 0) n)"
| "read_item (TSkip n) br = Some (None, blob_skip_bytes br n)"

fun read_items :: "item_type list \<Rightarrow> blob_reader \<Rightarrow> (blob_item option list \<times> blob_reader) option" where
  "read_items [] br = Some ([], br)"
| "read_items (ty # tys) br = do {
     (it, br) \<leftarrow> read_item ty br;
     (its, br) \<leftarrow> read_items tys br;
     Some (it # its, br)
   }"

text \<open>A string has no zero byte and fits an \<open>int\<close>; an object has at most \<open>PTRDIFF_MAX\<close> bytes.\<close>

primrec item_ok :: "blob_item \<Rightarrow> bool" where
  "item_ok (Item8 v) = True"
| "item_ok (Item16 v) = True"
| "item_ok (Item32 v) = True"
| "item_ok (Item64 v) = True"
| "item_ok (ItemIntptr v) = True"
| "item_ok (ItemBytes bs) = (length bs < 2 ^ 63)"
| "item_ok (ItemString s) = (0 \<notin> set s \<and> length s < 2 ^ 31 - 1)"

text \<open>The bytes of a value written at an offset.\<close>

primrec item_bytes :: "blob_item \<Rightarrow> nat \<Rightarrow> u8 list" where
  "item_bytes (Item8 v) x = padding 1 x @ word_bytes 1 v"
| "item_bytes (Item16 v) x = padding 2 x @ word_bytes 2 v"
| "item_bytes (Item32 v) x = padding 4 x @ word_bytes 4 v"
| "item_bytes (Item64 v) x = padding 8 x @ word_bytes 8 v"
| "item_bytes (ItemIntptr v) x = padding 8 x @ word_bytes 8 v"
| "item_bytes (ItemBytes bs) x = bs"
| "item_bytes (ItemString s) x = s @ [0]"

fun items_bytes :: "blob_item list \<Rightarrow> nat \<Rightarrow> u8 list" where
  "items_bytes [] x = []"
| "items_bytes (it # its) x = item_bytes it x @ items_bytes its (x + length (item_bytes it x))"

text \<open>The contract of a write.\<close>

definition appends :: "blob \<Rightarrow> u8 list \<Rightarrow> (bool \<times> blob) option \<Rightarrow> bool" where
  "appends b bs result \<longleftrightarrow>
     (\<exists>res b'. result = Some (res, b') \<and> blob_ok b' \<and> (\<exists>ys. contents b' = contents b @ ys) \<and>
        (res \<longrightarrow> contents b' = contents b @ bs \<and> \<not> out_of_memory b \<and> \<not> out_of_memory b') \<and>
        (\<not> res \<longrightarrow> out_of_memory b'))"

lemma appendsE:
  assumes "appends b bs result"
  obtains res b' where "result = Some (res, b')" "blob_ok b'" "\<exists>ys. contents b' = contents b @ ys"
    "res \<longrightarrow> contents b' = contents b @ bs \<and> \<not> out_of_memory b \<and> \<not> out_of_memory b'"
    "\<not> res \<longrightarrow> out_of_memory b'"
  using assms unfolding appends_def by blast

lemma appends_type:
  assumes "blob_ok b" "realloc_ok r" "k \<le> 3"
  shows "appends b (padding (2 ^ k) (length (contents b)) @ word_bytes (2 ^ k) v) (BLOB_WRITE_TYPE (2 ^ k) r b v)"
  by (rule write_type_spec [OF assms, of v]) (unfold appends_def, blast)

lemma appends_bytes:
  assumes "blob_ok b" "realloc_ok r" "length bs < 2 ^ 63"
  shows "appends b bs (blob_write_bytes r b bs)"
proof -
  obtain res b' where w: "blob_write_bytes r b bs = Some (res, b')" "blob_ok b'"
    "contents b' = (if res then contents b @ bs else contents b)"
    "res \<Longrightarrow> out_of_memory b' = out_of_memory b" "\<not> res \<Longrightarrow> out_of_memory b'" "out_of_memory b \<Longrightarrow> \<not> res"
    by (rule write_bytes_spec [OF assms]) blast
  show ?thesis unfolding appends_def
    by (rule exI [of _ res], rule exI [of _ b']) (use w in \<open>cases res; auto\<close>)
qed

lemma takeWhile_string: "0 \<notin> set s \<Longrightarrow> takeWhile (\<lambda>c. c \<noteq> 0) (s @ 0 # rest) = (s :: u8 list)"
  by (induction s) auto

lemma strlen_string: "0 \<notin> set s \<Longrightarrow> strlen (s @ 0 # rest) = Some (length s)"
  by (simp add: strlen_def takeWhile_string)

lemma appends_item:
  assumes "blob_ok b" "realloc_ok r" "item_ok it"
  shows "appends b (item_bytes it (length (contents b))) (write_item r b it)"
proof (cases it)
  case (Item8 v)
  then show ?thesis using appends_type [OF assms(1,2), of 0 v] by (simp add: blob_write_uint8_def)
next
  case (Item16 v)
  then show ?thesis using appends_type [OF assms(1,2), of 1 v] by (simp add: blob_write_uint16_def)
next
  case (Item32 v)
  then show ?thesis using appends_type [OF assms(1,2), of 2 v] by (simp add: blob_write_uint32_def)
next
  case (Item64 v)
  then show ?thesis using appends_type [OF assms(1,2), of 3 v] by (simp add: blob_write_uint64_def)
next
  case (ItemIntptr v)
  then show ?thesis using appends_type [OF assms(1,2), of 3 v] by (simp add: blob_write_intptr_def)
next
  case (ItemBytes bs)
  then show ?thesis using appends_bytes [OF assms(1,2)] assms(3) by simp
next
  case (ItemString s)
  then show ?thesis
    using appends_bytes [OF assms(1,2), of "s @ [0]"] assms(3) strlen_string [of s "[]"] by (simp add: blob_write_string_def)
qed

lemma write_items_spec:
  assumes "blob_ok b" "realloc_ok r" "\<forall>it\<in>set its. item_ok it"
  shows "\<exists>res b'. write_items r b its = Some (res, b') \<and> blob_ok b' \<and> (\<exists>ys. contents b' = contents b @ ys) \<and>
    (res \<longrightarrow> contents b' = contents b @ items_bytes its (length (contents b))) \<and> (\<not> res \<longrightarrow> out_of_memory b')"
  using assms
proof (induction its arbitrary: b)
  case (Cons it its)
  have "item_ok it" using Cons.prems(3) by simp
  from appendsE [OF appends_item [OF Cons.prems(1,2) this]] obtain res b1 ys where
    w: "write_item r b it = Some (res, b1)" "blob_ok b1" "contents b1 = contents b @ ys"
    "res \<longrightarrow> contents b1 = contents b @ item_bytes it (length (contents b))" "\<not> res \<longrightarrow> out_of_memory b1" by metis
  show ?case
  proof (cases res)
    case False
    then show ?thesis using w by auto
  next
    case True
    have "\<forall>it\<in>set its. item_ok it" using Cons.prems(3) by simp
    from Cons.IH [OF w(2) Cons.prems(2) this] obtain r2 b2 zs where
      w2: "write_items r b1 its = Some (r2, b2)" "blob_ok b2" "contents b2 = contents b1 @ zs"
      "r2 \<longrightarrow> contents b2 = contents b1 @ items_bytes its (length (contents b1))" "\<not> r2 \<longrightarrow> out_of_memory b2" by metis
    then show ?thesis using w True by simp
  qed
qed auto

section \<open>Reading back\<close>

text \<open>A reader that has passed the bytes \<open>xs\<close> and has the bytes \<open>ys\<close> before it.\<close>

definition reader_at :: "blob_reader \<Rightarrow> u8 list \<Rightarrow> u8 list \<Rightarrow> bool" where
  "reader_at br xs ys \<longleftrightarrow>
     \<not> overrun br \<and> rdata br = xs @ ys \<and> unat (rend br) = length (xs @ ys) \<and> length (xs @ ys) < 2 ^ 63 \<and>
     unat (rcurrent br) = length xs"

lemma reader_advance:
  assumes "reader_at br xs (zs @ ys)" "unat n = length zs"
  shows "reader_at (br\<lparr>rcurrent := rcurrent br + n\<rparr>) (xs @ zs) ys"
proof -
  have "unat (rcurrent br + n) = unat (rcurrent br) + unat n"
    using assms by (intro unat_add_no_wrap) (simp add: reader_at_def)
  then show ?thesis using assms by (simp add: reader_at_def)
qed

lemma reader_can_read:
  assumes "reader_at br xs (zs @ ys)" "unat n = length zs"
  shows "ensure_can_read br n = (True, br)"
proof -
  have le: "rcurrent br \<le> rend br" using assms by (simp add: reader_at_def word_le_nat_alt)
  then have "unat (rend br - rcurrent br) = length zs + length ys"
    using assms by (simp add: unat_sub reader_at_def)
  then have "n \<le> rend br - rcurrent br" using assms(2) by (simp add: word_le_nat_alt)
  with le assms(1) show ?thesis by (simp add: ensure_can_read_def reader_at_def)
qed

lemma reader_read_bytes:
  assumes "reader_at br xs (zs @ ys)" "unat n = length zs"
  shows "blob_read_bytes br n = (Some (rcurrent br), br\<lparr>rcurrent := rcurrent br + n\<rparr>)"
    "array_slice (rdata br) (unat (rcurrent br)) (unat n) = Some zs"
  using reader_can_read [OF assms] assms by (simp_all add: blob_read_bytes_def array_slice_def reader_at_def)

lemma reader_copy_bytes:
  assumes "reader_at br xs (zs @ ys)" "unat n = length zs" "length dest = length zs" "zs \<noteq> []"
  shows "blob_copy_bytes br dest n = Some (zs, br\<lparr>rcurrent := rcurrent br + n\<rparr>)"
proof -
  have "n \<noteq> 0" using assms(2,4) by auto
  moreover have "array_write dest 0 zs = Some zs" using assms(3) by (simp add: array_write_def)
  ultimately show ?thesis
    using reader_read_bytes [OF assms(1,2)] by (simp add: blob_copy_bytes_def)
qed

lemma reader_align:
  assumes at: "reader_at br xs (padding (2 ^ k) (length xs) @ ys)" and k: "k \<le> 3"
  shows "reader_at (blob_reader_align br (of_nat (2 ^ k))) (xs @ padding (2 ^ k) (length xs)) ys"
proof -
  let ?n = "round_up (2 ^ k) (length xs) - length xs"
  have cur: "unat (rcurrent br) = length xs" "length xs < 2 ^ 63" using at by (simp_all add: reader_at_def)
  have "?n < 2 ^ 64" using at by (simp add: reader_at_def padding_def)
  then have n: "unat (of_nat ?n :: u64) = length (padding (2 ^ k) (length xs))"
    by (simp add: unat_of_nat_u64 padding_def)
  have "blob_reader_align br (of_nat (2 ^ k)) = br\<lparr>rcurrent := rcurrent br + of_nat ?n\<rparr>"
    using align_spec_diff(4) [OF k, of "rcurrent br"] cur unfolding blob_reader_align_def by simp
  then show ?thesis using reader_advance [OF at n] by simp
qed

lemma reader_type:
  fixes v :: "'a::len word"
  assumes at: "reader_at br xs ((padding (2 ^ k) (length xs) @ word_bytes (2 ^ k) v) @ ys)" and k: "k \<le> 3"
    and len: "LENGTH('a) = 8 * 2 ^ k"
  obtains br' where "BLOB_READ_TYPE (2 ^ k) br = Some (v, br')"
    "reader_at br' (xs @ padding (2 ^ k) (length xs) @ word_bytes (2 ^ k) v) ys"
proof -
  let ?br = "blob_reader_align br (of_nat (2 ^ k))" and ?w = "word_bytes (2 ^ k) v"
  have at1: "reader_at ?br (xs @ padding (2 ^ k) (length xs)) (?w @ ys)" using reader_align [OF _ k] at by simp
  have "(2::nat) ^ k \<le> 2 ^ 3" using k by (intro power_increasing) simp_all
  then have n: "unat (of_nat (2 ^ k) :: u64) = length ?w" by (simp add: unat_of_nat_u64 del: of_nat_power)
  have "?w \<noteq> []" using length_word_bytes [of "2 ^ k" v] by (metis list.size(3) power_not_zero zero_neq_numeral)
  then have "blob_copy_bytes ?br (replicate (2 ^ k) 0) (of_nat (2 ^ k)) =
      Some (?w, ?br\<lparr>rcurrent := rcurrent ?br + of_nat (2 ^ k)\<rparr>)"
    by (intro reader_copy_bytes [OF at1 n]) simp_all
  then have "BLOB_READ_TYPE (2 ^ k) br = Some (v, ?br\<lparr>rcurrent := rcurrent ?br + of_nat (2 ^ k)\<rparr>)"
    using bytes_word_bytes [OF len, of v] by (simp add: BLOB_READ_TYPE_def)
  then show ?thesis using that reader_advance [OF at1 n] by simp
qed

lemma string_size:
  assumes "n < 2 ^ 31 - 1"
  shows "scast (of_nat n + 1 :: 32 word) = (of_nat (n + 1) :: u64)"
proof -
  have "sint (of_nat (Suc n) :: 32 word) = int (Suc n)"
  proof -
    have "signed_take_bit 31 (int (Suc n)) = int (Suc n)"
      using assms by (intro signed_take_bit_int_eq_self) simp_all
    then show ?thesis by (simp add: signed_of_nat del: of_nat_Suc)
  qed
  then have "word_of_int (sint (of_nat (Suc n) :: 32 word)) = (word_of_int (int (Suc n)) :: u64)" by simp
  then show ?thesis by (simp add: add.commute)
qed

lemma reader_string:
  assumes at: "reader_at br xs ((s @ [0]) @ ys)" and s: "0 \<notin> set s" "length s < 2 ^ 31 - 1"
  shows "blob_read_string br = Some (Some (rcurrent br), br\<lparr>rcurrent := rcurrent br + of_nat (length s + 1)\<rparr>)"
proof -
  have lt: "rcurrent br < rend br" using at by (simp add: reader_at_def word_less_nat_alt)
  then have "unat (rend br - rcurrent br) = length ((s @ [0]) @ ys)"
    using at by (simp add: unat_sub less_imp_le reader_at_def)
  then have "array_slice (rdata br) (unat (rcurrent br)) (unat (rend br - rcurrent br)) = Some (s @ 0 # ys)"
    using at by (simp add: reader_at_def array_slice_def)
  moreover have "\<not> rend br \<le> rcurrent br" using lt by simp
  ultimately show ?thesis
    using string_size [OF s(2)] strlen_string [OF s(1)] by (simp add: blob_read_string_def Let_def)
qed

lemma reader_item:
  assumes at: "reader_at br xs (item_bytes it (length xs) @ ys)" and ok: "item_ok it"
  shows "\<exists>br'. read_item (type_of it) br = Some (Some it, br') \<and> reader_at br' (xs @ item_bytes it (length xs)) ys"
proof (cases it)
  case (Item8 v)
  then show ?thesis using at by (auto simp: blob_read_uint8_def intro: reader_type [of br xs 0 v ys])
next
  case (Item16 v)
  then show ?thesis using at by (auto simp: blob_read_uint16_def intro: reader_type [of br xs 1 v ys])
next
  case (Item32 v)
  then show ?thesis using at by (auto simp: blob_read_uint32_def intro: reader_type [of br xs 2 v ys])
next
  case (Item64 v)
  then show ?thesis using at by (auto simp: blob_read_uint64_def intro: reader_type [of br xs 3 v ys])
next
  case (ItemIntptr v)
  then show ?thesis using at by (auto simp: blob_read_intptr_def intro: reader_type [of br xs 3 v ys])
next
  case (ItemBytes bs)
  then have n: "unat (of_nat (length bs) :: u64) = length bs" using ok by (simp add: unat_of_nat_u64)
  have at': "reader_at br xs (bs @ ys)" using at ItemBytes by simp
  show ?thesis
    using reader_read_bytes [OF at' n] reader_advance [OF at' n] ItemBytes by (simp add: the_bytes_def)
next
  case (ItemString s)
  then have s: "0 \<notin> set s" "length s < 2 ^ 31 - 1" using ok by simp_all
  have at': "reader_at br xs ((s @ [0]) @ ys)" using at ItemString by simp
  have n: "unat (of_nat (length s + 1) :: u64) = length (s @ [0])" using s(2) by (simp add: unat_of_nat_u64 del: of_nat_add of_nat_Suc)
  have "drop (unat (rcurrent br)) (rdata br) = s @ 0 # ys" using at' by (simp add: reader_at_def)
  then show ?thesis
    using reader_string [OF at' s] reader_advance [OF at' n] ItemString takeWhile_string [OF s(1)] by simp
qed

lemma reader_items:
  assumes "reader_at br xs (items_bytes its (length xs))" "\<forall>it\<in>set its. item_ok it"
  shows "\<exists>br'. read_items (map type_of its) br = Some (map Some its, br') \<and>
    reader_at br' (xs @ items_bytes its (length xs)) []"
  using assms
proof (induction its arbitrary: br xs)
  case (Cons it its)
  obtain br1 where 1: "read_item (type_of it) br = Some (Some it, br1)"
    "reader_at br1 (xs @ item_bytes it (length xs)) (items_bytes its (length (xs @ item_bytes it (length xs))))"
    using reader_item [of br xs it] Cons.prems by auto
  from Cons.IH [OF 1(2)] Cons.prems(2) 1(1) show ?case by auto
qed simp

section \<open>Reading untrusted bytes\<close>

text \<open>The bytes up to the end exist and their number fits an \<open>int\<close>. The reader is never further than
  the end rounded up to eight bytes, and not past the end unless it has noticed an overrun.\<close>

definition reader_inv :: "blob_reader \<Rightarrow> bool" where
  "reader_inv br \<longleftrightarrow>
     unat (rend br) \<le> length (rdata br) \<and> unat (rend br) < 2 ^ 31 - 1 \<and>
     unat (rcurrent br) \<le> round_up 8 (unat (rend br)) \<and> (\<not> overrun br \<longrightarrow> rcurrent br \<le> rend br)"

text \<open>What a read returns after an overrun.\<close>

primrec null_item :: "item_type \<Rightarrow> blob_item option" where
  "null_item T8 = Some (Item8 0)"
| "null_item T16 = Some (Item16 0)"
| "null_item T32 = Some (Item32 0)"
| "null_item T64 = Some (Item64 0)"
| "null_item TIntptr = Some (ItemIntptr 0)"
| "null_item (TBytes n) = None"
| "null_item TString = None"
| "null_item (TCopy n) = Some (ItemBytes (replicate (unat n) 0))"
| "null_item (TSkip n) = None"

definition reads_on :: "blob_reader \<Rightarrow> blob_reader \<Rightarrow> bool" where
  "reads_on br br' \<longleftrightarrow>
     reader_inv br' \<and> rdata br' = rdata br \<and> rend br' = rend br \<and> rcurrent br \<le> rcurrent br' \<and>
     (overrun br \<longrightarrow> overrun br')"

lemma reads_on_trans: "reads_on a b \<Longrightarrow> reads_on b c \<Longrightarrow> reads_on a c"
  by (auto simp: reads_on_def)

lemma slice_some:
  assumes "i + n \<le> length xs"
  obtains ys where "array_slice xs i n = Some ys" "length ys = n"
  using assms by (auto simp: array_slice_def)

lemma takeWhile_less: "x \<in> set xs \<Longrightarrow> length (takeWhile (\<lambda>c. c \<noteq> x) xs) < length xs"
  by (induction xs) auto

lemma round_up_mono_mult:
  assumes "0 < n" "x \<le> m * n"
  shows "round_up n x \<le> m * n"
proof -
  have "(x + n - 1) div n \<le> (m * n + (n - 1)) div n" using assms by (intro div_le_mono) simp
  also have "\<dots> = m" using assms(1) by (simp add: div_mult_self3 del: add_diff_assoc add_diff_assoc2)
  finally show ?thesis unfolding round_up_def by (rule mult_le_mono1)
qed

lemma round_up_8:
  assumes "k \<le> 3" "x \<le> round_up 8 e"
  shows "round_up (2 ^ k) x \<le> round_up 8 e"
proof -
  have "(8::nat) = 2 ^ (3 - k) * 2 ^ k" using assms(1) by (simp flip: power_add)
  then have "round_up 8 e = ((e + 8 - 1) div 8 * 2 ^ (3 - k)) * 2 ^ k" unfolding round_up_def by (simp add: mult.assoc)
  then show ?thesis using round_up_mono_mult [of "2 ^ k" x "(e + 8 - 1) div 8 * 2 ^ (3 - k)"] assms(2) by simp
qed

text \<open>A reader between the alignment and the check of the size.\<close>

definition reader_pos :: "blob_reader \<Rightarrow> bool" where
  "reader_pos br \<longleftrightarrow>
     unat (rend br) \<le> length (rdata br) \<and> unat (rend br) < 2 ^ 31 - 1 \<and>
     unat (rcurrent br) \<le> round_up 8 (unat (rend br))"

lemma reader_can_read_cases:
  assumes "reader_pos br"
  shows "(overrun br \<and> ensure_can_read br n = (False, br)) \<or>
    (\<not> overrun br \<and> ensure_can_read br n = (False, br\<lparr>overrun := True\<rparr>)) \<or>
    (\<not> overrun br \<and> ensure_can_read br n = (True, br) \<and> unat (rcurrent br) + unat n \<le> unat (rend br))"
proof (cases "overrun br \<or> \<not> (rcurrent br \<le> rend br \<and> rend br - rcurrent br \<ge> n)")
  case False
  then have "unat (rend br - rcurrent br) = unat (rend br) - unat (rcurrent br)" by (simp add: unat_sub)
  then have "unat (rcurrent br) + unat n \<le> unat (rend br)" using False unfolding word_le_nat_alt by linarith
  then show ?thesis using False by (simp add: ensure_can_read_def)
qed (auto simp: ensure_can_read_def)

lemma reader_pos_advance:
  assumes "reader_pos br" "unat (rcurrent br) + unat n \<le> unat (rend br)"
  shows "reads_on br (br\<lparr>rcurrent := rcurrent br + n\<rparr>)"
proof -
  have "unat (rcurrent br + n) = unat (rcurrent br) + unat n"
    using assms by (intro unat_add_no_wrap) (simp add: reader_pos_def)
  then show ?thesis
    using assms round_up_bounds(1) [of 8 "unat (rend br)"]
    by (simp add: reads_on_def reader_inv_def reader_pos_def word_le_nat_alt)
qed

lemma reader_pos_overrun: "reader_pos br \<Longrightarrow> reads_on br (br\<lparr>overrun := True\<rparr>)"
  by (simp add: reads_on_def reader_inv_def reader_pos_def)

lemma reader_pos_stay: "reader_pos br \<Longrightarrow> overrun br \<Longrightarrow> reads_on br br"
  by (simp add: reads_on_def reader_inv_def reader_pos_def)

lemma copy_bytes_bounded:
  assumes pos: "reader_pos br" and len: "length dest = unat n"
  shows "\<exists>bs br'. blob_copy_bytes br dest n = Some (bs, br') \<and> reads_on br br' \<and> (overrun br \<longrightarrow> bs = dest)"
  using reader_can_read_cases [OF pos, of n]
proof (elim disjE conjE)
  assume a: "\<not> overrun br" "ensure_can_read br n = (True, br)" "unat (rcurrent br) + unat n \<le> unat (rend br)"
  then have "unat (rcurrent br) + unat n \<le> length (rdata br)" using pos by (simp add: reader_pos_def)
  then obtain bs where bs: "array_slice (rdata br) (unat (rcurrent br)) (unat n) = Some bs" "length bs = unat n"
    by (rule slice_some)
  then have "array_write dest 0 bs = Some bs" using len by (simp add: array_write_def)
  then show ?thesis
    using a bs reader_pos_advance [OF pos a(3)] by (auto simp: blob_copy_bytes_def blob_read_bytes_def)
qed (use reader_pos_overrun [OF pos] reader_pos_stay [OF pos] in \<open>auto simp: blob_copy_bytes_def blob_read_bytes_def\<close>)

lemma reader_inv_pos: "reader_inv br \<Longrightarrow> reader_pos br"
  by (simp add: reader_inv_def reader_pos_def)

lemma reader_align_pos:
  assumes "reader_inv br" "k \<le> 3"
  shows "reader_pos (blob_reader_align br (of_nat (2 ^ k)))" "rcurrent br \<le> rcurrent (blob_reader_align br (of_nat (2 ^ k)))"
proof -
  have "unat (rcurrent br) < 2 ^ 63"
    using assms(1) round_up_bounds(2) [of 8 "unat (rend br)"] by (simp add: reader_inv_def)
  note a = align_spec [OF assms(2) this] align_spec_diff(1) [OF assms(2) this]
  show "reader_pos (blob_reader_align br (of_nat (2 ^ k)))"
    using assms(1) a(1) round_up_8 [OF assms(2)] by (simp add: reader_pos_def reader_inv_def blob_reader_align_def)
  show "rcurrent br \<le> rcurrent (blob_reader_align br (of_nat (2 ^ k)))" using a(2) by (simp add: blob_reader_align_def)
qed

lemma bytes_word_zero [simp]: "bytes_word (replicate n 0) = 0"
  by (induction n) simp_all

lemma read_type_bounded:
  assumes inv: "reader_inv br" and k: "k \<le> 3"
  shows "\<exists>v br'. BLOB_READ_TYPE (2 ^ k) br = Some (v, br') \<and> reads_on br br' \<and> (overrun br \<longrightarrow> v = 0)"
proof -
  let ?br = "blob_reader_align br (of_nat (2 ^ k))"
  note pos = reader_align_pos [OF inv k]
  have "(2::nat) ^ k \<le> 2 ^ 3" using k by (intro power_increasing) simp_all
  then have "length (replicate (2 ^ k) (0::u8)) = unat (of_nat (2 ^ k) :: u64)" by (simp add: unat_of_nat_u64 del: of_nat_power)
  from copy_bytes_bounded [OF pos(1) this] obtain bs br' where
    c: "blob_copy_bytes ?br (replicate (2 ^ k) 0) (of_nat (2 ^ k)) = Some (bs, br')" "reads_on ?br br'"
    "overrun ?br \<longrightarrow> bs = replicate (2 ^ k) 0" by blast
  have "rcurrent ?br \<le> rcurrent br'" using c(2) by (simp add: reads_on_def)
  then have "rcurrent br \<le> rcurrent br'" using pos(2) by simp
  then have "reads_on br br'" using c(2) by (simp add: reads_on_def blob_reader_align_def)
  then show ?thesis using c(1,3) by (auto simp: BLOB_READ_TYPE_def blob_reader_align_def)
qed

lemma read_string_bounded:
  assumes inv: "reader_inv br"
  shows "\<exists>res br'. blob_read_string br = Some (res, br') \<and> reads_on br br'"
proof (cases "rcurrent br \<ge> rend br")
  case True
  then show ?thesis using reader_pos_overrun [OF reader_inv_pos [OF inv]] by (simp add: blob_read_string_def)
next
  case False
  then have d: "unat (rend br - rcurrent br) = unat (rend br) - unat (rcurrent br)" "unat (rcurrent br) < unat (rend br)"
    by (simp_all add: unat_sub word_le_nat_alt)
  then have "unat (rcurrent br) + unat (rend br - rcurrent br) \<le> length (rdata br)" using inv by (simp add: reader_inv_def)
  then obtain rest where rest: "array_slice (rdata br) (unat (rcurrent br)) (unat (rend br - rcurrent br)) = Some rest"
    "length rest = unat (rend br) - unat (rcurrent br)"
    using d(1) by (metis slice_some)
  show ?thesis
  proof (cases "0 \<in> set rest")
    case zero: False
    then show ?thesis
      using False rest reader_pos_overrun [OF reader_inv_pos [OF inv]] by (simp add: blob_read_string_def strlen_def)
  next
    case True
    let ?n = "length (takeWhile (\<lambda>c. c \<noteq> 0) rest)"
    have n: "?n < length rest" using True by (rule takeWhile_less)
    then have m: "?n < 2 ^ 31 - 1" using rest(2) inv unfolding reader_inv_def by linarith
    then have "unat (of_nat (?n + 1) :: u64) = ?n + 1" by (simp add: unat_of_nat_u64 del: of_nat_add of_nat_Suc)
    then have "unat (rcurrent br) + unat (of_nat (?n + 1) :: u64) \<le> unat (rend br)" using n rest(2) d(2) by simp
    from reader_pos_advance [OF reader_inv_pos [OF inv] this]
    show ?thesis using False rest True string_size [OF m] by (simp add: blob_read_string_def strlen_def Let_def)
  qed
qed

lemma read_item_bounded:
  assumes inv: "reader_inv br"
  shows "\<exists>it br'. read_item ty br = Some (it, br') \<and> reads_on br br' \<and> (overrun br \<and> ty \<noteq> TString \<longrightarrow> it = null_item ty)"
proof (cases ty)
  case T8
  then show ?thesis using read_type_bounded [OF inv, of 0, where ?'a = 8] by (auto simp: blob_read_uint8_def)
next
  case T16
  then show ?thesis using read_type_bounded [OF inv, of 1, where ?'a = 16] by (auto simp: blob_read_uint16_def)
next
  case T32
  then show ?thesis using read_type_bounded [OF inv, of 2, where ?'a = 32] by (auto simp: blob_read_uint32_def)
next
  case T64
  then show ?thesis using read_type_bounded [OF inv, of 3, where ?'a = 64] by (auto simp: blob_read_uint64_def)
next
  case TIntptr
  then show ?thesis using read_type_bounded [OF inv, of 3, where ?'a = 64] by (auto simp: blob_read_intptr_def)
next
  case (TBytes n)
  note pos = reader_inv_pos [OF inv]
  from reader_can_read_cases [OF pos, of n] show ?thesis
  proof (elim disjE conjE)
    assume a: "\<not> overrun br" "ensure_can_read br n = (True, br)" "unat (rcurrent br) + unat n \<le> unat (rend br)"
    then have "\<exists>bs. array_slice (rdata br) (unat (rcurrent br)) (unat n) = Some bs"
      using pos by (simp add: array_slice_def reader_pos_def)
    then show ?thesis
      using a TBytes reader_pos_advance [OF pos a(3)] by (auto simp: blob_read_bytes_def the_bytes_def)
  qed (use TBytes reader_pos_overrun [OF pos] reader_pos_stay [OF pos] in \<open>auto simp: blob_read_bytes_def\<close>)
next
  case TString
  then show ?thesis using read_string_bounded [OF inv] by (auto split: option.splits)
next
  case (TCopy n)
  then show ?thesis using copy_bytes_bounded [OF reader_inv_pos [OF inv], of "replicate (unat n) 0" n] by auto
next
  case (TSkip n)
  note pos = reader_inv_pos [OF inv]
  from reader_can_read_cases [OF pos, of n] show ?thesis
    using TSkip reader_pos_advance [OF pos] reader_pos_overrun [OF pos] reader_pos_stay [OF pos]
    by (auto simp: blob_skip_bytes_def)
qed

lemma read_items_bounded:
  assumes "reader_inv br"
  shows "\<exists>its br'. read_items tys br = Some (its, br') \<and> reads_on br br' \<and>
    (overrun br \<and> TString \<notin> set tys \<longrightarrow> its = map null_item tys)"
  using assms
proof (induction tys arbitrary: br)
  case Nil
  then show ?case by (simp add: reads_on_def)
next
  case (Cons ty tys)
  obtain it br1 where 1: "read_item ty br = Some (it, br1)" "reads_on br br1"
    "overrun br \<and> ty \<noteq> TString \<longrightarrow> it = null_item ty" using read_item_bounded [OF Cons.prems] by blast
  then have "reader_inv br1" by (simp add: reads_on_def)
  from Cons.IH [OF this] obtain its br2 where 2: "read_items tys br1 = Some (its, br2)" "reads_on br1 br2"
    "overrun br1 \<and> TString \<notin> set tys \<longrightarrow> its = map null_item tys" by blast
  have "overrun br \<longrightarrow> overrun br1" using 1(2) by (simp add: reads_on_def)
  then show ?case using 1 2 reads_on_trans [OF 1(2) 2(2)] by auto
qed

section \<open>Writing into a given space\<close>

text \<open>A blob with a data pointer that is null or has the allocated size. With a null pointer and the
  largest size it only measures.\<close>

definition storable :: "blob \<Rightarrow> bool" where
  "storable b \<longleftrightarrow> \<not> out_of_memory b \<and> (\<forall>d. bdata b = Some d \<longrightarrow> length d = unat (allocated b))"

definition has_room :: "blob \<Rightarrow> nat \<Rightarrow> bool" where
  "has_room b n \<longleftrightarrow> storable b \<and> unat (bsize b) + n \<le> unat (allocated b) \<and> unat (bsize b) + n < 2 ^ 63"

text \<open>A write that used up \<open>n\<close> bytes of the room.\<close>

definition fills :: "blob \<Rightarrow> nat \<Rightarrow> (bool \<times> blob) option \<Rightarrow> bool" where
  "fills b n result \<longleftrightarrow>
     (\<exists>b'. result = Some (True, b') \<and> storable b' \<and> unat (bsize b') = unat (bsize b) + n \<and> allocated b' = allocated b)"

lemma room_grow: "has_room b n \<Longrightarrow> unat m = n \<Longrightarrow> grow_to_fit r b m = (True, b)"
proof -
  assume room: "has_room b n" and m: "unat m = n"
  then have "unat (bsize b + m) = unat (bsize b) + n" using unat_add_no_wrap [of "bsize b" m] by (simp add: has_room_def)
  then show ?thesis using room by (simp add: has_room_def storable_def grow_to_fit_def word_le_nat_alt)
qed

lemma room_store:
  assumes "has_room b (length bs)"
  obtains d where "store_bytes b (bsize b) bs = Some (b\<lparr>bdata := d\<rparr>)" "storable (b\<lparr>bdata := d\<rparr>)"
proof (cases "bdata b")
  case None
  have "b\<lparr>bdata := None\<rparr> = b" using None by (cases b) simp
  then show ?thesis using that [of None] None assms by (simp add: store_bytes_def has_room_def storable_def)
next
  case (Some d)
  then have "length d = unat (allocated b)" "unat (bsize b) + length bs \<le> length d"
    using assms by (simp_all add: has_room_def storable_def)
  then show ?thesis
    using Some assms that [of "Some (take (unat (bsize b)) d @ bs @ drop (unat (bsize b) + length bs) d)"]
    by (simp add: store_bytes_def array_write_def has_room_def storable_def)
qed

lemma fills_bytes:
  assumes room: "has_room b (length bs)"
  shows "fills b (length bs) (blob_write_bytes r b bs)"
proof -
  have n: "unat (of_nat (length bs) :: u64) = length bs" using room by (simp add: has_room_def unat_of_nat_u64)
  have sum: "unat (bsize b + of_nat (length bs)) = unat (bsize b) + length bs"
    using room n unat_add_no_wrap [of "bsize b" "of_nat (length bs)"] by (simp add: has_room_def)
  obtain d where d: "store_bytes b (bsize b) bs = Some (b\<lparr>bdata := d\<rparr>)" "storable (b\<lparr>bdata := d\<rparr>)"
    by (rule room_store [OF room])
  show ?thesis
  proof (cases "(of_nat (length bs) :: u64) > 0")
    case True
    then show ?thesis using room_grow [OF room n] d sum by (simp add: fills_def blob_write_bytes_def Let_def storable_def)
  next
    case False
    then show ?thesis using room_grow [OF room n] room sum
      by (simp add: fills_def blob_write_bytes_def Let_def storable_def has_room_def)
  qed
qed

lemma fills_align:
  assumes room: "has_room b (round_up (2 ^ k) (unat (bsize b)) - unat (bsize b))" and k: "k \<le> 3"
  shows "fills b (round_up (2 ^ k) (unat (bsize b)) - unat (bsize b)) (blob_align r b (of_nat (2 ^ k)))"
proof -
  let ?y = "align_uintptr (bsize b) (of_nat (2 ^ k))"
  have lt: "unat (bsize b) < 2 ^ 63" using room by (simp add: has_room_def)
  note y = align_spec [OF k lt] align_spec_diff [OF k lt]
  show ?thesis
  proof (cases "bsize b < ?y")
    case False
    then have "?y = bsize b" using y(2) by simp
    then show ?thesis using y(1) room by (simp add: fills_def blob_align_def has_room_def)
  next
    case True
    have "has_room b (length (replicate (unat (?y - bsize b)) (0::u8)))" using room y(3) by simp
    then obtain d where d: "store_bytes b (bsize b) (replicate (unat (?y - bsize b)) 0) = Some (b\<lparr>bdata := d\<rparr>)"
      "storable (b\<lparr>bdata := d\<rparr>)" by (rule room_store)
    have "blob_align r b (of_nat (2 ^ k)) = Some (True, b\<lparr>bdata := d, bsize := ?y\<rparr>)"
      using True room_grow [OF room y(3)] d(1) unfolding blob_align_def Let_def by simp
    then show ?thesis using d(2) y(1) round_up_bounds(1) [of "2 ^ k" "unat (bsize b)"] by (simp add: fills_def storable_def)
  qed
qed

lemma fills_bind:
  assumes "fills b m x" "\<And>b'. storable b' \<Longrightarrow> unat (bsize b') = unat (bsize b) + m \<Longrightarrow>
    allocated b' = allocated b \<Longrightarrow> fills b' n (f b')"
  shows "fills b (m + n) (Option.bind x (\<lambda>(_, b). f b))"
  using assms unfolding fills_def by fastforce

lemma fills_type:
  assumes room: "has_room b (length (padding (2 ^ k) (unat (bsize b)) @ word_bytes (2 ^ k) v))" and k: "k \<le> 3"
  shows "fills b (length (padding (2 ^ k) (unat (bsize b)) @ word_bytes (2 ^ k) v)) (BLOB_WRITE_TYPE (2 ^ k) r b v)"
proof -
  let ?p = "round_up (2 ^ k) (unat (bsize b)) - unat (bsize b)"
  have "has_room b ?p" using room by (simp add: has_room_def padding_def)
  from fills_align [OF this k] have a: "fills b ?p (blob_align r b (of_nat (2 ^ k)))" .
  have "fills b (?p + length (word_bytes (2 ^ k) v)) (BLOB_WRITE_TYPE (2 ^ k) r b v)"
    unfolding BLOB_WRITE_TYPE_def
    by (rule fills_bind [OF a], rule fills_bytes) (use room in \<open>simp add: has_room_def padding_def\<close>)
  then show ?thesis by (simp add: padding_def)
qed

lemma fills_item:
  assumes "has_room b (length (item_bytes it (unat (bsize b))))" "item_ok it"
  shows "fills b (length (item_bytes it (unat (bsize b)))) (write_item r b it)"
proof (cases it)
  case (Item8 v)
  then show ?thesis using assms fills_type [of b 0 v r] by (simp add: blob_write_uint8_def)
next
  case (Item16 v)
  then show ?thesis using assms fills_type [of b 1 v r] by (simp add: blob_write_uint16_def)
next
  case (Item32 v)
  then show ?thesis using assms fills_type [of b 2 v r] by (simp add: blob_write_uint32_def)
next
  case (Item64 v)
  then show ?thesis using assms fills_type [of b 3 v r] by (simp add: blob_write_uint64_def)
next
  case (ItemIntptr v)
  then show ?thesis using assms fills_type [of b 3 v r] by (simp add: blob_write_intptr_def)
next
  case (ItemBytes bs)
  then show ?thesis using assms fills_bytes by simp
next
  case (ItemString s)
  then show ?thesis using assms fills_bytes [of b "s @ [0]" r] strlen_string [of s "[]"] by (simp add: blob_write_string_def)
qed

lemma fills_items:
  assumes "has_room b (length (items_bytes its (unat (bsize b))))" "\<forall>it\<in>set its. item_ok it"
  shows "fills b (length (items_bytes its (unat (bsize b)))) (write_items r b its)"
  using assms
proof (induction its arbitrary: b)
  case Nil
  then show ?case by (simp add: fills_def has_room_def)
next
  case (Cons it its)
  have "has_room b (length (item_bytes it (unat (bsize b))))" "item_ok it"
    using Cons.prems by (simp_all add: has_room_def)
  from fills_item [OF this, of r] obtain b1 where b1: "write_item r b it = Some (True, b1)" "storable b1"
    "unat (bsize b1) = unat (bsize b) + length (item_bytes it (unat (bsize b)))" "allocated b1 = allocated b"
    by (auto simp: fills_def)
  have "fills b1 (length (items_bytes its (unat (bsize b1)))) (write_items r b1 its)"
    using Cons.prems b1 by (intro Cons.IH) (simp_all add: has_room_def)
  then show ?case using b1 by (simp add: fills_def add.assoc)
qed

text \<open>Reserving leaves space behind the contents.\<close>

lemma reserve_spec:
  assumes ok: "blob_ok b" and r: "realloc_ok r" and n: "unat n < 2 ^ 63"
    and res: "blob_reserve_bytes r b n = (off, b')" and good: "off \<noteq> -1"
  shows "off = bsize b" "blob_ok b'" "unat (bsize b') = unat (bsize b) + unat n" "\<exists>ys. contents b' = contents b @ ys"
proof -
  obtain g b1 where g: "grow_to_fit r b n = (g, b1)" by fastforce
  note s = grow_spec [OF ok r n g]
  have gt: g using res good g by (cases g) (auto simp: blob_reserve_bytes_def)
  have sum: "unat (bsize b + n) = unat (bsize b) + unat n"
    using blob_okD(5) [OF ok] n by (intro unat_add_no_wrap) simp
  have b': "b' = b1\<lparr>bsize := bsize b + n\<rparr>" "off = bsize b" using res g gt s(2) by (auto simp: blob_reserve_bytes_def)
  then show "off = bsize b" "unat (bsize b') = unat (bsize b) + unat n" using sum by simp_all
  show "blob_ok b'"
    using s(1) s(5) [OF gt] sum b' unfolding blob_ok_def word_le_nat_alt by (simp split: option.splits)
  show "\<exists>ys. contents b' = contents b @ ys"
  proof (cases "bdata b1")
    case None
    then show ?thesis using s(3) b' by (simp add: contents_def)
  next
    case (Some d)
    have "take (unat (bsize b) + unat n) d = take (unat (bsize b)) d @ take (unat n) (drop (unat (bsize b)) d)"
      by (rule take_add)
    then show ?thesis using s(2,3) b' sum Some by (auto simp: contents_def)
  qed
qed

text \<open>A \<open>realloc\<close> for the examples: it succeeds up to a limit and fills with zeros.\<close>

definition zero_realloc :: realloc_fn where
  "zero_realloc d n =
     (if unat n < 2 ^ 20 then Some (take (unat n) (case d of None \<Rightarrow> [] | Some old \<Rightarrow> old) @
        replicate (unat n - length (case d of None \<Rightarrow> [] | Some old \<Rightarrow> old)) 0) else None)"

lemma zero_realloc_ok: "realloc_ok zero_realloc"
  by (auto simp: realloc_ok_def zero_realloc_def min_def split: option.splits if_splits)

lemma overwrite_spec:
  assumes ok: "blob_ok b" and len: "length bs < 2 ^ 63"
  shows "if unat off + length bs \<le> unat (bsize b)
    then \<exists>b'. blob_overwrite_bytes b off bs = Some (True, b') \<and> blob_ok b' \<and> bsize b' = bsize b \<and>
      contents b' = take (unat off) (contents b) @ bs @ drop (unat off + length bs) (contents b)
    else blob_overwrite_bytes b off bs = Some (False, b)"
proof (cases "unat off + length bs \<le> unat (bsize b)")
  case False
  have n: "unat (of_nat (length bs) :: u64) = length bs" using len by (simp add: unat_of_nat_u64)
  have "off + of_nat (length bs) < off \<or> bsize b < off + of_nat (length bs)"
  proof (cases "unat off + length bs < 2 ^ 64")
    case True
    then have "unat (off + of_nat (length bs)) = unat off + length bs" using n unat_add_no_wrap [of off "of_nat (length bs)"] by simp
    then show ?thesis using False by (simp add: word_less_nat_alt)
  next
    case wrap: False
    then have "unat (off + of_nat (length bs)) = unat off + length bs - 2 ^ 64"
      using n u64_add_wraps_iff [of off "of_nat (length bs)"] by simp
    moreover have "unat off + length bs - 2 ^ 64 < unat off" using wrap len unat_bound [of off] by simp
    ultimately have "unat (off + of_nat (length bs)) < unat off" by simp
    then show ?thesis by (simp add: word_less_nat_alt)
  qed
  then show ?thesis using False by (simp add: blob_overwrite_bytes_def Let_def)
next
  case True
  have n: "unat (of_nat (length bs) :: u64) = length bs" using len by (simp add: unat_of_nat_u64)
  have sum: "unat (off + of_nat (length bs)) = unat off + length bs"
    using True blob_okD(5) [OF ok] n unat_add_no_wrap [of off "of_nat (length bs)"] by simp
  then have go: "blob_overwrite_bytes b off bs = map_option (Pair True) (store_bytes b off bs)"
    using True by (simp add: blob_overwrite_bytes_def Let_def word_less_nat_alt)
  show ?thesis
  proof (cases "bdata b")
    case None
    then have "unat (bsize b) = 0" using blob_okD(1,3) [OF ok] by simp
    then show ?thesis using True go None ok by (simp add: store_bytes_def contents_def)
  next
    case (Some d)
    let ?d = "take (unat off) d @ bs @ drop (unat off + length bs) d"
    have le: "unat off + length bs \<le> length d" using True blob_okD(2) [OF ok Some] blob_okD(3) [OF ok] by simp
    have "store_bytes b off bs = Some (b\<lparr>bdata := Some ?d\<rparr>)" using Some le by (simp add: store_bytes_def array_write_def)
    moreover have "blob_ok (b\<lparr>bdata := Some ?d\<rparr>)" using ok Some le by (simp add: blob_ok_def)
    moreover obtain x where x: "unat (bsize b) = unat off + length bs + x" using True le_Suc_ex by blast
    moreover from this have "take (unat (bsize b)) ?d =
        take (unat off) (take (unat (bsize b)) d) @ bs @ drop (unat off + length bs) (take (unat (bsize b)) d)"
      using le by (simp add: drop_take)
    ultimately show ?thesis using True go Some by (simp add: contents_def del: take_append)
  qed
qed

section \<open>Two deviations\<close>

text \<open>The header says that a failed read leaves the current position unchanged. The alignment comes
  before the check, so a failed read moves it, even past the end.\<close>

lemma failed_read_moves_current:
  "blob_read_uint32 \<lparr>rdata = replicate 6 0, rend = 6, rcurrent = 5, overrun = False\<rparr> =
     Some (0, \<lparr>rdata = replicate 6 0, rend = 6, rcurrent = 8, overrun = True\<rparr>)"
  by code_simp

text \<open>\<open>blob_read_string\<close> looks at the overrun flag only in an assertion, so it returns a string after an
  overrun.\<close>

lemma string_after_overrun:
  "blob_read_string \<lparr>rdata = [65, 0], rend = 2, rcurrent = 0, overrun = True\<rparr> =
     Some (Some 0, \<lparr>rdata = [65, 0], rend = 2, rcurrent = 2, overrun = True\<rparr>)"
  by code_simp

section \<open>Properties\<close>

definition example_items :: "blob_item list" where
  "example_items = [Item8 7, Item32 0xdeadbeef, ItemString [82, 65], Item16 0x1234, ItemBytes [1, 2, 3], Item64 5]"

text \<open>C31. Every sequence of writes to a new blob is defined, whatever \<open>realloc\<close> returns: the blob stays
  well-formed (the data has the allocated size, the bytes written fit into it), its contents
  are exactly the aligned encodings of the values when all writes succeed, and a failure is
  recorded in \<open>out_of_memory\<close>.\<close>

theorem blob_writes_well_formed:
  assumes "realloc_ok r" "\<forall>it\<in>set its. item_ok it"
  shows "\<exists>res b. write_items r blob_init its = Some (res, b) \<and> blob_ok b \<and>
    (res \<longrightarrow> contents b = items_bytes its 0) \<and> (\<not> res \<longrightarrow> out_of_memory b)"
  using write_items_spec [OF blob_init_ok(1) assms] by (auto simp: blob_init_ok)

theorem blob_writes_well_formed_witness:
  "\<exists>res b. write_items zero_realloc blob_init example_items = Some (res, b) \<and> blob_ok b \<and>
    (res \<longrightarrow> contents b = [7, 0, 0, 0, 0xef, 0xbe, 0xad, 0xde, 82, 65, 0, 0, 0x34, 0x12, 1, 2, 3, 0, 0, 0, 0, 0, 0, 0,
      5, 0, 0, 0, 0, 0, 0, 0])"
proof -
  have ok: "\<forall>it\<in>set example_items. item_ok it" by (simp add: example_items_def)
  have "items_bytes example_items 0 = [7, 0, 0, 0, 0xef, 0xbe, 0xad, 0xde, 82, 65, 0, 0, 0x34, 0x12, 1, 2, 3, 0, 0, 0, 0, 0, 0, 0,
      5, 0, 0, 0, 0, 0, 0, 0]" by code_simp
  with blob_writes_well_formed [OF zero_realloc_ok ok] show ?thesis by auto
qed

text \<open>A blob to start with: a growing one, or a fixed one over a buffer.\<close>

lemma blob_init_fixed_ok:
  "length d = unat sz \<Longrightarrow> unat sz < 2 ^ 63 \<Longrightarrow> blob_ok (blob_init_fixed (Some d) sz) \<and> contents (blob_init_fixed (Some d) sz) = []"
  by (simp add: blob_ok_def contents_def blob_init_fixed_def)

text \<open>C8. What is written is read back: after a successful sequence of writes, a reader over the contents
  that asks for values of the same types returns exactly the values written, without overrun,
  and ends at the end of the data.\<close>

theorem blob_roundtrip:
  assumes "realloc_ok r" "\<forall>it\<in>set its. item_ok it" "blob_ok b0" "contents b0 = []"
    "write_items r b0 its = Some (True, b)"
  shows "\<exists>br. read_items (map type_of its) (blob_reader_init (contents b) (bsize b)) = Some (map Some its, br) \<and>
    \<not> overrun br \<and> rcurrent br = rend br"
proof -
  have b: "blob_ok b" "contents b = items_bytes its 0"
    using write_items_spec [OF assms(3,1,2)] assms(4,5) by auto
  have "reader_at (blob_reader_init (contents b) (bsize b)) [] (items_bytes its (length ([] :: u8 list)))"
    using contents_length [OF b(1)] blob_okD(5) [OF b(1)] b(2) by (simp add: reader_at_def blob_reader_init_def)
  from reader_items [OF this assms(2)] obtain br where
    br: "read_items (map type_of its) (blob_reader_init (contents b) (bsize b)) = Some (map Some its, br)"
    "reader_at br (items_bytes its 0) []" by auto
  then show ?thesis by (auto simp: reader_at_def word_unat_eq_iff)
qed

definition small_blob :: blob where
  "small_blob = blob_init_fixed (Some [1, 1, 1, 1, 1, 1, 1, 1]) 8"

lemma small_blob_ok: "blob_ok small_blob" "contents small_blob = []"
  using blob_init_fixed_ok [of "[1, 1, 1, 1, 1, 1, 1, 1]" 8] by (simp_all add: small_blob_def)

theorem blob_roundtrip_witness:
  "\<exists>b br. write_items zero_realloc small_blob [Item8 7, Item16 9, ItemString [82]] = Some (True, b) \<and>
    read_items [T8, T16, TString] (blob_reader_init (contents b) (bsize b)) =
      Some ([Some (Item8 7), Some (Item16 9), Some (ItemString [82])], br) \<and> \<not> overrun br"
proof -
  let ?its = "[Item8 7, Item16 9, ItemString [82]]"
  have ok: "\<forall>it\<in>set ?its. item_ok it" by simp
  have "map_option fst (write_items zero_realloc small_blob ?its) = Some True" by code_simp
  then obtain b where b: "write_items zero_realloc small_blob ?its = Some (True, b)" by auto
  from blob_roundtrip [OF zero_realloc_ok ok small_blob_ok b] b show ?thesis by auto
qed

text \<open>C32. A reader over arbitrary bytes never looks at a byte behind the end, whatever it is asked for:
  every sequence of reads is defined, the position stays within the end rounded up to eight
  bytes and within the end unless the overrun is noticed, and from an overrun on every read
  except a string delivers zeros or a null pointer.\<close>

theorem blob_reader_bounded:
  assumes "unat sz \<le> length data" "unat sz < 2 ^ 31 - 1"
  shows "\<exists>its br. read_items tys (blob_reader_init data sz) = Some (its, br) \<and>
    unat (rcurrent br) \<le> round_up 8 (unat sz) \<and> (\<not> overrun br \<longrightarrow> rcurrent br \<le> sz) \<and>
    (overrun br \<and> TString \<notin> set tys' \<longrightarrow> map_option fst (read_items tys' br) = Some (map null_item tys'))"
proof -
  have "reader_inv (blob_reader_init data sz)"
    using assms by (simp add: reader_inv_def blob_reader_init_def)
  from read_items_bounded [OF this, of tys] obtain its br where
    br: "read_items tys (blob_reader_init data sz) = Some (its, br)" "reads_on (blob_reader_init data sz) br" by blast
  then have inv: "reader_inv br" "rend br = sz" by (simp_all add: reads_on_def blob_reader_init_def)
  from read_items_bounded [OF inv(1), of tys'] br inv show ?thesis by (auto simp: reader_inv_def)
qed

theorem blob_reader_bounded_witness:
  "\<exists>its br. read_items [T32, T8] (blob_reader_init [1, 2, 3] 3) = Some (its, br) \<and> unat (rcurrent br) \<le> 8 \<and>
    map_option fst (read_items [T64] br) = Some [Some (Item64 0)]"
proof -
  have run: "map_option (\<lambda>(its, br). overrun br) (read_items [T32, T8] (blob_reader_init [1, 2, 3] 3)) = Some True"
    by code_simp
  have "round_up 8 3 = 8" by (simp add: round_up_def)
  with blob_reader_bounded [of 3 "[1, 2, 3]" "[T32, T8]" "[T64]"] run show ?thesis by auto
qed

text \<open>C33. Measuring and writing agree: a fixed blob with a null pointer and the largest size measures
  exactly the size a growing or fixed blob reaches, and a fixed blob over a buffer of at least that size
  accepts the same writes and ends with the same contents.\<close>

theorem blob_measure_fits:
  assumes "realloc_ok r" "\<forall>it\<in>set its. item_ok it" "blob_ok b0" "contents b0 = []"
    "write_items r b0 its = Some (True, b)" "length d = unat sz" "bsize b \<le> sz" "unat sz < 2 ^ 63"
  shows "\<exists>m f. write_items r (blob_init_fixed None (-1)) its = Some (True, m) \<and> bsize m = bsize b \<and>
    write_items r (blob_init_fixed (Some d) sz) its = Some (True, f) \<and> contents f = contents b"
proof -
  have b: "blob_ok b" "contents b = items_bytes its 0"
    using write_items_spec [OF assms(3,1,2)] assms(4,5) by auto
  have len: "length (items_bytes its 0) = unat (bsize b)" "unat (bsize b) < 2 ^ 63"
    using contents_length [OF b(1)] b(2) blob_okD(5) [OF b(1)] by simp_all
  have "unat (-1 :: u64) = 2 ^ 64 - 1" by (simp add: unsigned_minus_1_eq_mask mask_eq_exp_minus_1)
  then have "has_room (blob_init_fixed None (-1)) (length (items_bytes its 0))"
    using len by (simp add: has_room_def storable_def blob_init_fixed_def)
  then have m: "\<exists>m. write_items r (blob_init_fixed None (-1)) its = Some (True, m) \<and> bsize m = bsize b"
    using fills_items [of "blob_init_fixed None (-1)" its r] assms(2) len
    by (auto simp: fills_def blob_init_fixed_def word_unat_eq_iff)
  have ok: "blob_ok (blob_init_fixed (Some d) sz)" "contents (blob_init_fixed (Some d) sz) = []"
    using assms(6,8) by (simp_all add: blob_ok_def contents_def blob_init_fixed_def)
  have "has_room (blob_init_fixed (Some d) sz) (length (items_bytes its 0))"
    using len assms(6,7) by (simp add: has_room_def storable_def blob_init_fixed_def word_le_nat_alt)
  then obtain f where f: "write_items r (blob_init_fixed (Some d) sz) its = Some (True, f)"
    using fills_items [of "blob_init_fixed (Some d) sz" its r] assms(2) by (auto simp: fills_def blob_init_fixed_def)
  then have "contents f = items_bytes its 0" using write_items_spec [OF ok(1) assms(1,2)] ok(2) by auto
  with m f b(2) show ?thesis by auto
qed

theorem blob_measure_fits_witness:
  "\<exists>b m f. write_items zero_realloc small_blob [Item8 7, Item16 9] = Some (True, b) \<and>
    write_items zero_realloc (blob_init_fixed None (-1)) [Item8 7, Item16 9] = Some (True, m) \<and> bsize m = bsize b \<and>
    write_items zero_realloc (blob_init_fixed (Some [2, 2, 2, 2, 2, 2]) 6) [Item8 7, Item16 9] = Some (True, f) \<and>
    contents f = contents b"
proof -
  let ?its = "[Item8 7, Item16 9]"
  have ok: "\<forall>it\<in>set ?its. item_ok it" by simp
  have "map_option (\<lambda>(res, b). (res, bsize b)) (write_items zero_realloc small_blob ?its) = Some (True, 4)" by code_simp
  then obtain b where b: "write_items zero_realloc small_blob ?its = Some (True, b)" "bsize b = 4" by auto
  from blob_measure_fits [OF zero_realloc_ok ok small_blob_ok b(1), of "[2, 2, 2, 2, 2, 2]" 6] b show ?thesis by auto
qed

text \<open>C34. Overwriting replaces exactly the given bytes of the contents when they lie within them, and
  otherwise returns false and changes nothing, also when offset plus size wraps around.\<close>

theorem blob_overwrite_exact:
  assumes "blob_ok b" "length bs < 2 ^ 63"
  shows "if unat off + length bs \<le> unat (bsize b)
    then \<exists>b'. blob_overwrite_bytes b off bs = Some (True, b') \<and> blob_ok b' \<and> bsize b' = bsize b \<and>
      contents b' = take (unat off) (contents b) @ bs @ drop (unat off + length bs) (contents b)
    else blob_overwrite_bytes b off bs = Some (False, b)"
  by (rule overwrite_spec [OF assms])

theorem blob_overwrite_exact_witness:
  "blob_overwrite_bytes blob_init (-1) [1, 2] = Some (False, blob_init)"
proof -
  have "\<not> unat (-1 :: u64) + length [1, 2 :: u8] \<le> unat (bsize blob_init)"
    by (simp add: blob_init_def)
  with blob_overwrite_exact [OF blob_init_ok(1), of "[1, 2]" "-1"] show ?thesis by simp
qed

end
