(* ===== verification/Range_Remap.thy ===== *)
theory Range_Remap
  imports Radv_Prelude "HOL-Library.Monad_Syntax"
begin

text \<open>
  The map from ranges of locations to data, \<open>src/src/util/u_range_remap.c\<close>: ranges are inserted into a
  sorted linked list by binary search and looked up, after the list has been turned into an
  array, by another binary search.

  The linked list is a list and a pointer to an entry is its index; following \<open>next\<close> or \<open>prev\<close> from
  one middle to the next moves the index. Going outside the list or the array is undefined
  (\<open>None\<close>), and so is a search that does not end. A null pointer is the address 0. \<open>rzalloc\<close> is
  taken to succeed, as in the code, which does not test its result.
\<close>

record range_entry =
  re_start :: u32
  re_end :: u32
  re_ptr :: u64

record range_remap =
  r_list :: "range_entry list"
  sorted_array :: "range_entry list option"
  sorted_array_length :: u32

section \<open>Looking up\<close>

text \<open>The loop of \<open>get_range_entry\<close>; the result is the index of the entry, or null.\<close>

partial_function (option) get_range_loop ::
  "u32 \<Rightarrow> range_entry list \<Rightarrow> u32 \<Rightarrow> u32 \<Rightarrow> u32 \<Rightarrow> nat option option" where
  "get_range_loop n arr low high mid =
     (if low \<le> high then do {
        mid_entry \<leftarrow> array_read arr (unat mid);
        (if n < re_start mid_entry then
           (if low = high \<or> mid = low then Some None
            else get_range_loop n arr low (mid - 1) ((low + (mid - 1)) div 2))
         else if n > re_end mid_entry then
           (if low = high \<or> mid = high then Some None
            else get_range_loop n arr (mid + 1) high (((mid + 1) + high) div 2))
         else Some (Some (unat mid)))
      } else Some None)"

definition get_range_entry :: "u32 \<Rightarrow> range_remap \<Rightarrow> nat option option" where
  "get_range_entry n r_remap =
     (case sorted_array r_remap of
        None \<Rightarrow> Some None
      | Some arr \<Rightarrow>
          let low = 0; high = sorted_array_length r_remap - 1
          in get_range_loop n arr low high ((low + high) div 2))"

definition util_range_remap :: "u32 \<Rightarrow> range_remap \<Rightarrow> nat option option" where
  "util_range_remap n r_remap = get_range_entry n r_remap"

section \<open>Inserting\<close>

definition insert_at :: "nat \<Rightarrow> range_entry \<Rightarrow> range_entry list \<Rightarrow> range_entry list" where
  "insert_at i e xs = take i xs @ e # drop i xs"

text \<open>The second loop of \<open>util_range_insert_remap\<close> with the assignments at \<open>insert_end\<close>: the list
  and the index of the entry returned, or null.\<close>

partial_function (option) insert_loop ::
  "range_entry \<Rightarrow> bool \<Rightarrow> range_entry list \<Rightarrow> u32 \<Rightarrow> u32 \<Rightarrow> u32 \<Rightarrow> (nat option \<times> range_entry list) option" where
  "insert_loop new allow xs low high mid =
     (if low \<le> high then do {
        mid_entry \<leftarrow> array_read xs (unat mid);
        (if re_end new < re_start mid_entry then
           (if low = high \<or> mid = low then Some (Some (unat mid), insert_at (unat mid) new xs)
            else insert_loop new allow xs low (mid - 1) ((low + (mid - 1)) div 2))
         else if re_start new > re_end mid_entry then
           (if low = high \<or> mid = high then Some (Some (unat mid + 1), insert_at (unat mid + 1) new xs)
            else insert_loop new allow xs (mid + 1) high (((mid + 1) + high) div 2))
         else if re_start mid_entry = re_start new \<and>
             (re_end mid_entry = re_end new \<or> allow \<and> re_end mid_entry > re_end new) then
           (if re_ptr new = 0 then Some (Some (unat mid), xs) else Some (Some (unat mid), xs[unat mid := new]))
         else Some (None, xs))
      } else None)"

definition util_range_insert_remap ::
  "u32 \<Rightarrow> u32 \<Rightarrow> range_remap \<Rightarrow> u64 \<Rightarrow> bool \<Rightarrow> (nat option \<times> range_remap) option" where
  "util_range_insert_remap start stop r_remap ptr allow_range_truncation =
     (let xs = r_list r_remap;
          new = \<lparr>re_start = start, re_end = stop, re_ptr = ptr\<rparr>
      in if xs = [] then Some (Some 0, r_remap\<lparr>r_list := [new]\<rparr>)
         else if re_end (last xs) < start then Some (Some (length xs), r_remap\<lparr>r_list := xs @ [new]\<rparr>)
         else do {
           let low = 0;
           let high = of_nat (length xs) - 1;
           (res, ys) \<leftarrow> insert_loop new allow_range_truncation xs low high ((low + high) div 2);
           Some (res, r_remap\<lparr>r_list := ys\<rparr>)
         })"

definition util_range_switch_to_sorted_array :: "range_remap \<Rightarrow> range_remap" where
  "util_range_switch_to_sorted_array r_remap =
     (let r_remap = r_remap\<lparr>sorted_array_length := of_nat (length (r_list r_remap)), sorted_array := None\<rparr>
      in if sorted_array_length r_remap = 0 then r_remap
         else r_remap\<lparr>sorted_array := Some (r_list r_remap), r_list := []\<rparr>)"

definition util_create_range_remap :: range_remap where
  "util_create_range_remap = \<lparr>r_list = [], sorted_array = None, sorted_array_length = 0\<rparr>"

definition util_reset_range_remap :: "range_remap \<Rightarrow> range_remap" where
  "util_reset_range_remap r_remap = util_create_range_remap"

section \<open>Binary search in an ordered list\<close>

text \<open>The contract both searches rely on: the entries a key lies before form the end of the list, and
  those it lies behind form its beginning.\<close>

locale ordered_entries =
  fixes ordered :: "'e list \<Rightarrow> bool"
    and before :: "'k \<Rightarrow> 'e \<Rightarrow> bool"
    and behind :: "'k \<Rightarrow> 'e \<Rightarrow> bool"
  assumes before_up: "ordered xs \<Longrightarrow> i < j \<Longrightarrow> j < length xs \<Longrightarrow> before k (xs ! i) \<Longrightarrow> before k (xs ! j)"
    and behind_down: "ordered xs \<Longrightarrow> i < j \<Longrightarrow> j < length xs \<Longrightarrow> behind k (xs ! j) \<Longrightarrow> behind k (xs ! i)"
begin

text \<open>The entries outside the window from \<open>lo\<close> to \<open>hi\<close> are decided.\<close>

definition window :: "'k \<Rightarrow> 'e list \<Rightarrow> nat \<Rightarrow> nat \<Rightarrow> bool" where
  "window k xs lo hi \<longleftrightarrow>
     (\<forall>i<lo. behind k (xs ! i)) \<and> (\<forall>i. hi < i \<and> i < length xs \<longrightarrow> before k (xs ! i))"

definition gap :: "'k \<Rightarrow> 'e list \<Rightarrow> nat \<Rightarrow> bool" where
  "gap k xs p \<longleftrightarrow> (\<forall>i<p. behind k (xs ! i)) \<and> (\<forall>i. p \<le> i \<and> i < length xs \<longrightarrow> before k (xs ! i))"

lemma window_full: "window k xs 0 (length xs - 1)"
  by (auto simp: window_def)

lemma window_left:
  assumes "ordered xs" "window k xs lo hi" "before k (xs ! mid)" "0 < mid"
  shows "window k xs lo (mid - 1)"
proof -
  have "before k (xs ! i)" if "mid - 1 < i" "i < length xs" for i
    using before_up [OF assms(1), of mid i k] that assms(3) by (cases "i = mid") auto
  then show ?thesis using assms(2) by (auto simp: window_def)
qed

lemma window_right:
  assumes "ordered xs" "window k xs lo hi" "behind k (xs ! mid)" "mid < length xs"
  shows "window k xs (mid + 1) hi"
proof -
  have "behind k (xs ! i)" if "i < mid + 1" for i
    using behind_down [OF assms(1), of i mid k] that assms(3,4) by (cases "i = mid") auto
  then show ?thesis using assms(2) by (auto simp: window_def)
qed

lemma gap_left:
  assumes "ordered xs" "window k xs mid hi" "before k (xs ! mid)"
  shows "gap k xs mid"
proof -
  have "before k (xs ! i)" if "mid \<le> i" "i < length xs" for i
    using before_up [OF assms(1), of mid i k] that assms(3) by (cases "i = mid") auto
  then show ?thesis using assms(2) by (auto simp: window_def gap_def)
qed

lemma gap_right:
  assumes "ordered xs" "window k xs lo mid" "behind k (xs ! mid)" "mid < length xs"
  shows "gap k xs (mid + 1)"
proof -
  have "behind k (xs ! i)" if "i < mid + 1" for i
    using behind_down [OF assms(1), of i mid k] that assms(3,4) by (cases "i = mid") auto
  then show ?thesis using assms(2) by (auto simp: window_def gap_def)
qed

end

section \<open>Sorted disjoint ranges\<close>

definition ranges_ok :: "range_entry list \<Rightarrow> bool" where
  "ranges_ok xs \<longleftrightarrow> sorted_wrt (\<lambda>a b. re_end a < re_start b) xs \<and> (\<forall>e\<in>set xs. re_start e \<le> re_end e)"

lemma ranges_step:
  assumes "ranges_ok xs" "i < j" "j < length xs"
  shows "re_end (xs ! i) < re_start (xs ! j)" "re_start (xs ! i) \<le> re_end (xs ! i)" "re_start (xs ! j) \<le> re_end (xs ! j)"
  using assms by (auto simp: ranges_ok_def sorted_wrt_iff_nth_less)

interpretation location: ordered_entries ranges_ok "\<lambda>n e. n < re_start e" "\<lambda>n e. n > re_end e"
proof
  fix xs i j and n :: u32
  assume a: "ranges_ok xs" "i < j" "j < length xs"
  note s = ranges_step [OF a]
  show "n < re_start (xs ! i) \<Longrightarrow> n < re_start (xs ! j)" using s by order
  show "n > re_end (xs ! j) \<Longrightarrow> n > re_end (xs ! i)" using s by order
qed

interpretation span: ordered_entries ranges_ok "\<lambda>(new :: range_entry) e. re_end new < re_start e" "\<lambda>new e. re_start new > re_end e"
proof
  fix xs i j and new :: range_entry
  assume a: "ranges_ok xs" "i < j" "j < length xs"
  note s = ranges_step [OF a]
  show "re_end new < re_start (xs ! i) \<Longrightarrow> re_end new < re_start (xs ! j)" using s by order
  show "re_start new > re_end (xs ! j) \<Longrightarrow> re_start new > re_end (xs ! i)" using s by order
qed

text \<open>The middle of a window of 32-bit indices.\<close>

lemma mid_word:
  fixes low high :: u32
  assumes "unat low \<le> unat high" "unat high < 2 ^ 31"
  shows "unat ((low + high) div 2) = (unat low + unat high) div 2"
    "unat low \<le> unat ((low + high) div 2)" "unat ((low + high) div 2) \<le> unat high"
proof -
  have "unat (low + high) = unat low + unat high" using assms by (intro unat_add_no_wrap) simp
  then show m: "unat ((low + high) div 2) = (unat low + unat high) div 2" by (simp add: unat_div)
  show "unat low \<le> unat ((low + high) div 2)" "unat ((low + high) div 2) \<le> unat high"
    unfolding m using assms(1) by simp_all
qed

definition hit :: "u32 \<Rightarrow> range_entry \<Rightarrow> bool" where
  "hit n e \<longleftrightarrow> re_start e \<le> n \<and> n \<le> re_end e"

lemma gap_no_hit:
  assumes "location.gap n xs p" "e \<in> set xs"
  shows "\<not> hit n e"
proof -
  obtain i where i: "i < length xs" "e = xs ! i" using assms(2) by (auto simp: in_set_conv_nth)
  then have "n > re_end e \<or> n < re_start e" using assms(1) by (cases "i < p") (auto simp: location.gap_def)
  then show ?thesis by (auto simp: hit_def)
qed

lemma lookup_loop:
  assumes ok: "ranges_ok xs" and len: "length xs < 2 ^ 31"
  shows "unat low \<le> unat high \<Longrightarrow> unat high < length xs \<Longrightarrow> location.window n xs (unat low) (unat high) \<Longrightarrow>
    \<exists>res. get_range_loop n xs low high ((low + high) div 2) = Some res \<and>
      (case res of None \<Rightarrow> \<forall>e\<in>set xs. \<not> hit n e | Some i \<Rightarrow> i < length xs \<and> hit n (xs ! i))"
proof (induction "unat high - unat low" arbitrary: low high rule: less_induct)
  case less
  let ?mid = "(low + high) div 2"
  have hi: "unat high < 2 ^ 31" using less.prems(2) len by simp
  note mid = mid_word [OF less.prems(1) hi]
  have lt: "unat ?mid < length xs" using mid(3) less.prems(2) by simp
  have le: "low \<le> high" using less.prems(1) by (simp add: word_le_nat_alt)
  let ?e = "xs ! unat ?mid"
  have read: "array_read xs (unat ?mid) = Some ?e" using lt by (simp add: array_read_def)
  note step = get_range_loop.simps [of n xs low high ?mid]
  consider (before) "n < re_start ?e" | (behind) "n > re_end ?e" "\<not> n < re_start ?e" | (hit) "hit n ?e"
    unfolding hit_def by (metis not_less)
  then show ?case
  proof cases
    case hit
    then show ?thesis using step le read lt by (simp add: hit_def not_less [symmetric])
  next
    case before
    show ?thesis
    proof (cases "low = high \<or> ?mid = low")
      case True
      then have m: "unat ?mid = unat low" using mid by auto
      have "location.gap n xs (unat ?mid)"
        using location.gap_left [OF ok _ before] less.prems(3) m by simp
      then show ?thesis using step le read before True gap_no_hit by auto
    next
      case False
      then have "unat low < unat ?mid" using mid(2) by (metis le_neq_implies_less word_unat_eq_iff)
      then have m: "unat (?mid - 1) = unat ?mid - 1" "0 < unat ?mid" by (simp_all add: unat_sub_no_wrap)
      have "\<exists>res. get_range_loop n xs low (?mid - 1) ((low + (?mid - 1)) div 2) = Some res \<and>
          (case res of None \<Rightarrow> \<forall>e\<in>set xs. \<not> hit n e | Some i \<Rightarrow> i < length xs \<and> hit n (xs ! i))"
        using m \<open>unat low < unat ?mid\<close> mid(3) lt location.window_left [OF ok less.prems(3) before m(2)]
        by (intro less.hyps) simp_all
      then show ?thesis using step le read before False by simp
    qed
  next
    case behind
    show ?thesis
    proof (cases "low = high \<or> ?mid = high")
      case True
      then have m: "unat ?mid = unat high" using mid by auto
      have "location.gap n xs (unat ?mid + 1)"
        using location.gap_right [OF ok _ behind(1) lt] less.prems(3) m by simp
      then show ?thesis using step le read behind True gap_no_hit by auto
    next
      case False
      then have less: "unat ?mid < unat high" using mid(3) by (metis le_neq_implies_less word_unat_eq_iff)
      then have m: "unat (?mid + 1) = unat ?mid + 1" using hi by (subst unat_add_no_wrap) simp_all
      have "\<exists>res. get_range_loop n xs (?mid + 1) high (((?mid + 1) + high) div 2) = Some res \<and>
          (case res of None \<Rightarrow> \<forall>e\<in>set xs. \<not> hit n e | Some i \<Rightarrow> i < length xs \<and> hit n (xs ! i))"
        using m less mid(2) less.prems(2) location.window_right [OF ok less.prems(3) behind(1) lt]
        by (intro less.hyps) simp_all
      then show ?thesis using step le read behind False by simp
    qed
  qed
qed

text \<open>The outcome of an insertion, stated on the list.\<close>

definition matches :: "bool \<Rightarrow> range_entry \<Rightarrow> range_entry \<Rightarrow> bool" where
  "matches allow new e \<longleftrightarrow>
     re_start e = re_start new \<and> (re_end e = re_end new \<or> allow \<and> re_end e > re_end new)"

definition apart :: "range_entry \<Rightarrow> range_entry \<Rightarrow> bool" where
  "apart new e \<longleftrightarrow> re_end new < re_start e \<or> re_start new > re_end e"

definition inserted ::
  "range_entry \<Rightarrow> bool \<Rightarrow> range_entry list \<Rightarrow> nat option \<times> range_entry list \<Rightarrow> bool" where
  "inserted new allow xs out \<longleftrightarrow>
     (case out of
        (None, ys) \<Rightarrow> ys = xs \<and> (\<exists>e\<in>set xs. \<not> apart new e) \<and> (\<forall>e\<in>set xs. \<not> matches allow new e)
      | (Some i, ys) \<Rightarrow>
          (\<forall>e\<in>set xs. apart new e) \<and> i \<le> length xs \<and> ys = insert_at i new xs \<and> span.gap new xs i \<or>
          i < length xs \<and> matches allow new (xs ! i) \<and> ys = (if re_ptr new = 0 then xs else xs[i := new]))"

lemma gap_apart:
  assumes "span.gap new xs p" "e \<in> set xs"
  shows "apart new e"
proof -
  obtain i where i: "i < length xs" "e = xs ! i" using assms(2) by (auto simp: in_set_conv_nth)
  then show ?thesis using assms(1) by (cases "i < p") (auto simp: span.gap_def apart_def)
qed

text \<open>A range that overlaps an entry without matching it matches no entry.\<close>

lemma no_other_match:
  assumes ok: "ranges_ok xs" and i: "i < length xs" "\<not> apart new (xs ! i)" "\<not> matches allow new (xs ! i)"
    and new: "re_start new \<le> re_end new"
  shows "\<forall>e\<in>set xs. \<not> matches allow new e"
proof (intro ballI notI)
  fix e assume e: "e \<in> set xs" "matches allow new e"
  then obtain j where j: "j < length xs" "e = xs ! j" by (auto simp: in_set_conv_nth)
  then consider "i < j" | "j < i" using e(2) i(3) by (metis nat_neq_iff)
  then show False
  proof cases
    case 1
    from ranges_step [OF ok 1 j(1)] e(2) i(2) j(2) show False
      unfolding matches_def apart_def by (metis leD leI order.strict_trans1 order.strict_trans2)
  next
    case 2
    from ranges_step [OF ok 2 i(1)] e(2) i(2) j(2) new show False
      unfolding matches_def apart_def by (metis leI leD order.strict_trans1 order.strict_trans2 order.strict_trans)
  qed
qed

lemma insert_loop:
  assumes ok: "ranges_ok xs" and len: "length xs < 2 ^ 31" and new: "re_start new \<le> re_end new"
  shows "unat low \<le> unat high \<Longrightarrow> unat high < length xs \<Longrightarrow> span.window new xs (unat low) (unat high) \<Longrightarrow>
    \<exists>out. insert_loop new allow xs low high ((low + high) div 2) = Some out \<and> inserted new allow xs out"
proof (induction "unat high - unat low" arbitrary: low high rule: less_induct)
  case less
  let ?mid = "(low + high) div 2"
  have hi: "unat high < 2 ^ 31" using less.prems(2) len by simp
  note mid = mid_word [OF less.prems(1) hi]
  have lt: "unat ?mid < length xs" using mid(3) less.prems(2) by simp
  have le: "low \<le> high" using less.prems(1) by (simp add: word_le_nat_alt)
  let ?e = "xs ! unat ?mid"
  have read: "array_read xs (unat ?mid) = Some ?e" using lt by (simp add: array_read_def)
  note step = insert_loop.simps [of new allow xs low high ?mid]
  consider (before) "re_end new < re_start ?e" | (behind) "re_start new > re_end ?e" "\<not> re_end new < re_start ?e"
    | (hit) "\<not> apart new ?e"
    by (auto simp: apart_def)
  then show ?case
  proof cases
    case hit
    then have no: "\<not> re_end new < re_start ?e" "\<not> re_start new > re_end ?e" by (simp_all add: apart_def)
    show ?thesis
    proof (cases "matches allow new ?e")
      case True
      then have "insert_loop new allow xs low high ?mid =
          Some (Some (unat ?mid), if re_ptr new = 0 then xs else xs[unat ?mid := new])"
        using step le read no by (simp add: matches_def)
      then show ?thesis using lt True by (simp add: inserted_def)
    next
      case False
      then have "insert_loop new allow xs low high ?mid = Some (None, xs)"
        using step le read no unfolding matches_def by auto
      then show ?thesis
        using no_other_match [OF ok lt hit False new] hit lt by (auto simp: inserted_def)
    qed
  next
    case before
    show ?thesis
    proof (cases "low = high \<or> ?mid = low")
      case True
      then have m: "unat ?mid = unat low" using mid by auto
      have gap: "span.gap new xs (unat ?mid)" using span.gap_left [OF ok _ before] less.prems(3) m by simp
      have "insert_loop new allow xs low high ?mid = Some (Some (unat ?mid), insert_at (unat ?mid) new xs)"
        using step le read before True by auto
      then show ?thesis using gap gap_apart [OF gap] lt by (simp add: inserted_def)
    next
      case False
      then have "unat low < unat ?mid" using mid(2) by (metis le_neq_implies_less word_unat_eq_iff)
      then have m: "unat (?mid - 1) = unat ?mid - 1" "0 < unat ?mid" by (simp_all add: unat_sub_no_wrap)
      have "\<exists>out. insert_loop new allow xs low (?mid - 1) ((low + (?mid - 1)) div 2) = Some out \<and> inserted new allow xs out"
        using m \<open>unat low < unat ?mid\<close> mid(3) lt span.window_left [OF ok less.prems(3) before m(2)]
        by (intro less.hyps) simp_all
      then show ?thesis using step le read before False by simp
    qed
  next
    case behind
    show ?thesis
    proof (cases "low = high \<or> ?mid = high")
      case True
      then have m: "unat ?mid = unat high" using mid by auto
      have gap: "span.gap new xs (unat ?mid + 1)" using span.gap_right [OF ok _ behind(1) lt] less.prems(3) m by simp
      have "insert_loop new allow xs low high ?mid = Some (Some (unat ?mid + 1), insert_at (unat ?mid + 1) new xs)"
        using step le read behind True by auto
      then show ?thesis using gap gap_apart [OF gap] lt by (simp add: inserted_def)
    next
      case False
      then have less: "unat ?mid < unat high" using mid(3) by (metis le_neq_implies_less word_unat_eq_iff)
      then have m: "unat (?mid + 1) = unat ?mid + 1" using hi by (subst unat_add_no_wrap) simp_all
      have "\<exists>out. insert_loop new allow xs (?mid + 1) high (((?mid + 1) + high) div 2) = Some out \<and> inserted new allow xs out"
        using m less mid(2) less.prems(2) span.window_right [OF ok less.prems(3) behind(1) lt]
        by (intro less.hyps) simp_all
      then show ?thesis using step le read behind False by simp
    qed
  qed
qed

lemma insert_at_set: "i \<le> length xs \<Longrightarrow> set (insert_at i e xs) = insert e (set xs)"
  unfolding insert_at_def by (metis (no_types) append_take_drop_id list.set(2) set_append Un_insert_right)

lemma insert_at_ok:
  assumes ok: "ranges_ok xs" and new: "re_start new \<le> re_end new" and gap: "span.gap new xs i"
  shows "ranges_ok (insert_at i new xs)"
proof -
  let ?P = "\<lambda>a b :: range_entry. re_end a < re_start b"
  have s: "sorted_wrt ?P (take i xs @ drop i xs)" using ok by (simp add: ranges_ok_def)
  have l: "?P e new" if "e \<in> set (take i xs)" for e
    using that gap by (auto simp: in_set_conv_nth span.gap_def)
  have r: "?P new e" if "e \<in> set (drop i xs)" for e
    using that gap by (auto simp: in_set_conv_nth span.gap_def)
  have "sorted_wrt ?P (take i xs @ new # drop i xs)"
    using s [unfolded sorted_wrt_append] l r unfolding sorted_wrt_append by auto
  moreover have "re_start e \<le> re_end e" if "e \<in> set (take i xs @ new # drop i xs)" for e
    using that ok new by (auto simp: ranges_ok_def dest: in_set_takeD in_set_dropD)
  ultimately show ?thesis by (simp add: ranges_ok_def insert_at_def)
qed

lemma update_ok:
  assumes ok: "ranges_ok xs" and i: "i < length xs" and m: "matches allow new (xs ! i)" and new: "re_start new \<le> re_end new"
  shows "ranges_ok (xs[i := new])"
proof -
  have s: "re_start new = re_start (xs ! i)" "re_end new \<le> re_end (xs ! i)" using m by (auto simp: matches_def)
  have "re_end (xs[i := new] ! a) < re_start (xs[i := new] ! b)" if "a < b" "b < length xs" for a b
    using ranges_step(1) [OF ok that] that s by (cases "a = i"; cases "b = i") (auto intro: le_less_trans)
  moreover have "re_start e \<le> re_end e" if "e \<in> set (xs[i := new])" for e
    using that ok new set_update_subset_insert [of xs i new] by (auto simp: ranges_ok_def)
  ultimately show ?thesis by (auto simp: ranges_ok_def sorted_wrt_iff_nth_less)
qed

lemma inserted_ok:
  assumes "ranges_ok xs" "re_start new \<le> re_end new" "inserted new allow xs (res, ys)"
  shows "ranges_ok ys"
proof (cases res)
  case None
  then show ?thesis using assms by (simp add: inserted_def)
next
  case (Some i)
  then consider "ys = insert_at i new xs" "span.gap new xs i"
    | "i < length xs" "matches allow new (xs ! i)" "ys = (if re_ptr new = 0 then xs else xs[i := new])"
    using assms(3) unfolding inserted_def by auto
  then show ?thesis using insert_at_ok [OF assms(1,2)] update_ok [OF assms(1) _ _ assms(2)] assms(1) by cases auto
qed

lemma insert_remap:
  assumes ok: "ranges_ok (r_list r)" and len: "length (r_list r) < 2 ^ 31" and le: "start \<le> stop"
  shows "\<exists>res r'. util_range_insert_remap start stop r ptr allow = Some (res, r') \<and>
    inserted \<lparr>re_start = start, re_end = stop, re_ptr = ptr\<rparr> allow (r_list r) (res, r_list r') \<and>
    sorted_array r' = sorted_array r \<and> sorted_array_length r' = sorted_array_length r"
proof -
  let ?xs = "r_list r" and ?new = "\<lparr>re_start = start, re_end = stop, re_ptr = ptr\<rparr>"
  consider (empty) "?xs = []" | (tail) "?xs \<noteq> []" "re_end (last ?xs) < start" | (search) "?xs \<noteq> []" "\<not> re_end (last ?xs) < start"
    by blast
  then show ?thesis
  proof cases
    case empty
    then show ?thesis by (simp add: util_range_insert_remap_def inserted_def insert_at_def span.gap_def)
  next
    case tail
    have "re_end (?xs ! i) < start" if "i < length ?xs" for i
    proof (cases "i = length ?xs - 1")
      case True
      then show ?thesis using tail by (simp add: last_conv_nth)
    next
      case False
      then have "i < length ?xs - 1" "length ?xs - 1 < length ?xs" using that by auto
      from ranges_step [OF ok this] have "re_end (?xs ! i) < re_end (last ?xs)"
        using tail(1) by (simp add: last_conv_nth)
      then show ?thesis using tail(2) by (rule less_trans)
    qed
    then have gap: "span.gap ?new ?xs (length ?xs)" by (auto simp: span.gap_def)
    have "util_range_insert_remap start stop r ptr allow = Some (Some (length ?xs), r\<lparr>r_list := ?xs @ [?new]\<rparr>)"
      using tail by (simp add: util_range_insert_remap_def Let_def)
    moreover have "inserted ?new allow ?xs (Some (length ?xs), ?xs @ [?new])"
      using gap gap_apart [OF gap] by (simp add: inserted_def insert_at_def)
    ultimately show ?thesis by simp
  next
    case search
    have high: "unat (of_nat (length ?xs) - 1 :: u32) = length ?xs - 1"
    proof -
      have n: "unat (of_nat (length ?xs) :: u32) = length ?xs" using len by (simp add: unat_of_nat)
      then show ?thesis using search(1) by (subst unat_sub_no_wrap) (simp_all add: Suc_le_eq)
    qed
    have "\<exists>out. insert_loop ?new allow ?xs 0 (of_nat (length ?xs) - 1) ((0 + (of_nat (length ?xs) - 1)) div 2) = Some out \<and>
        inserted ?new allow ?xs out"
      using search(1) le high span.window_full [of ?new ?xs] by (intro insert_loop [OF ok len]) simp_all
    then obtain res ys where out: "insert_loop ?new allow ?xs 0 (of_nat (length ?xs) - 1) ((of_nat (length ?xs) - 1) div 2) =
        Some (res, ys)" "inserted ?new allow ?xs (res, ys)" by auto
    then show ?thesis using search by (simp add: util_range_insert_remap_def Let_def)
  qed
qed

text \<open>Looking up by binary search and by a walk along the array.\<close>

lemma hit_unique:
  assumes "ranges_ok xs" "i < length xs" "j < length xs" "hit n (xs ! i)" "hit n (xs ! j)"
  shows "i = j"
proof (rule ccontr)
  assume "i \<noteq> j"
  then consider "i < j" | "j < i" by linarith
  then show False
  proof cases
    case 1
    from ranges_step(1) [OF assms(1) 1 assms(3)] assms(4,5) show False
      unfolding hit_def by (meson leD order_trans)
  next
    case 2
    from ranges_step(1) [OF assms(1) 2 assms(2)] assms(4,5) show False
      unfolding hit_def by (meson leD order_trans)
  qed
qed

definition switched :: "range_remap \<Rightarrow> range_entry list \<Rightarrow> bool" where
  "switched r xs \<longleftrightarrow>
     sorted_array r = (if xs = [] then None else Some xs) \<and> sorted_array_length r = of_nat (length xs)"

lemma lookup_find:
  assumes sw: "switched r xs" and ok: "ranges_ok xs" and len: "length xs < 2 ^ 31"
  shows "util_range_remap n r = Some (find (\<lambda>i. hit n (xs ! i)) [0..<length xs])"
proof (cases "xs = []")
  case True
  then show ?thesis using sw by (simp add: switched_def util_range_remap_def get_range_entry_def)
next
  case False
  have high: "unat (of_nat (length xs) - 1 :: u32) = length xs - 1"
  proof -
    have "unat (of_nat (length xs) :: u32) = length xs" using len by (simp add: unat_of_nat)
    then show ?thesis using False by (subst unat_sub_no_wrap) (simp_all add: Suc_le_eq)
  qed
  have "\<exists>res. get_range_loop n xs 0 (of_nat (length xs) - 1) ((0 + (of_nat (length xs) - 1)) div 2) = Some res \<and>
      (case res of None \<Rightarrow> \<forall>e\<in>set xs. \<not> hit n e | Some i \<Rightarrow> i < length xs \<and> hit n (xs ! i))"
    using False high location.window_full [of n xs] by (intro lookup_loop [OF ok len]) simp_all
  then obtain res where res: "util_range_remap n r = Some res"
    "case res of None \<Rightarrow> \<forall>e\<in>set xs. \<not> hit n e | Some i \<Rightarrow> i < length xs \<and> hit n (xs ! i)"
    using False sw by (auto simp: switched_def util_range_remap_def get_range_entry_def Let_def)
  have "res = find (\<lambda>i. hit n (xs ! i)) [0..<length xs]"
  proof (cases res)
    case None
    then have "find (\<lambda>i. hit n (xs ! i)) [0..<length xs] = None" using res(2) by (simp add: find_None_iff)
    then show ?thesis using None by simp
  next
    case (Some i)
    then have i: "i < length xs" "hit n (xs ! i)" using res(2) by simp_all
    then obtain j where j: "find (\<lambda>i. hit n (xs ! i)) [0..<length xs] = Some j"
      by (cases "find (\<lambda>i. hit n (xs ! i)) [0..<length xs]") (auto simp: find_None_iff)
    then have "j < length xs" "hit n (xs ! j)" by (auto simp: find_Some_iff)
    then show ?thesis using hit_unique [OF ok i(1) _ i(2)] j Some by simp
  qed
  then show ?thesis using res(1) by simp
qed

lemma switch_switched:
  assumes "length (r_list r) < 2 ^ 31"
  shows "switched (util_range_switch_to_sorted_array r) (r_list r)"
proof -
  have "(of_nat (length (r_list r)) :: u32) = 0 \<longleftrightarrow> r_list r = []"
    using assms by (simp add: word_unat_eq_iff unat_of_nat)
  then show ?thesis by (simp add: util_range_switch_to_sorted_array_def switched_def Let_def)
qed

text \<open>A client: insert ranges in any order.\<close>

fun insert_all :: "range_entry list \<Rightarrow> range_remap \<Rightarrow> range_remap option" where
  "insert_all [] r = Some r"
| "insert_all (e # es) r = do {
     (res, r) \<leftarrow> util_range_insert_remap (re_start e) (re_end e) r (re_ptr e) False;
     (if res = None then None else insert_all es r)
   }"

lemma insert_all_apart:
  assumes "ranges_ok (r_list r)" "length (r_list r) + length es < 2 ^ 31"
    "\<forall>e\<in>set es. re_start e \<le> re_end e" "\<forall>e\<in>set es. \<forall>f\<in>set (r_list r). apart e f" "sorted_wrt (\<lambda>e f. apart f e) es"
  shows "\<exists>r'. insert_all es r = Some r' \<and> ranges_ok (r_list r') \<and> set (r_list r') = set (r_list r) \<union> set es \<and>
    length (r_list r') = length (r_list r) + length es"
  using assms
proof (induction es arbitrary: r)
  case (Cons e es)
  have e: "\<lparr>re_start = re_start e, re_end = re_end e, re_ptr = re_ptr e\<rparr> = e" by simp
  obtain res r1 where r1: "util_range_insert_remap (re_start e) (re_end e) r (re_ptr e) False = Some (res, r1)"
    "inserted e False (r_list r) (res, r_list r1)"
    using insert_remap [OF Cons.prems(1), of "re_start e" "re_end e" "re_ptr e" False] Cons.prems(2,3) e by auto
  have ok1: "ranges_ok (r_list r1)" using inserted_ok [OF Cons.prems(1) _ r1(2)] Cons.prems(3) by simp
  have all: "\<forall>f\<in>set (r_list r). apart e f" using Cons.prems(4) by simp
  have nomatch: "\<not> matches False e f" if "f \<in> set (r_list r)" for f
    using all that Cons.prems(1,3) by (auto simp: matches_def apart_def ranges_ok_def)
  obtain i where i: "res = Some i" "i \<le> length (r_list r)" "r_list r1 = insert_at i e (r_list r)"
    using r1(2) all nomatch by (cases res) (auto simp: inserted_def)
  have set1: "set (r_list r1) = insert e (set (r_list r))" "length (r_list r1) = Suc (length (r_list r))"
    using i insert_at_set by (simp_all add: insert_at_def)
  have "\<exists>r'. insert_all es r1 = Some r' \<and> ranges_ok (r_list r') \<and> set (r_list r') = set (r_list r1) \<union> set es \<and>
      length (r_list r') = length (r_list r1) + length es"
    using Cons.prems ok1 set1 by (intro Cons.IH) auto
  then show ?case using r1(1) i(1) set1 by auto
qed simp

section \<open>Properties\<close>

definition example_remap :: range_remap where
  "example_remap = \<lparr>r_list = [\<lparr>re_start = 2, re_end = 4, re_ptr = 20\<rparr>, \<lparr>re_start = 8, re_end = 9, re_ptr = 80\<rparr>],
     sorted_array = None, sorted_array_length = 0\<rparr>"

lemma example_remap_ok: "ranges_ok (r_list example_remap)" "length (r_list example_remap) = 2"
  by (simp_all add: example_remap_def ranges_ok_def)

text \<open>C35. The binary search returns, and returns what a walk along the array from its first entry
  returns: the entry whose range contains the location, or null when there is none.\<close>

theorem range_lookup_exact:
  assumes "ranges_ok (r_list r)" "length (r_list r) < 2 ^ 31"
  shows "util_range_remap n (util_range_switch_to_sorted_array r) =
    Some (find (\<lambda>i. hit n (r_list r ! i)) [0..<length (r_list r)])"
  by (rule lookup_find [OF switch_switched [OF assms(2)] assms])

theorem range_lookup_exact_witness:
  "util_range_remap 9 (util_range_switch_to_sorted_array example_remap) = Some (Some 1) \<and>
   util_range_remap 5 (util_range_switch_to_sorted_array example_remap) = Some None"
proof -
  have "[0..<length (r_list example_remap)] = [0, 1]" by (simp add: example_remap_ok(2) upt_rec)
  then show ?thesis
    using range_lookup_exact [OF example_remap_ok(1), of 9] range_lookup_exact [OF example_remap_ok(1), of 5]
    by (simp add: example_remap_ok(2)) (simp add: example_remap_def hit_def)
qed

text \<open>C36. Inserting a range returns, keeps the list sorted and disjoint, and does exactly what the
  comment says: a range apart from all entries is put into its place, a range that matches an
  entry (exactly, or with the same start and a smaller end where truncation is allowed) updates
  that entry or returns it unchanged for a null pointer, and any other overlap returns null and
  changes nothing.\<close>

theorem range_insert_sorted:
  assumes "ranges_ok (r_list r)" "length (r_list r) < 2 ^ 31" "start \<le> stop"
  shows "\<exists>res r'. util_range_insert_remap start stop r ptr allow = Some (res, r') \<and> ranges_ok (r_list r') \<and>
    inserted \<lparr>re_start = start, re_end = stop, re_ptr = ptr\<rparr> allow (r_list r) (res, r_list r') \<and>
    sorted_array r' = sorted_array r"
proof -
  from insert_remap [OF assms, of ptr allow] obtain res r' where
    i: "util_range_insert_remap start stop r ptr allow = Some (res, r')"
    "inserted \<lparr>re_start = start, re_end = stop, re_ptr = ptr\<rparr> allow (r_list r) (res, r_list r')"
    "sorted_array r' = sorted_array r" by blast
  then show ?thesis using inserted_ok [OF assms(1) _ i(2)] assms(3) by auto
qed

theorem range_insert_sorted_witness:
  "\<exists>res r'. util_range_insert_remap 5 7 example_remap 50 False = Some (res, r') \<and> ranges_ok (r_list r') \<and>
    inserted \<lparr>re_start = 5, re_end = 7, re_ptr = 50\<rparr> False (r_list example_remap) (res, r_list r')"
  using range_insert_sorted [OF example_remap_ok(1), of 5 7 50 False] example_remap_ok(2) by auto

text \<open>C10. The table implements a set of ranges: after ranges that are pairwise apart were inserted in any
  order and the table was switched to its array, a lookup returns an entry of the array exactly when
  one of the inserted ranges contains the location, and then that entry is this range with its
  pointer.\<close>

theorem range_remap_refines:
  assumes "\<forall>e\<in>set es. re_start e \<le> re_end e" "sorted_wrt (\<lambda>e f. apart f e) es" "length es < 2 ^ 31"
  shows "\<exists>r. insert_all es util_create_range_remap = Some r \<and>
    (case util_range_remap n (util_range_switch_to_sorted_array r) of
       Some (Some i) \<Rightarrow> (\<exists>xs. sorted_array (util_range_switch_to_sorted_array r) = Some xs \<and>
         i < length xs \<and> xs ! i \<in> set es \<and> hit n (xs ! i))
     | Some None \<Rightarrow> \<forall>e\<in>set es. \<not> hit n e
     | None \<Rightarrow> False)"
proof -
  have start: "r_list util_create_range_remap = []" by (simp add: util_create_range_remap_def)
  have "\<exists>r. insert_all es util_create_range_remap = Some r \<and> ranges_ok (r_list r) \<and>
      set (r_list r) = set (r_list util_create_range_remap) \<union> set es \<and>
      length (r_list r) = length (r_list util_create_range_remap) + length es"
    using assms start by (intro insert_all_apart) (simp_all add: ranges_ok_def)
  then obtain r where r: "insert_all es util_create_range_remap = Some r" "ranges_ok (r_list r)"
    "set (r_list r) = set es" "length (r_list r) < 2 ^ 31" using start assms(3) by auto
  have look: "util_range_remap n (util_range_switch_to_sorted_array r) =
      Some (find (\<lambda>i. hit n (r_list r ! i)) [0..<length (r_list r)])"
    by (rule lookup_find [OF switch_switched [OF r(4)] r(2,4)])
  show ?thesis
  proof (cases "find (\<lambda>i. hit n (r_list r ! i)) [0..<length (r_list r)]")
    case None
    then have "\<forall>e\<in>set (r_list r). \<not> hit n e" by (auto simp: find_None_iff in_set_conv_nth)
    then show ?thesis using look None r(1,3) by simp
  next
    case (Some i)
    then have i: "i < length (r_list r)" "hit n (r_list r ! i)" by (auto simp: find_Some_iff)
    then have "sorted_array (util_range_switch_to_sorted_array r) = Some (r_list r)"
      using switch_switched [OF r(4)] by (auto simp: switched_def)
    then show ?thesis using look Some r(1,3) i nth_mem [of i "r_list r"] by simp
  qed
qed

theorem range_remap_refines_witness:
  "\<exists>r i xs. insert_all [\<lparr>re_start = 8, re_end = 9, re_ptr = 80\<rparr>, \<lparr>re_start = 2, re_end = 4, re_ptr = 20\<rparr>] util_create_range_remap = Some r \<and>
    util_range_remap 3 (util_range_switch_to_sorted_array r) = Some (Some i) \<and>
    sorted_array (util_range_switch_to_sorted_array r) = Some xs \<and> xs ! i = \<lparr>re_start = 2, re_end = 4, re_ptr = 20\<rparr>"
proof -
  let ?es = "[\<lparr>re_start = 8, re_end = 9, re_ptr = 80\<rparr>, \<lparr>re_start = 2, re_end = 4, re_ptr = 20\<rparr>]"
  have hits: "hit 3 e \<longleftrightarrow> e = \<lparr>re_start = 2, re_end = 4, re_ptr = 20\<rparr>" if "e \<in> set ?es" for e
    using that by (auto simp: hit_def)
  obtain r where r: "insert_all ?es util_create_range_remap = Some r"
    "case util_range_remap 3 (util_range_switch_to_sorted_array r) of
       Some (Some i) \<Rightarrow> (\<exists>xs. sorted_array (util_range_switch_to_sorted_array r) = Some xs \<and>
         i < length xs \<and> xs ! i \<in> set ?es \<and> hit 3 (xs ! i))
     | Some None \<Rightarrow> \<forall>e\<in>set ?es. \<not> hit 3 e
     | None \<Rightarrow> False"
    using range_remap_refines [of ?es 3] by (force simp: apart_def simp del: insert_all.simps)
  show ?thesis
  proof (cases "util_range_remap 3 (util_range_switch_to_sorted_array r)")
    case (Some res)
    then show ?thesis using r hits by (cases res) (auto simp del: insert_all.simps simp: hit_def)
  qed (use r(2) in simp)
qed

end
