(* ===== verification/Range_Min_Query.thy ===== *)
theory Range_Min_Query
  imports Radv_Prelude "HOL-Library.Monad_Syntax"
begin

text \<open>
  Range minimum queries by a sparse table, \<open>src/src/util/range_minimum_query.c\<close>, with the base-2
  logarithms of \<open>src/src/util/u_math.h\<close> it relies on, in the form that uses the compiler's count of leading
  zeros and in the portable form.

  The table is one flat array; an access outside it is undefined (\<open>None\<close>). Offsets of rows are
  computed with 32 bits as in the code. \<open>reralloc_array_size\<close> of \<open>src/src/util/ralloc.c\<close> computes the bytes to
  ask for; the resizing of an allocation, which ends in the C library's \<open>realloc\<close>, is a parameter. The array
  behind a null pointer has no elements.
\<close>

section \<open>Logarithms\<close>

definition builtin_clz :: "'a::len word \<Rightarrow> nat" where
  "builtin_clz n = length (takeWhile (\<lambda>i. \<not> bit n i) (rev [0..<LENGTH('a)]))"

definition util_logbase2 :: "u32 \<Rightarrow> u32" where
  "util_logbase2 n = 31 - of_nat (builtin_clz (n OR 1))"

definition util_logbase2_64 :: "u64 \<Rightarrow> u64" where
  "util_logbase2_64 n = 63 - of_nat (builtin_clz (n OR 1))"

text \<open>One line of the portable form: when \<open>n\<close> has more than \<open>k\<close> bits, drop the lowest \<open>k\<close>.\<close>

definition log_halve :: "nat \<Rightarrow> u32 \<times> u32 \<Rightarrow> u32 \<times> u32" where
  "log_halve k = (\<lambda>(n, pos). if n \<ge> push_bit k 1 then (drop_bit k n, pos + of_nat k) else (n, pos))"

definition util_logbase2_portable :: "u32 \<Rightarrow> u32" where
  "util_logbase2_portable n =
     (let s = (n, 0);
          s = log_halve 16 s;
          s = log_halve 8 s;
          s = log_halve 4 s;
          s = log_halve 2 s
      in if fst s \<ge> push_bit 1 1 then snd s + 1 else snd s)"

section \<open>The table\<close>

record range_minimum_query_table =
  rmq_table :: "u32 list"
  rmq_width :: u32
  rmq_height :: u32

definition range_minimum_query_table_init :: range_minimum_query_table where
  "range_minimum_query_table_init = \<lparr>rmq_table = [], rmq_width = 0, rmq_height = 0\<rparr>"

definition reralloc_array_size :: "(u32 list \<Rightarrow> u64 \<Rightarrow> u32 list) \<Rightarrow> u32 list \<Rightarrow> u64 \<Rightarrow> u32 \<Rightarrow> u32 list" where
  "reralloc_array_size reralloc_size ptr elem_size count =
     (if ucast count > (- 1) div elem_size then []
      else reralloc_size ptr (elem_size * ucast count))"

definition range_minimum_query_table_resize ::
  "(u32 list \<Rightarrow> u64 \<Rightarrow> u32 list) \<Rightarrow> range_minimum_query_table \<Rightarrow> u32 \<Rightarrow> range_minimum_query_table" where
  "range_minimum_query_table_resize reralloc_size table width =
     (let height = util_logbase2_64 (ucast width) + 1;
          sz = ucast width * height
      in table\<lparr>rmq_table := reralloc_array_size reralloc_size (rmq_table table) 4 (ucast sz),
               rmq_width := width, rmq_height := ucast height\<rparr>)"

text \<open>\<open>out\<close>, \<open>a\<close> and \<open>b\<close> are offsets into the table.\<close>

primrec elementwise_minimum :: "u32 list \<Rightarrow> nat \<Rightarrow> nat \<Rightarrow> nat \<Rightarrow> nat \<Rightarrow> u32 list option" where
  "elementwise_minimum t out a b 0 = Some t"
| "elementwise_minimum t out a b (Suc i) = do {
     t \<leftarrow> elementwise_minimum t out a b i;
     x \<leftarrow> array_read t (a + i);
     y \<leftarrow> array_read t (b + i);
     array_set t (out + i) (if x < y then x else y)
   }"

definition rmq_distance :: "u32 \<Rightarrow> u32" where
  "rmq_distance level = push_bit (unat level) 1"

definition rmq_row :: "range_minimum_query_table \<Rightarrow> u32 list \<Rightarrow> nat \<Rightarrow> u32 list option" where
  "rmq_row table t i =
     (let in_distance = rmq_distance (of_nat i - 1);
          out_distance = rmq_distance (of_nat i);
          in_row = unat (rmq_width table * (of_nat i - 1));
          out_row = unat (rmq_width table * of_nat i)
      in elementwise_minimum t out_row in_row (in_row + unat in_distance)
           (unat (rmq_width table - out_distance + 1)))"

fun rmq_rows :: "range_minimum_query_table \<Rightarrow> u32 list \<Rightarrow> nat list \<Rightarrow> u32 list option" where
  "rmq_rows table t [] = Some t"
| "rmq_rows table t (i # is) = do { t \<leftarrow> rmq_row table t i; rmq_rows table t is }"

definition range_minimum_query_table_preprocess ::
  "range_minimum_query_table \<Rightarrow> range_minimum_query_table option" where
  "range_minimum_query_table_preprocess table = do {
     t \<leftarrow> rmq_rows table (rmq_table table) [1..<unat (rmq_height table)];
     Some (table\<lparr>rmq_table := t\<rparr>)
   }"

definition range_minimum_query :: "range_minimum_query_table \<Rightarrow> u32 \<Rightarrow> u32 \<Rightarrow> u32 option" where
  "range_minimum_query table left_idx right_idx = do {
     let distance = right_idx - left_idx;
     let level = util_logbase2 distance;
     let row = unat (rmq_width table * level);
     left \<leftarrow> array_read (rmq_table table) (row + unat left_idx);
     right \<leftarrow> array_read (rmq_table table) (row + unat (right_idx - rmq_distance level));
     Some (if left < right then left else right)
   }"

section \<open>Logarithms are exact\<close>

text \<open>\<open>p\<close> is the position of the highest bit of \<open>n\<close>.\<close>

definition top_bit :: "nat \<Rightarrow> nat \<Rightarrow> bool" where
  "top_bit n p \<longleftrightarrow> 2 ^ p \<le> n \<and> n < 2 ^ (p + 1)"

lemma top_bit_unique: "top_bit n p \<Longrightarrow> top_bit n q \<Longrightarrow> p = q"
proof (rule ccontr)
  assume a: "top_bit n p" "top_bit n q" "p \<noteq> q"
  then consider "p + 1 \<le> q" | "q + 1 \<le> p" by linarith
  then show False
  proof cases
    case 1
    then have "(2::nat) ^ (p + 1) \<le> 2 ^ q" by (intro power_increasing) simp_all
    then show False using a unfolding top_bit_def by linarith
  next
    case 2
    then have "(2::nat) ^ (q + 1) \<le> 2 ^ p" by (intro power_increasing) simp_all
    then show False using a unfolding top_bit_def by linarith
  qed
qed

lemma top_bit_div: "n div 2 ^ p = 1 \<Longrightarrow> top_bit n p"
  using dividend_less_div_times [of "2 ^ p" n] div_times_less_eq_dividend [of n "2 ^ p"] by (simp add: top_bit_def)

lemma clz_nat:
  assumes "n < 2 ^ L" "0 < n"
  shows "length (takeWhile (\<lambda>i. \<not> bit n i) (rev [0..<L])) < L \<and>
    top_bit n (L - 1 - length (takeWhile (\<lambda>i. \<not> bit n i) (rev [0..<L])))"
  using assms
proof (induction L)
  case (Suc L)
  show ?case
  proof (cases "bit n L")
    case True
    then have "odd (n div 2 ^ L)" by (simp add: bit_iff_odd)
    moreover have "n div 2 ^ L < 2" using Suc.prems(1) by (simp add: less_mult_imp_div_less)
    ultimately have "n div 2 ^ L = 1" by (metis less_2_cases odd_pos not_less_zero neq0_conv One_nat_def)
    then show ?thesis using True top_bit_div by simp
  next
    case False
    then have "even (n div 2 ^ L)" by (simp add: bit_iff_odd)
    moreover have "n div 2 ^ L < 2" using Suc.prems(1) by (simp add: less_mult_imp_div_less)
    ultimately have "n div 2 ^ L = 0" by (metis less_2_cases odd_one One_nat_def)
    then have "n < 2 ^ L" by (simp add: div_eq_0_iff)
    then show ?thesis using Suc.IH Suc.prems(2) False by simp
  qed
qed simp

lemma clz_word:
  fixes n :: "'a::len word"
  assumes "n \<noteq> 0"
  shows "builtin_clz n < LENGTH('a)" "top_bit (unat n) (LENGTH('a) - 1 - builtin_clz n)"
proof -
  have "builtin_clz n = length (takeWhile (\<lambda>i. \<not> bit (unat n) i) (rev [0..<LENGTH('a)]))"
    by (simp add: builtin_clz_def bit_unsigned_iff)
  moreover have "0 < unat n" using assms by (simp add: unat_gt_0)
  ultimately show "builtin_clz n < LENGTH('a)" "top_bit (unat n) (LENGTH('a) - 1 - builtin_clz n)"
    using clz_nat [OF unat_bound [of n]] by simp_all
qed

lemma top_bit_or_1:
  assumes "top_bit (n OR 1) p" "0 < (n :: nat)"
  shows "top_bit n p"
proof (cases "even n")
  case False
  then have "n OR 1 = n" unfolding or_one_eq by simp
  then show ?thesis using assms(1) by (simp only:)
next
  case True
  then have "n OR 1 = n + 1" unfolding or_one_eq by simp
  then have "top_bit (n + 1) p" using assms(1) by (simp only:)
  then have t: "2 ^ p \<le> n + 1" "n + 1 < 2 ^ (p + 1)" by (simp_all add: top_bit_def)
  have "2 ^ p \<noteq> n + 1" using True assms(2) by (cases p) (auto dest: arg_cong [of _ _ even])
  then show ?thesis using t by (simp add: top_bit_def)
qed

lemma clz_top:
  fixes n :: "'a::len word"
  assumes "n \<noteq> 0"
  shows "builtin_clz (n OR 1) < LENGTH('a)" "top_bit (unat n) (LENGTH('a) - 1 - builtin_clz (n OR 1))"
proof -
  have nz: "n OR 1 \<noteq> 0" using assms by (simp add: or_eq_0_iff)
  have "unat (n OR 1) = unat n OR 1" unfolding unsigned_or_eq unsigned_1 ..
  from top_bit_or_1 [OF clz_word(2) [OF nz, unfolded this]] assms
  show "top_bit (unat n) (LENGTH('a) - 1 - builtin_clz (n OR 1))" by (simp only: unat_gt_0 simp_thms)
  show "builtin_clz (n OR 1) < LENGTH('a)" by (rule clz_word(1) [OF nz])
qed

lemma unat_diff_of_nat:
  assumes "k \<le> unat c"
  shows "unat (c - of_nat k :: 'a::len word) = unat c - k"
proof -
  have "unat (of_nat k :: 'a word) = k"
    using le_less_trans [OF assms unat_bound [of c]] by (simp add: unat_of_nat)
  then show ?thesis using unat_sub_no_wrap [of "of_nat k" c] assms by simp
qed

lemma logbase2_64_top:
  assumes "n \<noteq> 0"
  shows "top_bit (unat n) (unat (util_logbase2_64 n))"
proof -
  have "unat (util_logbase2_64 n) = 63 - builtin_clz (n OR 1)"
    unfolding util_logbase2_64_def using clz_top(1) [OF assms] by (subst unat_diff_of_nat) simp_all
  then show ?thesis using clz_top(2) [OF assms] by simp
qed

lemma logbase2_top:
  assumes "n \<noteq> 0"
  shows "top_bit (unat n) (unat (util_logbase2 n))"
proof -
  have "unat (util_logbase2 n) = 31 - builtin_clz (n OR 1)"
    unfolding util_logbase2_def using clz_top(1) [OF assms] by (subst unat_diff_of_nat) simp_all
  then show ?thesis using clz_top(2) [OF assms] by simp
qed

text \<open>One comparison of the portable form halves the number of bits that are left.\<close>

definition log_state :: "u32 \<Rightarrow> nat \<Rightarrow> u32 \<times> u32 \<Rightarrow> bool" where
  "log_state N k s \<longleftrightarrow>
     fst s = drop_bit (unat (snd s)) N \<and> fst s \<noteq> 0 \<and> unat (fst s) < 2 ^ k \<and> unat (snd s) + k \<le> 32"

lemma log_step:
  assumes "log_state N (2 * k) (n, pos)" "k \<le> 16"
  shows "log_state N k (if n \<ge> push_bit k 1 then (drop_bit k n, pos + of_nat k) else (n, pos))"
proof -
  have s: "n = drop_bit (unat pos) N" "n \<noteq> 0" "unat n < 2 ^ (2 * k)" "unat pos + 2 * k \<le> 32"
    using assms(1) unfolding log_state_def fst_conv snd_conv by blast+
  have p: "unat (push_bit k 1 :: u32) = 2 ^ k"
    using assms(2) by (simp add: push_bit_eq_mult unat_pow2)
  show ?thesis
  proof (cases "n \<ge> push_bit k 1")
    case False
    then have "unat n < 2 ^ k" using p by (simp add: word_le_nat_alt)
    then show ?thesis using s False by (simp add: log_state_def)
  next
    case True
    then have ge: "2 ^ k \<le> unat n" using p by (simp add: word_le_nat_alt)
    have "unat (of_nat k :: u32) = k" using assms(2) by (simp add: unat_of_nat)
    then have pos: "unat (pos + of_nat k) = unat pos + k" using s(4) by (subst unat_add_no_wrap) simp_all
    have d: "unat (drop_bit k n) = unat n div 2 ^ k" by (metis unat_drop_bit_eq drop_bit_eq_div)
    have "0 < unat (drop_bit k n)" unfolding d using ge by (simp add: div_greater_zero_iff)
    moreover have "unat (drop_bit k n) < 2 ^ k"
      unfolding d using s(3) by (intro less_mult_imp_div_less) (simp add: mult_2 power_add)
    moreover have "drop_bit k n = drop_bit (unat pos + k) N" using s(1) by (simp add: add.commute)
    ultimately show ?thesis using True pos s(4) by (auto simp: log_state_def)
  qed
qed

lemma log_halve_state: "log_state N (2 * k) s \<Longrightarrow> k \<le> 16 \<Longrightarrow> log_state N k (log_halve k s)"
  using log_step [of N k "fst s" "snd s"] unfolding log_halve_def by (simp only: prod.collapse case_prod_beta)

lemma portable_halves:
  "util_logbase2_portable n = snd (log_halve 1 (log_halve 2 (log_halve 4 (log_halve 8 (log_halve 16 (n, 0))))))"
proof -
  have "snd (log_halve 1 s) = (if fst s \<ge> push_bit 1 1 then snd s + 1 else snd s)" for s
    by (simp add: log_halve_def case_prod_beta)
  then show ?thesis unfolding util_logbase2_portable_def Let_def by (simp only:)
qed

lemma logbase2_portable_top:
  assumes "N \<noteq> 0"
  shows "top_bit (unat N) (unat (util_logbase2_portable N))"
proof -
  define s16 where "s16 = log_halve 16 (N, 0)"
  define s8 where "s8 = log_halve 8 s16"
  define s4 where "s4 = log_halve 4 s8"
  define s2 where "s2 = log_halve 2 s4"
  define s where "s = log_halve 1 s2"
  have "log_state N (2 * 16) (N, 0)" using assms unat_bound [of N] by (simp add: log_state_def)
  from log_halve_state [OF this] have "log_state N (2 * 8) s16" by (simp add: s16_def)
  from log_halve_state [OF this] have "log_state N (2 * 4) s8" by (simp add: s8_def)
  from log_halve_state [OF this] have "log_state N (2 * 2) s4" by (simp add: s4_def)
  from log_halve_state [OF this] have "log_state N (2 * 1) s2" by (simp add: s2_def)
  from log_halve_state [OF this] have s: "log_state N 1 s" by (simp add: s_def)
  have res: "util_logbase2_portable N = snd s"
    by (simp only: portable_halves s_def s2_def s4_def s8_def s16_def)
  have "unat (fst s) < 2 ^ 1" "unat (fst s) \<noteq> 0" using s unfolding log_state_def unat_eq_0 by blast+
  then have "unat (fst s) = 1" by (simp add: less_2_cases_iff)
  moreover have "fst s = drop_bit (unat (snd s)) N" using s by (simp add: log_state_def)
  ultimately have "unat (drop_bit (unat (snd s)) N) = 1" by (simp only:)
  then have "unat N div 2 ^ unat (snd s) = 1" by (metis unat_drop_bit_eq drop_bit_eq_div)
  then show ?thesis using res top_bit_div by (simp only:)
qed

lemma logbase2_portable: "util_logbase2_portable n = util_logbase2 n"
proof (cases "n = 0")
  case True
  then show ?thesis by (simp, code_simp)
next
  case False
  then show ?thesis
    using top_bit_unique [OF logbase2_portable_top [OF False] logbase2_top [OF False]] by (simp add: word_unat_eq_iff)
qed

section \<open>The rows hold minima\<close>

definition min_of :: "u32 list \<Rightarrow> nat \<Rightarrow> nat \<Rightarrow> u32" where
  "min_of A i n = Min ((!) A ` {i..<i + n})"

lemma min_of_split:
  assumes "0 < n" "0 < m" "i \<le> j" "j \<le> i + n" "i + n \<le> j + m"
  shows "min (min_of A i n) (min_of A j m) = min_of A i (j + m - i)"
proof -
  have "{i..<i + (j + m - i)} = {i..<i + n} \<union> {j..<j + m}" using assms by auto
  then have "min_of A i (j + m - i) = Min ((!) A ` {i..<i + n} \<union> (!) A ` {j..<j + m})"
    unfolding min_of_def by (simp only: image_Un)
  also have "\<dots> = min (min_of A i n) (min_of A j m)"
    unfolding min_of_def using assms(1,2) by (intro Min_Un) simp_all
  finally show ?thesis ..
qed

text \<open>The entry \<open>j\<close> of row \<open>l\<close> is the minimum of \<open>2 ^ l\<close> elements from \<open>j\<close> on.\<close>

definition rows_ok :: "u32 list \<Rightarrow> nat \<Rightarrow> u32 list \<Rightarrow> nat \<Rightarrow> bool" where
  "rows_ok A w t L \<longleftrightarrow> (\<forall>l<L. \<forall>j. j + 2 ^ l \<le> w \<longrightarrow> t ! (w * l + j) = min_of A j (2 ^ l))"

lemma elementwise_spec:
  assumes "out + n \<le> length t" "a + n \<le> out" "b + n \<le> out"
  shows "\<exists>t'. elementwise_minimum t out a b n = Some t' \<and> length t' = length t \<and>
    (\<forall>k. k < out \<or> out + n \<le> k \<longrightarrow> t' ! k = t ! k) \<and>
    (\<forall>k<n. t' ! (out + k) = min (t ! (a + k)) (t ! (b + k)))"
  using assms
proof (induction n)
  case (Suc n)
  then obtain t1 where t1: "elementwise_minimum t out a b n = Some t1" "length t1 = length t"
    "\<forall>k. k < out \<or> out + n \<le> k \<longrightarrow> t1 ! k = t ! k" "\<forall>k<n. t1 ! (out + k) = min (t ! (a + k)) (t ! (b + k))" by auto
  have rd: "array_read t1 (a + n) = Some (t ! (a + n))" "array_read t1 (b + n) = Some (t ! (b + n))"
    using t1(2,3) Suc.prems by (simp_all add: array_read_def)
  let ?t = "t1[out + n := min (t ! (a + n)) (t ! (b + n))]"
  have eq: "(if x < y then x else y) = min x y" for x y :: u32 by (auto simp: min_def)
  have "elementwise_minimum t out a b (Suc n) = Some ?t"
    using t1(1,2) rd Suc.prems(1) by (simp add: array_set_def eq)
  moreover have "?t ! (out + k) = min (t ! (a + k)) (t ! (b + k))" if "k < Suc n" for k
    using that t1(2,4) Suc.prems(1) by (cases "k = n") auto
  moreover have "?t ! k = t ! k" if "k < out \<or> out + Suc n \<le> k" for k using that t1(3) by auto
  ultimately show ?case using t1(2) by (intro exI [of _ ?t]) simp
qed simp

lemma unat_rmq_distance: "unat l < 32 \<Longrightarrow> unat (rmq_distance l) = 2 ^ unat l"
  by (simp add: rmq_distance_def push_bit_eq_mult unat_pow2)

lemma rmq_row_spec:
  assumes ok: "rows_ok A w t i" and i: "0 < i" "2 ^ i \<le> w" "i < 32" and w: "unat (rmq_width T) = w"
    and len: "length t = w * h" "i < h" "w * h < 2 ^ 32"
  shows "\<exists>t'. rmq_row T t i = Some t' \<and> length t' = length t \<and> rows_ok A w t' (Suc i)"
proof -
  let ?d = "2 ^ (i - 1) :: nat"
  have d2: "?d + ?d = 2 ^ i" using i by (cases i) simp_all
  have n: "unat (of_nat i :: u32) = i" "unat (of_nat i - 1 :: u32) = i - 1"
    using i unat_diff_of_nat [of 1 "of_nat i :: u32"] by (simp_all add: unat_of_nat)
  have wi: "w * i + w \<le> w * h" using len(2) by (metis Suc_leI mult_Suc_right add.commute mult_le_mono2)
  have "w * (i - 1) + w = w * i" using i(1) by (metis Suc_diff_1 add.commute mult_Suc_right)
  then have prev: "w * (i - 1) \<le> w * i" "w * (i - 1) + w = w * i" by simp_all
  have off: "unat (rmq_width T * of_nat i) = w * i" "unat (rmq_width T * (of_nat i - 1)) = w * (i - 1)"
    using n w wi prev len(3) unat_mult_no_wrap [of "rmq_width T" "of_nat i"] unat_mult_no_wrap [of "rmq_width T" "of_nat i - 1"]
    by simp_all
  have dist: "unat (rmq_distance (of_nat i - 1)) = ?d" "unat (rmq_distance (of_nat i)) = 2 ^ i"
    using unat_rmq_distance [of "of_nat i - 1"] unat_rmq_distance [of "of_nat i"] n i(3) by simp_all
  have "unat (rmq_width T - rmq_distance (of_nat i)) = w - 2 ^ i"
    using unat_sub_no_wrap [of "rmq_distance (of_nat i)" "rmq_width T"] dist w i(2) by simp
  moreover have "w < 2 ^ 32" using unat_bound [of "rmq_width T"] w by simp
  moreover have "(2 :: nat) ^ 1 \<le> 2 ^ i" using i(1) by (intro power_increasing) simp_all
  ultimately have count: "unat (rmq_width T - rmq_distance (of_nat i) + 1) = w - 2 ^ i + 1"
    using unat_add_no_wrap [of "rmq_width T - rmq_distance (of_nat i)" 1] by simp
  have row: "rmq_row T t i = elementwise_minimum t (w * i) (w * (i - 1)) (w * (i - 1) + ?d) (w - 2 ^ i + 1)"
    by (simp add: rmq_row_def Let_def off dist count)
  have pos: "0 < ?d" by simp
  have "w * i + (w - 2 ^ i + 1) \<le> length t" "w * (i - 1) + (w - 2 ^ i + 1) \<le> w * i"
    "w * (i - 1) + ?d + (w - 2 ^ i + 1) \<le> w * i"
    using wi len(1) prev(2) i(2) d2 pos by linarith+
  from elementwise_spec [OF this] obtain t' where
    t': "rmq_row T t i = Some t'" "length t' = length t" "\<forall>k. k < w * i \<or> w * i + (w - 2 ^ i + 1) \<le> k \<longrightarrow> t' ! k = t ! k"
    "\<forall>k<w - 2 ^ i + 1. t' ! (w * i + k) = min (t ! (w * (i - 1) + k)) (t ! (w * (i - 1) + ?d + k))"
    unfolding row by blast
  have "t' ! (w * l + j) = min_of A j (2 ^ l)" if lj: "l < Suc i" "j + 2 ^ l \<le> w" for l j
  proof (cases "l = i")
    case True
    then have j: "j + 2 ^ i \<le> w" using lj(2) by simp
    then have "j < w - 2 ^ i + 1" by simp
    then have "t' ! (w * i + j) = min (t ! (w * (i - 1) + j)) (t ! (w * (i - 1) + (?d + j)))" using t'(4) by (simp add: add.assoc)
    also have "t ! (w * (i - 1) + j) = min_of A j ?d" using ok i(1) j d2 by (simp add: rows_ok_def)
    also have "t ! (w * (i - 1) + (?d + j)) = min_of A (?d + j) ?d" using ok i(1) j d2 by (simp add: rows_ok_def)
    also have "min (min_of A j ?d) (min_of A (?d + j) ?d) = min_of A j (?d + j + ?d - j)"
      by (rule min_of_split) simp_all
    also have "?d + j + ?d - j = 2 ^ i" using d2 by simp
    finally show ?thesis using True by simp
  next
    case False
    then have l: "l < i" using lj(1) by simp
    have "w * l + w \<le> w * i" using l by (metis Suc_leI mult_Suc_right add.commute mult_le_mono2)
    moreover have "j < w" using lj(2) by (metis add_leD1 le_neq_implies_less add_le_same_cancel1 not_one_le_zero power_eq_0_iff le_0_eq zero_neq_numeral)
    ultimately have "w * l + j < w * i" by linarith
    then show ?thesis using t'(3) ok l lj(2) by (simp add: rows_ok_def)
  qed
  then show ?thesis using t'(1,2) by (auto simp: rows_ok_def)
qed

lemma rmq_rows_spec:
  assumes "rows_ok A w t i" "0 < i" "i \<le> h" "\<forall>k<h. 2 ^ k \<le> w" "h \<le> 32" "unat (rmq_width T) = w"
    "length t = w * h" "w * h < 2 ^ 32"
  shows "\<exists>t'. rmq_rows T t [i..<h] = Some t' \<and> length t' = length t \<and> rows_ok A w t' h"
  using assms
proof (induction "h - i" arbitrary: i t)
  case 0
  then show ?case by simp
next
  case (Suc n)
  then have lt: "i < h" by simp
  obtain t1 where t1: "rmq_row T t i = Some t1" "length t1 = length t" "rows_ok A w t1 (Suc i)"
    using rmq_row_spec [OF Suc.prems(1,2), of T h] Suc.prems lt by auto
  have "\<exists>t'. rmq_rows T t1 [Suc i..<h] = Some t' \<and> length t' = length t1 \<and> rows_ok A w t' h"
    using Suc.hyps(2) Suc.prems t1 lt by (intro Suc.hyps(1)) auto
  then show ?case using t1 lt by (simp add: upt_conv_Cons)
qed

text \<open>A table of the right size for the width, with the input in row 0.\<close>

definition rmq_ready :: "u32 list \<Rightarrow> range_minimum_query_table \<Rightarrow> bool" where
  "rmq_ready A T \<longleftrightarrow>
     (let w = unat (rmq_width T); h = unat (rmq_height T)
      in 0 < w \<and> length A = w \<and> 0 < h \<and> h \<le> 32 \<and> top_bit w (h - 1) \<and> w * h < 2 ^ 32 \<and>
         length (rmq_table T) = w * h \<and> take w (rmq_table T) = A)"

lemma top_bit_mono: "top_bit n p \<Longrightarrow> k \<le> p \<Longrightarrow> 2 ^ k \<le> n"
  unfolding top_bit_def using power_increasing [of k p "2 :: nat"] by linarith

lemma array_size_length:
  assumes "\<And>t n. length (reralloc_size t n) = unat n div 4"
  shows "length (reralloc_array_size reralloc_size ptr 4 count) = unat count"
proof -
  have "unat (ucast count :: u64) < 2 ^ 32" using unat_bound [of count] by simp
  then have "unat (4 * ucast count :: u64) = 4 * unat count" "\<not> (- 1) div 4 < (ucast count :: u64)"
    using unat_mult_no_wrap [of 4 "ucast count :: u64"] by (simp_all add: word_less_nat_alt unat_div_distrib)
  then show ?thesis using assms by (simp add: reralloc_array_size_def)
qed

lemma resize_ready:
  assumes w: "width \<noteq> 0" and A: "length A = unat width"
    and mem: "\<And>t n. length (reralloc_size t n) = unat n div 4"
    and contract: "unat width * (unat (util_logbase2_64 (ucast width)) + 1) < 2 ^ 32 - 1"
    and T: "T = range_minimum_query_table_resize reralloc_size T0 width"
  shows "rmq_ready A (T\<lparr>rmq_table := A @ drop (unat width) (rmq_table T)\<rparr>)"
proof -
  let ?l = "util_logbase2_64 (ucast width)"
  have nz: "(ucast width :: u64) \<noteq> 0" using w ucast_u32_u64_eq [of width 0] by (simp del: ucast_u32_u64_eq)
  have top: "top_bit (unat width) (unat ?l)" using logbase2_64_top [OF nz] by simp
  have l: "unat ?l < 32"
  proof (rule ccontr)
    assume "\<not> unat ?l < 32"
    then have "(2::nat) ^ 32 \<le> 2 ^ unat ?l" by (intro power_increasing) simp_all
    then show False using top unat_bound [of width] unfolding top_bit_def by simp
  qed
  have h: "unat (?l + 1) = unat ?l + 1" using l by (subst unat_add_no_wrap) simp_all
  then have h32: "unat (ucast (?l + 1) :: u32) = unat ?l + 1" using l by (simp add: unat_ucast_u64_u32)
  have "unat (ucast width * (?l + 1) :: u64) = unat width * (unat ?l + 1)"
    using unat_mult_no_wrap [of "ucast width :: u64" "?l + 1"] contract h by simp
  then have "unat (ucast (ucast width * (?l + 1) :: u64) :: u32) = unat width * (unat ?l + 1)"
    using contract by (simp add: unat_ucast_u64_u32)
  then have len: "length (rmq_table T) = unat width * (unat ?l + 1)" "rmq_width T = width" "rmq_height T = ucast (?l + 1)"
    using T array_size_length [OF mem] by (simp_all add: range_minimum_query_table_resize_def Let_def)
  have "0 < unat width" using w by (simp add: unat_gt_0)
  moreover have "unat width \<le> unat width * (unat ?l + 1)" by simp
  ultimately show ?thesis
    using len h32 A top l contract unfolding rmq_ready_def Let_def by simp
qed

lemma preprocess_spec:
  assumes "rmq_ready A T"
  shows "\<exists>T'. range_minimum_query_table_preprocess T = Some T' \<and> rmq_width T' = rmq_width T \<and>
    length (rmq_table T') = length (rmq_table T) \<and> rows_ok A (unat (rmq_width T)) (rmq_table T') (unat (rmq_height T))"
proof -
  let ?w = "unat (rmq_width T)" and ?h = "unat (rmq_height T)"
  have r: "length A = ?w" "0 < ?h" "?h \<le> 32" "top_bit ?w (?h - 1)" "?w * ?h < 2 ^ 32"
    "length (rmq_table T) = ?w * ?h" "take ?w (rmq_table T) = A"
    using assms by (simp_all add: rmq_ready_def Let_def)
  have "rmq_table T ! j = A ! j" if "j < ?w" for j
    using that arg_cong [OF r(7), of "\<lambda>xs. xs ! j"] by simp
  then have "rows_ok A ?w (rmq_table T) 1" by (simp add: rows_ok_def min_of_def)
  moreover have "\<forall>k<?h. 2 ^ k \<le> ?w" using top_bit_mono [OF r(4)] by simp
  ultimately have "\<exists>t'. rmq_rows T (rmq_table T) [1..<?h] = Some t' \<and> length t' = length (rmq_table T) \<and> rows_ok A ?w t' ?h"
    using r by (intro rmq_rows_spec) simp_all
  then show ?thesis by (auto simp: range_minimum_query_table_preprocess_def)
qed

lemma query_spec:
  assumes ok: "rows_ok A w (rmq_table T) h" and w: "unat (rmq_width T) = w" "length (rmq_table T) = w * h" "w * h < 2 ^ 32"
    and h: "top_bit w (h - 1)" "0 < h" "h \<le> 32" and idx: "l < r" "unat r \<le> w"
  shows "range_minimum_query T l r = Some (min_of A (unat l) (unat r - unat l))"
proof -
  let ?n = "unat r - unat l" and ?p = "util_logbase2 (r - l)"
  have lr: "unat l < unat r" using idx(1) by (simp add: word_less_nat_alt)
  have dist: "unat (r - l) = ?n" using lr by (simp add: unat_sub_no_wrap)
  then have "r - l \<noteq> 0" using lr by (metis unat_0 zero_less_diff less_irrefl)
  from logbase2_top [OF this] have top: "2 ^ unat ?p \<le> ?n" "?n < 2 ^ (unat ?p + 1)" by (simp_all add: dist top_bit_def)
  have p: "unat ?p < h"
  proof (rule ccontr)
    assume "\<not> unat ?p < h"
    then have "(2::nat) ^ h \<le> 2 ^ unat ?p" by (intro power_increasing) simp_all
    moreover have "w < 2 ^ h" using h by (simp add: top_bit_def)
    ultimately show False using top(1) idx(2) by linarith
  qed
  then have d: "unat (rmq_distance ?p) = 2 ^ unat ?p" using h(3) by (intro unat_rmq_distance) simp
  have rd: "unat (r - rmq_distance ?p) = unat r - 2 ^ unat ?p"
    using unat_sub_no_wrap [of "rmq_distance ?p" r] d top(1) by simp
  have row: "w * unat ?p + w \<le> w * h" using p by (metis Suc_leI mult_Suc_right add.commute mult_le_mono2)
  then have off: "unat (rmq_width T * ?p) = w * unat ?p"
    using unat_mult_no_wrap [of "rmq_width T" ?p] w by simp
  have left: "array_read (rmq_table T) (w * unat ?p + unat l) = Some (min_of A (unat l) (2 ^ unat ?p))"
    using ok p row lr idx(2) top(1) w(2) by (simp add: array_read_def rows_ok_def)
  let ?q = "unat r - 2 ^ unat ?p"
  have q: "?q + 2 ^ unat ?p \<le> w" using top(1) idx(2) by simp
  then have "rmq_table T ! (w * unat ?p + ?q) = min_of A ?q (2 ^ unat ?p)" using ok p unfolding rows_ok_def by blast
  moreover have "(0 :: nat) < 2 ^ unat ?p" by simp
  then have "w * unat ?p + ?q < length (rmq_table T)" using q row w(2) by linarith
  ultimately have right: "array_read (rmq_table T) (w * unat ?p + ?q) = Some (min_of A ?q (2 ^ unat ?p))"
    unfolding array_read_def by (simp only: if_True)
  have "min (min_of A (unat l) (2 ^ unat ?p)) (min_of A (unat r - 2 ^ unat ?p) (2 ^ unat ?p)) =
      min_of A (unat l) (unat r - 2 ^ unat ?p + 2 ^ unat ?p - unat l)"
    using top lr by (intro min_of_split) simp_all
  also have "unat r - 2 ^ unat ?p + 2 ^ unat ?p - unat l = ?n" using top(1) by simp
  moreover have "(if x < y then x else y) = min x y" for x y :: u32 by (auto simp: min_def)
  ultimately show ?thesis
    by (simp add: range_minimum_query_def Let_def off rd left right)
qed

section \<open>Properties\<close>

text \<open>C11. Sizing a table, filling its first row with an array, preprocessing it and asking for a range
  returns the minimum of that range of the array; no access leaves the table. The hypotheses are
  the assertion of the code on the size, and that resizing the allocation succeeds: the code does not
  test its result.\<close>

theorem rmq_query_min:
  assumes "width \<noteq> 0" "length A = unat width" "\<And>t n. length (reralloc_size t n) = unat n div 4"
    "unat width * (unat (util_logbase2_64 (ucast width)) + 1) < 2 ^ 32 - 1"
    "T = range_minimum_query_table_resize reralloc_size T0 width" "l < r" "r \<le> width"
  shows "\<exists>T'. range_minimum_query_table_preprocess (T\<lparr>rmq_table := A @ drop (unat width) (rmq_table T)\<rparr>) = Some T' \<and>
    range_minimum_query T' l r = Some (Min ((!) A ` {unat l..<unat r}))"
proof -
  let ?T = "T\<lparr>rmq_table := A @ drop (unat width) (rmq_table T)\<rparr>"
  have ready: "rmq_ready A ?T" by (rule resize_ready [OF assms(1-5)])
  have w: "rmq_width ?T = width" using assms(5) by (simp add: range_minimum_query_table_resize_def Let_def)
  from preprocess_spec [OF ready] obtain T' where
    T': "range_minimum_query_table_preprocess ?T = Some T'" "rmq_width T' = width"
    "length (rmq_table T') = length (rmq_table ?T)" "rows_ok A (unat width) (rmq_table T') (unat (rmq_height ?T))"
    unfolding w by blast
  have "range_minimum_query T' l r = Some (min_of A (unat l) (unat r - unat l))"
    using T' ready assms(6,7) w
    by (intro query_spec [where w = "unat width" and h = "unat (rmq_height ?T)"])
      (simp_all add: rmq_ready_def Let_def word_le_nat_alt)
  moreover have "unat l < unat r" using assms(6) by (simp add: word_less_nat_alt)
  ultimately show ?thesis using T'(1) by (simp add: min_of_def)
qed

theorem rmq_query_min_witness:
  "\<exists>T'. range_minimum_query_table_preprocess
      ((range_minimum_query_table_resize (\<lambda>t n. replicate (unat n div 4) 0) range_minimum_query_table_init 5)
        \<lparr>rmq_table := [7, 3, 9, 4, 8] @ drop (unat (5 :: u32)) (rmq_table
          (range_minimum_query_table_resize (\<lambda>t n. replicate (unat n div 4) 0) range_minimum_query_table_init 5))\<rparr>) = Some T' \<and>
    range_minimum_query T' 2 5 = Some 4"
proof -
  have "util_logbase2_64 (ucast (5 :: u32)) = 2" by code_simp
  then have c: "unat (5 :: u32) * (unat (util_logbase2_64 (ucast (5 :: u32))) + 1) < 2 ^ 32 - 1" by simp
  have "{unat (2 :: u32)..<unat (5 :: u32)} = {2, 3, 4}" by auto
  then have "Min ((!) [7, 3, 9, 4, 8] ` {unat (2 :: u32)..<unat (5 :: u32)}) = (4 :: u32)" by simp
  with rmq_query_min [of 5 "[7, 3, 9, 4, 8]" "\<lambda>t n. replicate (unat n div 4) 0" _ range_minimum_query_table_init 2 5, OF _ _ _ c refl]
  show ?thesis by simp
qed

end
