(* ===== verification/Shader_Arena.thy ===== *)
theory Shader_Arena
  imports Id_Alloc Range_Min_Query
begin

text \<open>
  The memory of shader code, \<open>src/src/amd/vulkan/radv_shader.c\<close> from \<open>get_size_class\<close> to
  \<open>radv_destroy_shader_arenas\<close>: arenas (one buffer object each) are split into blocks, the holes
  among the blocks are kept in eight free lists by size class with a mask of the non-empty ones, and
  block objects that are not in use are kept in a pool. Two free lists exist, for ordinary arenas and
  for arenas whose addresses may be captured; arenas at replayed addresses have none.

  Objects are numbered in the order they are allocated, so a pointer is a number and \<open>blocks\<close> is
  the memory of the block objects. An intrusive list is the list of its members. The field
  \<open>freelist\<close> of a block is \<open>None\<close> while it is linked (the block is a hole) and \<open>Some ptr\<close> when
  \<open>freelist.prev\<close> is null and \<open>freelist.next\<close> is \<open>ptr\<close>. The outcomes of the calls that can fail are
  inputs: the lists \<open>mallocs\<close>, \<open>bo_creates\<close> and \<open>bo_maps\<close> hold the outcomes to come, and a call
  after the end of its list succeeds. The operations run under a mutex. An operation that
  dereferences a null pointer is \<open>None\<close>.
\<close>

unbundle bit_operations_syntax

section \<open>Data\<close>

definition RADV_SHADER_ALLOC_ALIGNMENT :: u32 where
  "RADV_SHADER_ALLOC_ALIGNMENT = 256"

definition RADV_SHADER_ALLOC_MIN_ARENA_SIZE :: u32 where
  "RADV_SHADER_ALLOC_MIN_ARENA_SIZE = 256 * 1024"

definition RADV_SHADER_ALLOC_MAX_ARENA_SIZE_SHIFT :: u32 where
  "RADV_SHADER_ALLOC_MAX_ARENA_SIZE_SHIFT = 5"

definition RADV_SHADER_ALLOC_MIN_SIZE_CLASS :: u32 where
  "RADV_SHADER_ALLOC_MIN_SIZE_CLASS = 8"

definition RADV_SHADER_ALLOC_MAX_SIZE_CLASS :: u32 where
  "RADV_SHADER_ALLOC_MAX_SIZE_CLASS = 15"

definition RADV_SHADER_ALLOC_NUM_FREE_LISTS :: u32 where
  "RADV_SHADER_ALLOC_NUM_FREE_LISTS = RADV_SHADER_ALLOC_MAX_SIZE_CLASS - RADV_SHADER_ALLOC_MIN_SIZE_CLASS + 1"

datatype radv_shader_arena_type = RADV_SHADER_ARENA_DEFAULT | RADV_SHADER_ARENA_REPLAYABLE | RADV_SHADER_ARENA_REPLAYED

record radv_shader_arena_block =
  freelist :: "nat option"
  blk_arena :: nat
  blk_offset :: u32
  blk_size :: u32

record radv_shader_arena =
  entries :: "nat list"
  arena_bytes :: u32
  arena_bo :: nat
  arena_ptr :: bool
  arena_type :: radv_shader_arena_type

record radv_shader_free_list =
  size_mask :: u8
  free_lists :: "nat list list"

text \<open>What \<open>radv_bo_create\<close> was asked for.\<close>

record shader_bo =
  bo_bytes :: u32
  bo_flags :: u32
  bo_va :: u64

record shader_device =
  gfx11 :: bool
  instr_prefetch_distance :: u32
  cpdma_prefetch_writes_memory :: bool
  vram_size_kb :: u32
  shader_use_invisible_vram :: bool
  shader_arenas :: "nat list"
  capture_replay_arena_vas :: "(u64 \<times> nat) list option"
  shader_arena_shift :: u32
  shader_free_list :: radv_shader_free_list
  capture_replay_free_list :: radv_shader_free_list
  shader_block_obj_pool :: "nat list"
  blocks :: "nat \<Rightarrow> radv_shader_arena_block"
  arenas :: "nat \<rightharpoonup> radv_shader_arena"
  bos :: "nat \<rightharpoonup> shader_bo"
  fresh :: nat
  mallocs :: "bool list"
  bo_creates :: "bool list"
  bo_maps :: "bool list"

text \<open>A pointer to one of the two free lists of the device.\<close>

datatype which_list = Shader_list | Capture_list

primrec the_list :: "which_list \<Rightarrow> shader_device \<Rightarrow> radv_shader_free_list" where
  "the_list Shader_list d = shader_free_list d"
| "the_list Capture_list d = capture_replay_free_list d"

primrec put_list :: "which_list \<Rightarrow> radv_shader_free_list \<Rightarrow> shader_device \<Rightarrow> shader_device" where
  "put_list Shader_list l d = d\<lparr>shader_free_list := l\<rparr>"
| "put_list Capture_list l d = d\<lparr>capture_replay_free_list := l\<rparr>"

definition succeeds :: "bool list \<Rightarrow> bool" where
  "succeeds outcomes \<longleftrightarrow> outcomes = [] \<or> hd outcomes"

definition malloc :: "shader_device \<Rightarrow> nat option \<times> shader_device" where
  "malloc d = (if succeeds (mallocs d) then Some (fresh d) else None, d\<lparr>mallocs := tl (mallocs d), fresh := Suc (fresh d)\<rparr>)"

definition set_block :: "nat \<Rightarrow> radv_shader_arena_block \<Rightarrow> shader_device \<Rightarrow> shader_device" where
  "set_block b v d = d\<lparr>blocks := (blocks d)(b := v)\<rparr>"

definition set_entries :: "nat \<Rightarrow> (nat list \<Rightarrow> nat list) \<Rightarrow> shader_device \<Rightarrow> shader_device" where
  "set_entries a f d = d\<lparr>arenas := (arenas d)(a := map_option (\<lambda>A. A\<lparr>entries := f (entries A)\<rparr>) (arenas d a))\<rparr>"

section \<open>Holes and block objects\<close>

definition util_logbase2_ceil :: "u32 \<Rightarrow> u32" where
  "util_logbase2_ceil n = (if n \<le> 1 then 0 else 1 + util_logbase2 (n - 1))"

definition get_size_class :: "u32 \<Rightarrow> bool \<Rightarrow> u32" where
  "get_size_class sz round_up =
     (let sz = (if round_up then util_logbase2_ceil sz else util_logbase2 sz);
          size_class = max sz RADV_SHADER_ALLOC_MIN_SIZE_CLASS - RADV_SHADER_ALLOC_MIN_SIZE_CLASS
      in min size_class (RADV_SHADER_ALLOC_NUM_FREE_LISTS - 1))"

text \<open>\<open>list_del\<close> takes the hole out of the list it is in, whichever of the eight that is.\<close>

definition remove_hole :: "which_list \<Rightarrow> nat \<Rightarrow> shader_device \<Rightarrow> shader_device" where
  "remove_hole free_list hole d =
     (let size_class = unat (get_size_class (blk_size (blocks d hole)) False);
          l = the_list free_list d;
          lists = map (remove1 hole) (free_lists l);
          d = set_block hole ((blocks d hole)\<lparr>freelist := Some 0\<rparr>) d
      in put_list free_list
           (if lists ! size_class = [] then \<lparr>size_mask = size_mask l AND NOT (push_bit size_class 1), free_lists = lists\<rparr>
            else \<lparr>size_mask = size_mask l, free_lists = lists\<rparr>) d)"

definition add_hole :: "which_list \<Rightarrow> nat \<Rightarrow> shader_device \<Rightarrow> shader_device" where
  "add_hole free_list hole d =
     (let size_class = unat (get_size_class (blk_size (blocks d hole)) False);
          l = the_list free_list d;
          d = set_block hole ((blocks d hole)\<lparr>freelist := None\<rparr>) d
      in put_list free_list
           \<lparr>size_mask = size_mask l OR push_bit size_class 1,
            free_lists = (free_lists l)[size_class := free_lists l ! size_class @ [hole]]\<rparr> d)"

definition if_list :: "(which_list \<Rightarrow> nat \<Rightarrow> shader_device \<Rightarrow> shader_device) \<Rightarrow> which_list option \<Rightarrow> nat \<Rightarrow> shader_device \<Rightarrow> shader_device" where
  "if_list f free_list hole d = (case free_list of Some l \<Rightarrow> f l hole d | None \<Rightarrow> d)"

definition alloc_block_obj :: "shader_device \<Rightarrow> nat option \<times> shader_device" where
  "alloc_block_obj d =
     (case shader_block_obj_pool d of
        block # pool \<Rightarrow> (Some block, d\<lparr>shader_block_obj_pool := pool\<rparr>)
      | [] \<Rightarrow> malloc d)"

text \<open>The links of the pool and of the list of an arena are the same memory: the block leaves its arena.\<close>

definition free_block_obj :: "nat \<Rightarrow> shader_device \<Rightarrow> shader_device" where
  "free_block_obj block d =
     (let d = set_entries (blk_arena (blocks d block)) (remove1 block) d
      in d\<lparr>shader_block_obj_pool := block # shader_block_obj_pool d\<rparr>)"

text \<open>\<open>wait\<close> is the call of \<open>WaitSemaphores\<close> of the dispatch table for the upload semaphore.\<close>

definition radv_shader_wait_for_upload :: "(u64 \<Rightarrow> VkResult) \<Rightarrow> u64 \<Rightarrow> VkResult" where
  "radv_shader_wait_for_upload wait seq = (if seq = 0 then VK_SUCCESS else wait seq)"

section \<open>Arenas\<close>

definition RADEON_FLAG_GTT_WC :: u32 where "RADEON_FLAG_GTT_WC = push_bit 0 1"
definition RADEON_FLAG_NO_CPU_ACCESS :: u32 where "RADEON_FLAG_NO_CPU_ACCESS = push_bit 2 1"
definition RADEON_FLAG_NO_INTERPROCESS_SHARING :: u32 where "RADEON_FLAG_NO_INTERPROCESS_SHARING = push_bit 6 1"
definition RADEON_FLAG_READ_ONLY :: u32 where "RADEON_FLAG_READ_ONLY = push_bit 7 1"
definition RADEON_FLAG_32BIT :: u32 where "RADEON_FLAG_32BIT = push_bit 8 1"
definition RADEON_FLAG_PREFER_LOCAL_BO :: u32 where "RADEON_FLAG_PREFER_LOCAL_BO = push_bit 9 1"
definition RADEON_FLAG_REPLAYABLE :: u32 where "RADEON_FLAG_REPLAYABLE = push_bit 10 1"

definition arena_bo_flags :: "shader_device \<Rightarrow> bool \<Rightarrow> u32" where
  "arena_bo_flags d replayable =
     (let flags = RADEON_FLAG_NO_INTERPROCESS_SHARING OR RADEON_FLAG_32BIT OR RADEON_FLAG_PREFER_LOCAL_BO;
          flags =
            (if shader_use_invisible_vram d then flags OR RADEON_FLAG_NO_CPU_ACCESS
             else
               let flags = flags OR (if cpdma_prefetch_writes_memory d then 0 else RADEON_FLAG_READ_ONLY)
               in if vram_size_kb d = 0 then flags OR RADEON_FLAG_GTT_WC else flags)
      in if replayable then flags OR RADEON_FLAG_REPLAYABLE else flags)"

definition new_arena_size :: "shader_device \<Rightarrow> u32 \<Rightarrow> u32 \<Rightarrow> u32" where
  "new_arena_size d min_size arena_size =
     (if arena_size = 0
      then max (push_bit (unat (min RADV_SHADER_ALLOC_MAX_ARENA_SIZE_SHIFT (shader_arena_shift d))) RADV_SHADER_ALLOC_MIN_ARENA_SIZE)
             min_size
      else arena_size)"

definition new_arena_type :: "bool \<Rightarrow> u64 \<Rightarrow> radv_shader_arena_type" where
  "new_arena_type replayable va =
     (if va \<noteq> 0 then RADV_SHADER_ARENA_REPLAYED else if replayable then RADV_SHADER_ARENA_REPLAYABLE else RADV_SHADER_ARENA_DEFAULT)"

text \<open>\<open>radv_bo_create\<close> for an internal object, which gets no flags beside those given, and \<open>radv_bo_destroy\<close>; the
  winsys makes the object or fails. Memory profiling and address binding reports are output.\<close>

definition radv_bo_create :: "u32 \<Rightarrow> u32 \<Rightarrow> u64 \<Rightarrow> shader_device \<Rightarrow> nat option \<times> shader_device" where
  "radv_bo_create sz flags replay_va d =
     (let d' = d\<lparr>bo_creates := tl (bo_creates d), fresh := Suc (fresh d)\<rparr>
      in if succeeds (bo_creates d)
         then (Some (fresh d), d'\<lparr>bos := (bos d)(fresh d \<mapsto> \<lparr>bo_bytes = sz, bo_flags = flags, bo_va = replay_va\<rparr>)\<rparr>)
         else (None, d'))"

definition radv_bo_destroy :: "nat \<Rightarrow> shader_device \<Rightarrow> shader_device" where
  "radv_bo_destroy bo d = d\<lparr>bos := (bos d)(bo := None)\<rparr>"

text \<open>The label \<open>fail\<close>: the block, then the buffer object, then the arena.\<close>

definition arena_fail :: "nat \<Rightarrow> nat option \<Rightarrow> nat option \<Rightarrow> shader_device \<Rightarrow> nat option \<times> shader_device" where
  "arena_fail arena bo alloc d =
     (let d = (case alloc of Some b \<Rightarrow> free_block_obj b d | None \<Rightarrow> d);
          d = (case bo of Some bo \<Rightarrow> radv_bo_destroy bo d | None \<Rightarrow> d)
      in (None, d\<lparr>arenas := (arenas d)(arena := None)\<rparr>))"

definition radv_create_shader_arena ::
  "which_list option \<Rightarrow> u32 \<Rightarrow> u32 \<Rightarrow> bool \<Rightarrow> u64 \<Rightarrow> shader_device \<Rightarrow> nat option \<times> shader_device" where
  "radv_create_shader_arena free_list min_size arena_size replayable replay_va d =
     (case malloc d of
        (None, d) \<Rightarrow> (None, d)
      | (Some arena, d) \<Rightarrow>
          let sz = new_arena_size d min_size arena_size;
              flags = arena_bo_flags d replayable
          in case radv_bo_create sz flags replay_va d of
               (None, d) \<Rightarrow> arena_fail arena None None d
             | (Some bo, d) \<Rightarrow>
                 case alloc_block_obj d of
                   (None, d) \<Rightarrow> arena_fail arena (Some bo) None d
                 | (Some alloc, d) \<Rightarrow>
                     let d = set_block alloc \<lparr>freelist = None, blk_arena = arena, blk_offset = 0, blk_size = sz\<rparr> d;
                         A = \<lparr>entries = [alloc], arena_bytes = sz, arena_bo = bo, arena_ptr = False,
                                arena_type = new_arena_type replayable replay_va\<rparr>;
                         d = d\<lparr>arenas := (arenas d)(arena \<mapsto> A)\<rparr>;
                         d = if_list add_hole free_list alloc d
                     in if flags AND RADEON_FLAG_NO_CPU_ACCESS = 0
                        then if succeeds (bo_maps d)
                             then (Some arena, d\<lparr>bo_maps := tl (bo_maps d), arenas := (arenas d)(arena \<mapsto> A\<lparr>arena_ptr := True\<rparr>)\<rparr>)
                             else arena_fail arena (Some bo) (Some alloc) (d\<lparr>bo_maps := tl (bo_maps d)\<rparr>)
                        else (Some arena, d))"

section \<open>Allocating\<close>

fun insert_before :: "nat \<Rightarrow> nat \<Rightarrow> nat list \<Rightarrow> nat list" where
  "insert_before new at [] = []"
| "insert_before new at (x # xs) = (if x = at then new # x # xs else x # insert_before new at xs)"

fun insert_after :: "nat \<Rightarrow> nat \<Rightarrow> nat list \<Rightarrow> nat list" where
  "insert_after new at [] = []"
| "insert_after new at (x # xs) = (if x = at then x # new # xs else x # insert_after new at xs)"

text \<open>The end of \<open>insert_block\<close>, after the objects for the holes have been made.\<close>

definition insert_link :: "nat \<Rightarrow> nat option \<Rightarrow> nat option \<Rightarrow> which_list option \<Rightarrow> shader_device \<Rightarrow> shader_device" where
  "insert_link hole left_hole right_hole free_list d =
     (let d = (case left_hole of
                 None \<Rightarrow> d
               | Some left \<Rightarrow>
                   let h = blocks d hole; ls = blk_size (blocks d left);
                       d = set_block hole (h\<lparr>blk_offset := blk_offset h + ls, blk_size := blk_size h - ls\<rparr>) d
                   in set_entries (blk_arena h) (insert_before left hole) d);
          d = (case right_hole of
                 None \<Rightarrow> d
               | Some right \<Rightarrow>
                   let h = blocks d hole;
                       d = set_block hole (h\<lparr>blk_size := blk_size h - blk_size (blocks d right)\<rparr>) d
                   in set_entries (blk_arena h) (insert_after right hole) d)
      in if_list remove_hole free_list hole d)"

text \<open>The hole to the right, when the block does not reach the end of the hole.\<close>

definition insert_right :: "nat \<Rightarrow> u32 \<Rightarrow> u32 \<Rightarrow> which_list option \<Rightarrow> shader_device \<Rightarrow> nat option option \<times> shader_device" where
  "insert_right hole offset_in_hole sz free_list d =
     (let h = blocks d hole;
          hole_begin = blk_offset h;
          hole_end = blk_offset h + blk_size h
      in if blk_size h > offset_in_hole + sz
         then case alloc_block_obj d of
                (None, d) \<Rightarrow> (None, d)
              | (Some right, d) \<Rightarrow>
                  let start = hole_begin + offset_in_hole + sz;
                      d = set_block right \<lparr>freelist = None, blk_arena = blk_arena h, blk_offset = start, blk_size = hole_end - start\<rparr> d
                  in (Some (Some right), if_list add_hole free_list right d)
         else (Some None, d))"

definition insert_left :: "nat \<Rightarrow> u32 \<Rightarrow> which_list option \<Rightarrow> shader_device \<Rightarrow> nat option option \<times> shader_device" where
  "insert_left hole offset_in_hole free_list d =
     (if offset_in_hole \<noteq> 0
      then case alloc_block_obj d of
             (None, d) \<Rightarrow> (None, d)
           | (Some left, d) \<Rightarrow>
               let h = blocks d hole;
                   d = set_block left \<lparr>freelist = None, blk_arena = blk_arena h, blk_offset = blk_offset h, blk_size = offset_in_hole\<rparr> d
               in (Some (Some left), if_list add_hole free_list left d)
      else (Some None, d))"

text \<open>A failure to make the right hole frees the object of the left hole, which leaves no trace in
  the lists of the device.\<close>

definition insert_block :: "nat \<Rightarrow> u32 \<Rightarrow> u32 \<Rightarrow> which_list option \<Rightarrow> shader_device \<Rightarrow> nat option \<times> shader_device" where
  "insert_block hole offset_in_hole sz free_list d =
     (case insert_left hole offset_in_hole free_list d of
        (None, d) \<Rightarrow> (None, d)
      | (Some left_hole, d) \<Rightarrow>
          case insert_right hole offset_in_hole sz free_list d of
            (None, d) \<Rightarrow> (None, d)
          | (Some right_hole, d) \<Rightarrow> (Some hole, insert_link hole left_hole right_hole free_list d))"

definition ac_align_shader_binary_for_prefetch :: "bool \<Rightarrow> u32 \<Rightarrow> u32 \<Rightarrow> u32" where
  "ac_align_shader_binary_for_prefetch ge_gfx11 prefetch_distance sz =
     (if prefetch_distance \<noteq> 0
      then if ge_gfx11 then align32 (sz + prefetch_distance * 64) 128 else align32 (sz + prefetch_distance * 64) 64
      else sz)"

definition shader_alloc_size :: "shader_device \<Rightarrow> u32 \<Rightarrow> u32" where
  "shader_alloc_size d sz =
     align32 (ac_align_shader_binary_for_prefetch (gfx11 d) (instr_prefetch_distance d) sz) RADV_SHADER_ALLOC_ALIGNMENT"

text \<open>The loop over the free list: the first hole of the lowest non-empty class from the class of the
  size upwards that is large enough.\<close>

definition find_hole :: "which_list \<Rightarrow> u32 \<Rightarrow> shader_device \<Rightarrow> nat option" where
  "find_hole free_list sz d =
     (let free_list_mask = BITFIELD_MASK (unat RADV_SHADER_ALLOC_NUM_FREE_LISTS);
          l = the_list free_list d;
          size_class = ffs (ucast (size_mask l) AND push_bit (unat (get_size_class sz True)) free_list_mask)
      in if size_class \<noteq> 0
         then find (\<lambda>hole. \<not> blk_size (blocks d hole) < sz) (free_lists l ! (size_class - 1))
         else None)"

definition use_hole :: "which_list \<Rightarrow> u32 \<Rightarrow> nat \<Rightarrow> nat \<Rightarrow> shader_device \<Rightarrow> nat option \<times> shader_device" where
  "use_hole free_list sz ptr hole d =
     (if sz = blk_size (blocks d hole)
      then let d = remove_hole free_list hole d
           in (Some hole, set_block hole ((blocks d hole)\<lparr>freelist := Some ptr\<rparr>) d)
      else case alloc_block_obj d of
             (None, d) \<Rightarrow> (None, d)
           | (Some alloc, d) \<Rightarrow>
               let h = blocks d hole;
                   d = set_entries (blk_arena h) (insert_before alloc hole) d;
                   d = set_block alloc \<lparr>freelist = Some ptr, blk_arena = blk_arena h, blk_offset = blk_offset h, blk_size = sz\<rparr> d;
                   d = remove_hole free_list hole d;
                   h = blocks d hole;
                   d = set_block hole (h\<lparr>blk_offset := blk_offset h + sz, blk_size := blk_size h - sz\<rparr>) d
               in (Some alloc, add_hole free_list hole d))"

text \<open>A null pointer from \<open>insert_block\<close> is dereferenced.\<close>

definition use_new_arena :: "which_list \<Rightarrow> u32 \<Rightarrow> bool \<Rightarrow> nat \<Rightarrow> shader_device \<Rightarrow> (nat option \<times> shader_device) option" where
  "use_new_arena free_list sz replayable ptr d =
     (case radv_create_shader_arena (Some free_list) sz 0 replayable 0 d of
        (None, d) \<Rightarrow> Some (None, d)
      | (Some arena, d) \<Rightarrow>
          case insert_block (hd (entries (the (arenas d arena)))) 0 sz (Some free_list) d of
            (None, d) \<Rightarrow> None
          | (Some alloc, d) \<Rightarrow>
              let d = set_block alloc ((blocks d alloc)\<lparr>freelist := Some ptr\<rparr>) d
              in Some (Some alloc, d\<lparr>shader_arena_shift := shader_arena_shift d + 1, shader_arenas := shader_arenas d @ [arena]\<rparr>))"

definition radv_alloc_shader_memory :: "u32 \<Rightarrow> bool \<Rightarrow> nat \<Rightarrow> shader_device \<Rightarrow> (nat option \<times> shader_device) option" where
  "radv_alloc_shader_memory sz replayable ptr d =
     (let sz = shader_alloc_size d sz;
          free_list = (if replayable then Capture_list else Shader_list)
      in case find_hole free_list sz d of
           Some hole \<Rightarrow> Some (use_hole free_list sz ptr hole d)
         | None \<Rightarrow> use_new_arena free_list sz replayable ptr d)"

section \<open>Freeing\<close>

text \<open>The neighbours of a block in the list of its arena; none at the head of the list.\<close>

fun next_entry :: "nat \<Rightarrow> nat list \<Rightarrow> nat option" where
  "next_entry b (x # y # xs) = (if x = b then Some y else next_entry b (y # xs))"
| "next_entry b xs = None"

fun prev_entry :: "nat \<Rightarrow> nat list \<Rightarrow> nat option" where
  "prev_entry b (x # y # xs) = (if y = b then Some x else prev_entry b (y # xs))"
| "prev_entry b xs = None"

definition get_hole :: "nat option \<Rightarrow> shader_device \<Rightarrow> nat option" where
  "get_hole neighbour d =
     (case neighbour of
        None \<Rightarrow> None
      | Some hole \<Rightarrow> if freelist (blocks d hole) = None then Some hole else None)"

definition list_of_type :: "radv_shader_arena_type \<Rightarrow> which_list option" where
  "list_of_type ty =
     (case ty of
        RADV_SHADER_ARENA_DEFAULT \<Rightarrow> Some Shader_list
      | RADV_SHADER_ARENA_REPLAYABLE \<Rightarrow> Some Capture_list
      | RADV_SHADER_ARENA_REPLAYED \<Rightarrow> None)"

definition merge_prev :: "which_list option \<Rightarrow> nat option \<Rightarrow> nat \<Rightarrow> shader_device \<Rightarrow> nat \<times> shader_device" where
  "merge_prev free_list hole_prev hole d =
     (case hole_prev of
        None \<Rightarrow> (hole, d)
      | Some p \<Rightarrow>
          let d = if_list remove_hole free_list p d;
              d = set_block p ((blocks d p)\<lparr>blk_size := blk_size (blocks d p) + blk_size (blocks d hole)\<rparr>) d
          in (p, free_block_obj hole d))"

definition merge_next :: "which_list option \<Rightarrow> nat option \<Rightarrow> nat \<Rightarrow> shader_device \<Rightarrow> nat \<times> shader_device" where
  "merge_next free_list hole_next hole d =
     (case hole_next of
        None \<Rightarrow> (hole, d)
      | Some n \<Rightarrow>
          let d = if_list remove_hole free_list n d;
              v = blocks d n; s = blk_size (blocks d hole);
              d = set_block n (v\<lparr>blk_offset := blk_offset v - s, blk_size := blk_size v + s\<rparr>) d
          in (n, free_block_obj hole d))"

fun remove_first_value :: "nat \<Rightarrow> (u64 \<times> nat) list \<Rightarrow> (u64 \<times> nat) list" where
  "remove_first_value a [] = []"
| "remove_first_value a ((va, x) # table) = (if x = a then table else (va, x) # remove_first_value a table)"

definition destroy_arena :: "nat \<Rightarrow> shader_device \<Rightarrow> shader_device" where
  "destroy_arena arena d =
     (let d = radv_bo_destroy (arena_bo (the (arenas d arena))) d;
          d = d\<lparr>shader_arenas := remove1 arena (shader_arenas d),
                 capture_replay_arena_vas := map_option (remove_first_value arena) (capture_replay_arena_vas d)\<rparr>
      in d\<lparr>arenas := (arenas d)(arena := None)\<rparr>)"

definition radv_free_shader_memory :: "nat option \<Rightarrow> shader_device \<Rightarrow> shader_device" where
  "radv_free_shader_memory alloc d =
     (case alloc of
        None \<Rightarrow> d
      | Some alloc \<Rightarrow>
          let arena = blk_arena (blocks d alloc);
              A = the (arenas d arena);
              hole_prev = get_hole (prev_entry alloc (entries A)) d;
              hole_next = get_hole (next_entry alloc (entries A)) d;
              free_list = list_of_type (arena_type A);
              (hole, d) = merge_prev free_list hole_prev alloc d;
              (hole, d) = merge_next free_list hole_next hole d
          in if entries (the (arenas d arena)) = [hole]
             then destroy_arena arena (free_block_obj hole d)
             else case free_list of
                    Some l \<Rightarrow> add_hole l hole d
                  | None \<Rightarrow> set_block hole ((blocks d hole)\<lparr>freelist := None\<rparr>) d)"

section \<open>Replaying\<close>

record radv_serialized_shader_arena_block =
  src_offset :: u32
  src_size :: u32
  src_arena_va :: u64
  src_arena_size :: u32

text \<open>The loop over the blocks of the arena.\<close>

fun replay_loop :: "radv_serialized_shader_arena_block \<Rightarrow> nat \<Rightarrow> shader_device \<Rightarrow> nat list \<Rightarrow> nat option \<times> shader_device" where
  "replay_loop src ptr d [] = (None, d)"
| "replay_loop src ptr d (hole # rest) =
     (let block_begin = src_offset src;
          block_end = src_offset src + src_size src;
          h = blocks d hole;
          hole_begin = blk_offset h;
          hole_end = blk_offset h + blk_size h
      in if freelist h \<noteq> None then replay_loop src ptr d rest
         else if hole_end < block_end then replay_loop src ptr d rest
         else if hole_begin > block_begin then (None, d)
         else case insert_block hole (block_begin - hole_begin) (src_size src) None d of
                (None, d) \<Rightarrow> (None, d)
              | (Some block, d) \<Rightarrow> (Some hole, set_block block ((blocks d block)\<lparr>freelist := Some ptr\<rparr>) d))"

definition radv_replay_shader_arena_block ::
  "radv_serialized_shader_arena_block \<Rightarrow> nat \<Rightarrow> shader_device \<Rightarrow> (nat option \<times> shader_device) option" where
  "radv_replay_shader_arena_block src ptr d =
     (case capture_replay_arena_vas d of
        None \<Rightarrow> None
      | Some table \<Rightarrow>
          Some (case map_of table (src_arena_va src) of
                  Some arena \<Rightarrow> replay_loop src ptr d (entries (the (arenas d arena)))
                | None \<Rightarrow>
                    case radv_create_shader_arena None 0 (src_arena_size src) True (src_arena_va src) d of
                      (None, d) \<Rightarrow> (None, d)
                    | (Some arena, d) \<Rightarrow>
                        let d = d\<lparr>capture_replay_arena_vas := Some ((src_arena_va src, arena) # table),
                                  shader_arenas := shader_arenas d @ [arena]\<rparr>
                        in replay_loop src ptr d (entries (the (arenas d arena)))))"

section \<open>Device setup\<close>

definition radv_init_shader_arenas :: "shader_device \<Rightarrow> shader_device" where
  "radv_init_shader_arenas d =
     (let empty_list = \<lparr>size_mask = 0, free_lists = replicate (unat RADV_SHADER_ALLOC_NUM_FREE_LISTS) []\<rparr>
      in d\<lparr>shader_free_list := empty_list, capture_replay_free_list := empty_list,
           shader_arenas := [], shader_block_obj_pool := []\<rparr>)"

definition radv_destroy_shader_arenas :: "shader_device \<Rightarrow> shader_device" where
  "radv_destroy_shader_arenas d =
     (let d = d\<lparr>shader_block_obj_pool := []\<rparr>
      in fold (\<lambda>arena d. (radv_bo_destroy (arena_bo (the (arenas d arena))) d)\<lparr>arenas := (arenas d)(arena := None)\<rparr>)
           (shader_arenas d) d)"

section \<open>What the small steps change\<close>

definition fl_remove :: "nat \<Rightarrow> nat \<Rightarrow> radv_shader_free_list \<Rightarrow> radv_shader_free_list" where
  "fl_remove c b l =
     (let lists = map (remove1 b) (free_lists l)
      in \<lparr>size_mask = (if lists ! c = [] then size_mask l AND NOT (push_bit c 1) else size_mask l), free_lists = lists\<rparr>)"

definition fl_add :: "nat \<Rightarrow> nat \<Rightarrow> radv_shader_free_list \<Rightarrow> radv_shader_free_list" where
  "fl_add c b l =
     \<lparr>size_mask = size_mask l OR push_bit c 1, free_lists = (free_lists l)[c := free_lists l ! c @ [b]]\<rparr>"

abbreviation cls :: "u32 \<Rightarrow> nat" where
  "cls sz \<equiv> unat (get_size_class sz False)"

text \<open>The part of the device that the small steps on blocks and lists leave alone.\<close>

definition frame :: "shader_device \<Rightarrow> nat list \<times> (u64 \<times> nat) list option \<times> (nat \<rightharpoonup> shader_bo) \<times> bool list" where
  "frame d = (shader_arenas d, capture_replay_arena_vas d, bos d, bo_maps d)"

definition tables :: "shader_device \<Rightarrow> nat list \<times> (u64 \<times> nat) list option \<times> (nat \<rightharpoonup> shader_bo)" where
  "tables d = (shader_arenas d, capture_replay_arena_vas d, bos d)"

lemma frame_tables: "frame d' = frame d \<Longrightarrow> tables d' = tables d"
  by (simp add: frame_def tables_def)

lemma the_put_list [simp]: "the_list k (put_list k' l d) = (if k = k' then l else the_list k d)"
  by (cases k; cases k') simp_all

lemma put_list_fields [simp]:
  "blocks (put_list k l d) = blocks d" "arenas (put_list k l d) = arenas d" "frame (put_list k l d) = frame d" "fresh (put_list k l d) = fresh d"
  "shader_block_obj_pool (put_list k l d) = shader_block_obj_pool d" "mallocs (put_list k l d) = mallocs d"
  by (cases k; simp add: frame_def)+

lemma set_block_fields [simp]:
  "blocks (set_block b v d) = (blocks d)(b := v)" "arenas (set_block b v d) = arenas d" "frame (set_block b v d) = frame d" "fresh (set_block b v d) = fresh d"
  "shader_block_obj_pool (set_block b v d) = shader_block_obj_pool d" "the_list k (set_block b v d) = the_list k d"
  "mallocs (set_block b v d) = mallocs d"
  by (cases k; simp add: set_block_def frame_def)+

lemma set_entries_fields [simp]:
  "blocks (set_entries a f d) = blocks d"
  "arenas (set_entries a f d) = (arenas d)(a := map_option (\<lambda>A. A\<lparr>entries := f (entries A)\<rparr>) (arenas d a))"
  "frame (set_entries a f d) = frame d" "fresh (set_entries a f d) = fresh d" "mallocs (set_entries a f d) = mallocs d"
  "shader_block_obj_pool (set_entries a f d) = shader_block_obj_pool d" "the_list k (set_entries a f d) = the_list k d"
  by (cases k; simp add: set_entries_def frame_def)+

lemma remove_hole_fields [simp]:
  "blocks (remove_hole k b d) = (blocks d)(b := (blocks d b)\<lparr>freelist := Some 0\<rparr>)"
  "arenas (remove_hole k b d) = arenas d" "frame (remove_hole k b d) = frame d" "fresh (remove_hole k b d) = fresh d" "mallocs (remove_hole k b d) = mallocs d"
  "shader_block_obj_pool (remove_hole k b d) = shader_block_obj_pool d"
  "the_list k' (remove_hole k b d) = (if k' = k then fl_remove (cls (blk_size (blocks d b))) b (the_list k d) else the_list k' d)"
  by (simp_all add: remove_hole_def fl_remove_def Let_def)

lemma add_hole_fields [simp]:
  "blocks (add_hole k b d) = (blocks d)(b := (blocks d b)\<lparr>freelist := None\<rparr>)"
  "arenas (add_hole k b d) = arenas d" "frame (add_hole k b d) = frame d" "fresh (add_hole k b d) = fresh d" "mallocs (add_hole k b d) = mallocs d"
  "shader_block_obj_pool (add_hole k b d) = shader_block_obj_pool d"
  "the_list k' (add_hole k b d) = (if k' = k then fl_add (cls (blk_size (blocks d b))) b (the_list k d) else the_list k' d)"
  by (simp_all add: add_hole_def fl_add_def Let_def)

lemma free_block_obj_fields [simp]:
  "blocks (free_block_obj b d) = blocks d" "frame (free_block_obj b d) = frame d" "fresh (free_block_obj b d) = fresh d" "mallocs (free_block_obj b d) = mallocs d"
  "arenas (free_block_obj b d) = (arenas d)(blk_arena (blocks d b) :=
     map_option (\<lambda>A. A\<lparr>entries := remove1 b (entries A)\<rparr>) (arenas d (blk_arena (blocks d b))))"
  "shader_block_obj_pool (free_block_obj b d) = b # shader_block_obj_pool d" "the_list k (free_block_obj b d) = the_list k d"
  by (cases k; simp add: free_block_obj_def frame_def set_entries_def Let_def)+

lemma frameD:
  "frame d' = frame d \<Longrightarrow> shader_arenas d' = shader_arenas d" "frame d' = frame d \<Longrightarrow> bos d' = bos d"
  "frame d' = frame d \<Longrightarrow> capture_replay_arena_vas d' = capture_replay_arena_vas d" "frame d' = frame d \<Longrightarrow> bo_maps d' = bo_maps d"
  by (simp_all add: frame_def)

lemmas frame_steps [simp] =
  frameD [OF put_list_fields(3)] frameD [OF set_block_fields(3)] frameD [OF set_entries_fields(3)]
  frameD [OF remove_hole_fields(3)] frameD [OF add_hole_fields(3)] frameD [OF free_block_obj_fields(2)]

section \<open>Size classes\<close>

lemma get_size_class_nat:
  "unat (get_size_class sz r) = min (unat (if r then util_logbase2_ceil sz else util_logbase2 sz) - 8) 7"
proof -
  have m: "unat (max x y) = max (unat x) (unat y)" "unat (min x y) = min (unat x) (unat y)" for x y :: u32
    by (simp_all add: max_def min_def word_le_nat_alt)
  have "unat (max x 8 - 8) = unat x - 8" for x :: u32
    using m(1) [of x 8] by (subst unat_sub_no_wrap) (auto simp: max_def)
  then show ?thesis
    by (simp add: get_size_class_def Let_def m RADV_SHADER_ALLOC_MIN_SIZE_CLASS_def RADV_SHADER_ALLOC_NUM_FREE_LISTS_def
        RADV_SHADER_ALLOC_MAX_SIZE_CLASS_def)
qed

lemma cls_less [simp]: "cls sz < 8" "cls sz \<le> 7"
  by (simp_all add: get_size_class_nat)

lemma pow2_lessD: "(2 :: nat) ^ a < 2 ^ b \<Longrightarrow> a < b"
  by simp

lemma cls_large:
  assumes "32768 \<le> unat sz"
  shows "cls sz = 7"
proof -
  have "sz \<noteq> 0" using assms by auto
  from logbase2_top [OF this] have "unat sz < 2 ^ (unat (util_logbase2 sz) + 1)" by (simp add: top_bit_def)
  then have "(2::nat) ^ 15 < 2 ^ (unat (util_logbase2 sz) + 1)" using assms by simp
  from pow2_lessD [OF this] have "15 \<le> unat (util_logbase2 sz)" by simp
  then show ?thesis by (simp add: get_size_class_nat)
qed

text \<open>A hole whose class is at least the rounded-up class of a size is large enough, except in the last class.\<close>

lemma logbase2_ceil_pow:
  assumes "1 < unat sz"
  shows "unat sz \<le> 2 ^ unat (util_logbase2_ceil sz)" "unat (util_logbase2_ceil sz) = unat (util_logbase2 (sz - 1)) + 1"
proof -
  have s: "unat (sz - 1) = unat sz - 1" using assms by (subst unat_sub_no_wrap) simp_all
  then have "sz - 1 \<noteq> 0" using assms by (metis unat_0 zero_less_diff less_irrefl)
  from logbase2_top [OF this] have t: "2 ^ unat (util_logbase2 (sz - 1)) \<le> unat sz - 1" "unat sz - 1 < 2 ^ (unat (util_logbase2 (sz - 1)) + 1)"
    by (simp_all add: top_bit_def s)
  have "(2::nat) ^ unat (util_logbase2 (sz - 1)) < 2 ^ 32" using t(1) unat_bound [of sz] by simp
  from pow2_lessD [OF this] have "unat (util_logbase2 (sz - 1)) < 32" .
  moreover have "\<not> sz \<le> 1" using assms by (simp add: word_le_nat_alt)
  ultimately show c: "unat (util_logbase2_ceil sz) = unat (util_logbase2 (sz - 1)) + 1"
    using unat_add_no_wrap [of 1 "util_logbase2 (sz - 1)"] by (simp add: util_logbase2_ceil_def)
  show "unat sz \<le> 2 ^ unat (util_logbase2_ceil sz)" using t(2) unfolding c by linarith
qed

lemma class_fits:
  assumes "unat (get_size_class sz True) \<le> cls hsz" "unat sz \<le> 32768" "256 \<le> unat hsz"
  shows "unat sz \<le> unat hsz"
proof (cases "1 < unat sz")
  case True
  let ?c = "unat (util_logbase2_ceil sz)" and ?h = "unat (util_logbase2 hsz)"
  have "hsz \<noteq> 0" using assms(3) by auto
  then have h: "2 ^ ?h \<le> unat hsz" "unat hsz < 2 ^ (?h + 1)" using logbase2_top [of hsz] by (simp_all add: top_bit_def)
  have "(2::nat) ^ 8 < 2 ^ (?h + 1)" using h(2) assms(3) by simp
  from pow2_lessD [OF this] have h8: "8 \<le> ?h" by simp
  have l: "2 ^ unat (util_logbase2 (sz - 1)) \<le> unat sz - 1"
  proof -
    have s: "unat (sz - 1) = unat sz - 1" using True by (subst unat_sub_no_wrap) simp_all
    then have "sz - 1 \<noteq> 0" using True by (metis unat_0 zero_less_diff less_irrefl)
    from logbase2_top [OF this] show ?thesis by (simp add: top_bit_def s)
  qed
  then have "(2::nat) ^ unat (util_logbase2 (sz - 1)) < 2 ^ 15" using assms(2) True by simp
  from pow2_lessD [OF this] have "?c \<le> 15" unfolding logbase2_ceil_pow(2) [OF True] by simp
  then have "?c \<le> ?h \<or> ?c \<le> 8" using assms(1) h8 by (auto simp: get_size_class_nat min_def split: if_splits)
  then have "?c \<le> ?h" using h8 by linarith
  then have "(2::nat) ^ ?c \<le> 2 ^ ?h" by (intro power_increasing) simp_all
  then show ?thesis using logbase2_ceil_pow(1) [OF True] h(1) by linarith
qed (use assms(3) in linarith)

section \<open>Well-formed arenas\<close>

abbreviation is_hole :: "radv_shader_arena_block \<Rightarrow> bool" where
  "is_hole v \<equiv> freelist v = None"

text \<open>The blocks follow each other without gaps from \<open>s\<close> to \<open>e\<close>.\<close>

primrec tiles :: "(nat \<Rightarrow> radv_shader_arena_block) \<Rightarrow> nat \<Rightarrow> nat list \<Rightarrow> nat \<Rightarrow> bool" where
  "tiles B s [] e \<longleftrightarrow> s = e"
| "tiles B s (b # bs) e \<longleftrightarrow> unat (blk_offset (B b)) = s \<and> blk_size (B b) \<noteq> 0 \<and> tiles B (s + unat (blk_size (B b))) bs e"

text \<open>The blocks of arena \<open>a\<close>: no two holes are neighbours, and in the arenas that are allocated from by
  size every size is a multiple of the alignment.\<close>

definition blocks_ok :: "(nat \<Rightarrow> radv_shader_arena_block) \<Rightarrow> nat \<Rightarrow> radv_shader_arena_type \<Rightarrow> nat list \<Rightarrow> nat \<Rightarrow> bool" where
  "blocks_ok B a ty xs e \<longleftrightarrow>
     distinct xs \<and> tiles B 0 xs e \<and> successively (\<lambda>x y. \<not> (is_hole (B x) \<and> is_hole (B y))) xs \<and>
     (\<forall>b\<in>set xs. blk_arena (B b) = a \<and> (ty \<noteq> RADV_SHADER_ARENA_REPLAYED \<longrightarrow> 256 dvd unat (blk_size (B b))))"

definition arena_ok :: "(nat \<Rightarrow> radv_shader_arena_block) \<Rightarrow> nat \<Rightarrow> radv_shader_arena \<Rightarrow> bool" where
  "arena_ok B a A \<longleftrightarrow>
     blocks_ok B a (arena_type A) (entries A) (unat (arena_bytes A)) \<and>
     (arena_type A \<noteq> RADV_SHADER_ARENA_REPLAYED \<longrightarrow> (\<exists>b\<in>set (entries A). \<not> is_hole (B b)))"

lemma tiles_append: "tiles B s (xs @ ys) e \<longleftrightarrow> (\<exists>m. tiles B s xs m \<and> tiles B m ys e)"
  by (induction xs arbitrary: s) simp_all

lemma tiles_cong: "\<forall>b\<in>set xs. B' b = B b \<Longrightarrow> tiles B' s xs e = tiles B s xs e"
  by (induction xs arbitrary: s) simp_all

lemma tiles_le: "tiles B s xs e \<Longrightarrow> s \<le> e"
  by (induction xs arbitrary: s) (simp_all, force)

lemma tiles_unique: "tiles B s xs e \<Longrightarrow> tiles B s xs e' \<Longrightarrow> e = e'" "tiles B s xs e \<Longrightarrow> tiles B s' xs e \<Longrightarrow> s = s'"
  by (induction xs arbitrary: s s') auto

lemma tiles_bounds:
  "tiles B s xs e \<Longrightarrow> b \<in> set xs \<Longrightarrow> s \<le> unat (blk_offset (B b)) \<and> unat (blk_offset (B b)) + unat (blk_size (B b)) \<le> e \<and> blk_size (B b) \<noteq> 0"
proof (induction xs arbitrary: s)
  case (Cons x xs)
  then show ?case using tiles_le [of B "s + unat (blk_size (B x))" xs e] by (cases "b = x") force+
qed simp

lemma tiles_disjoint:
  assumes "tiles B s xs e" "b \<in> set xs" "c \<in> set xs" "b \<noteq> c"
  shows "unat (blk_offset (B b)) + unat (blk_size (B b)) \<le> unat (blk_offset (B c)) \<or>
    unat (blk_offset (B c)) + unat (blk_size (B c)) \<le> unat (blk_offset (B b))"
  using assms
proof (induction xs arbitrary: s)
  case (Cons x xs)
  have t: "tiles B (s + unat (blk_size (B x))) xs e" "unat (blk_offset (B x)) = s" using Cons.prems(1) by simp_all
  show ?case
  proof (cases "b = x \<or> c = x")
    case True
    then show ?thesis using Cons.prems tiles_bounds [OF t(1)] t(2) by fastforce
  next
    case False
    then show ?thesis using Cons.IH [OF t(1)] Cons.prems by simp
  qed
qed simp

lemma blocks_ok_cong:
  assumes "\<forall>b\<in>set xs. B' b = B b"
  shows "blocks_ok B' a ty xs e = blocks_ok B a ty xs e"
proof -
  have "successively (\<lambda>x y. \<not> (is_hole (B' x) \<and> is_hole (B' y))) xs = successively (\<lambda>x y. \<not> (is_hole (B x) \<and> is_hole (B y))) xs"
    using assms by (intro successively_cong) simp_all
  then show ?thesis using assms tiles_cong [OF assms] by (simp add: blocks_ok_def)
qed

lemma arena_ok_cong: "\<forall>b\<in>set (entries A). B' b = B b \<Longrightarrow> arena_ok B' a A = arena_ok B a A"
  using blocks_ok_cong [of "entries A" B' B] by (auto simp: arena_ok_def)

text \<open>The blocks \<open>zs\<close> in the middle are replaced.\<close>

lemma blocks_ok_replace:
  assumes ok: "blocks_ok B a ty (xs @ zs @ ys) e" and same: "\<forall>b\<in>set xs \<union> set ys. B' b = B b"
    and new: "distinct zs'" "set zs' \<inter> (set xs \<union> set ys) = {}" "zs' \<noteq> []"
    and fit: "\<And>m1 m2. tiles B 0 xs m1 \<Longrightarrow> tiles B m1 zs m2 \<Longrightarrow> tiles B m2 ys e \<Longrightarrow> tiles B' m1 zs' m2"
    and apart: "successively (\<lambda>x y. \<not> (is_hole (B' x) \<and> is_hole (B' y))) zs'"
    and left: "xs \<noteq> [] \<Longrightarrow> is_hole (B (last xs)) \<Longrightarrow> \<not> is_hole (B' (hd zs'))"
    and right: "ys \<noteq> [] \<Longrightarrow> is_hole (B (hd ys)) \<Longrightarrow> \<not> is_hole (B' (last zs'))"
    and fields: "\<forall>b\<in>set zs'. blk_arena (B' b) = a \<and> (ty \<noteq> RADV_SHADER_ARENA_REPLAYED \<longrightarrow> 256 dvd unat (blk_size (B' b)))"
  shows "blocks_ok B' a ty (xs @ zs' @ ys) e"
proof -
  let ?P = "\<lambda>B x y. \<not> (is_hole (B x) \<and> is_hole ((B :: nat \<Rightarrow> radv_shader_arena_block) y))"
  have b: "distinct (xs @ zs @ ys)" "tiles B 0 (xs @ zs @ ys) e" "successively (?P B) (xs @ zs @ ys)"
    "\<forall>b\<in>set xs \<union> set ys. blk_arena (B b) = a \<and> (ty \<noteq> RADV_SHADER_ARENA_REPLAYED \<longrightarrow> 256 dvd unat (blk_size (B b)))"
    using ok by (auto simp: blocks_ok_def)
  obtain m1 m2 where m: "tiles B 0 xs m1" "tiles B m1 zs m2" "tiles B m2 ys e" using b(2) unfolding tiles_append by blast
  have t: "tiles B' 0 (xs @ zs' @ ys) e"
    using m(1,3) fit [OF m] tiles_cong [of xs B' B] tiles_cong [of ys B' B] same unfolding tiles_append by blast
  have "successively (?P B') xs = successively (?P B) xs" "successively (?P B') ys = successively (?P B) ys"
    using same by (auto intro!: successively_cong)
  then have s: "successively (?P B') xs" "successively (?P B') ys" using b(3) by (simp_all add: successively_append_iff)
  have "xs = [] \<or> ?P B' (last xs) (hd zs')" using left same last_in_set [of xs] by (metis UnI1)
  moreover have "ys = [] \<or> ?P B' (last zs') (hd ys)" using right same hd_in_set [of ys] by (metis UnI2)
  ultimately have sc: "successively (?P B') (xs @ zs' @ ys)"
    using s apart new(3) hd_append2 [OF new(3), of ys] unfolding successively_append_iff by metis
  have "distinct (xs @ zs' @ ys)" using b(1) new by auto
  moreover have "\<forall>b\<in>set (xs @ zs' @ ys). blk_arena (B' b) = a \<and> (ty \<noteq> RADV_SHADER_ARENA_REPLAYED \<longrightarrow> 256 dvd unat (blk_size (B' b)))"
    using b(4) same fields by auto
  ultimately show ?thesis using t sc unfolding blocks_ok_def by blast
qed

section \<open>Free lists\<close>

definition free_list_ok :: "(nat \<Rightarrow> radv_shader_arena_block) \<Rightarrow> nat set \<Rightarrow> radv_shader_free_list \<Rightarrow> bool" where
  "free_list_ok B H l \<longleftrightarrow>
     length (free_lists l) = 8 \<and>
     (\<forall>c<8. distinct (free_lists l ! c) \<and> set (free_lists l ! c) = {b \<in> H. cls (blk_size (B b)) = c} \<and>
        (bit (size_mask l) c \<longleftrightarrow> free_lists l ! c \<noteq> []))"

lemma free_list_ok_cong:
  assumes "\<forall>b\<in>H. cls (blk_size (B' b)) = cls (blk_size (B b))"
  shows "free_list_ok B' H l = free_list_ok B H l"
proof -
  have "{b \<in> H. cls (blk_size (B' b)) = c} = {b \<in> H. cls (blk_size (B b)) = c}" for c using assms by auto
  then show ?thesis by (simp add: free_list_ok_def)
qed

lemma fl_add_ok:
  assumes "free_list_ok B H l" "b \<notin> H" "c = cls (blk_size (B b))"
  shows "free_list_ok B (insert b H) (fl_add c b l)"
  unfolding free_list_ok_def
proof (intro conjI allI impI)
  have l: "length (free_lists l) = 8" using assms(1) by (simp add: free_list_ok_def)
  have c8: "c < 8" using assms(3) by simp
  show "length (free_lists (fl_add c b l)) = 8" using l by (simp add: fl_add_def)
  fix k :: nat
  assume k: "k < 8"
  have a: "distinct (free_lists l ! k)" "set (free_lists l ! k) = {x \<in> H. cls (blk_size (B x)) = k}"
    "bit (size_mask l) k \<longleftrightarrow> free_lists l ! k \<noteq> []" using assms(1) k by (simp_all add: free_list_ok_def)
  show "distinct (free_lists (fl_add c b l) ! k)" using a assms(2) l k c8 by (cases "k = c") (auto simp: fl_add_def)
  show "set (free_lists (fl_add c b l) ! k) = {x \<in> insert b H. cls (blk_size (B x)) = k}"
    using a(2) assms(3) l k c8 by (cases "k = c") (auto simp: fl_add_def)
  show "bit (size_mask (fl_add c b l)) k \<longleftrightarrow> free_lists (fl_add c b l) ! k \<noteq> []"
    using a(3) l k c8 by (cases "k = c") (auto simp: fl_add_def bit_simps)
qed

text \<open>The class given need not be that of the hole if its own class keeps another one.\<close>

lemma fl_remove_ok:
  assumes "free_list_ok B H l" "b \<in> H" "c < 8"
    and own: "c = cls (blk_size (B b)) \<or> (\<exists>x\<in>H - {b}. cls (blk_size (B x)) = cls (blk_size (B b)))"
  shows "free_list_ok B (H - {b}) (fl_remove c b l)"
  unfolding free_list_ok_def
proof (intro conjI allI impI)
  have l: "length (free_lists l) = 8" using assms(1) by (simp add: free_list_ok_def)
  show "length (free_lists (fl_remove c b l)) = 8" using l by (simp add: fl_remove_def Let_def)
  fix k :: nat
  assume k: "k < 8"
  have a: "distinct (free_lists l ! k)" "set (free_lists l ! k) = {x \<in> H. cls (blk_size (B x)) = k}"
    "bit (size_mask l) k \<longleftrightarrow> free_lists l ! k \<noteq> []" using assms(1) k by (simp_all add: free_list_ok_def)
  have f: "free_lists (fl_remove c b l) ! k = remove1 b (free_lists l ! k)" using l k by (simp add: fl_remove_def Let_def)
  show "distinct (free_lists (fl_remove c b l) ! k)" unfolding f using a(1) by simp
  show s: "set (free_lists (fl_remove c b l) ! k) = {x \<in> H - {b}. cls (blk_size (B x)) = k}"
    unfolding f using a(1,2) by (auto simp: set_remove1_eq)
  have m: "bit (size_mask (fl_remove c b l)) k \<longleftrightarrow> bit (size_mask l) k \<and> \<not> (k = c \<and> remove1 b (free_lists l ! k) = [])"
    using l k assms(3) by (auto simp: fl_remove_def Let_def bit_simps)
  show "bit (size_mask (fl_remove c b l)) k \<longleftrightarrow> free_lists (fl_remove c b l) ! k \<noteq> []"
  proof (cases "k = c")
    case True
    then show ?thesis unfolding m f a(3) by auto
  next
    case False
    have "remove1 b (free_lists l ! k) = [] \<Longrightarrow> free_lists l ! k = []"
    proof (rule ccontr)
      assume e: "remove1 b (free_lists l ! k) = []" and "free_lists l ! k \<noteq> []"
      then have "b \<in> set (free_lists l ! k)" by (metis remove1_idem)
      then have "cls (blk_size (B b)) = k" using a(2) by simp
      then show False using own False s e unfolding f by auto
    qed
    then show ?thesis unfolding m f a(3) using False by (cases "free_lists l ! k") auto
  qed
qed

section \<open>The invariant\<close>

text \<open>Arenas, their blocks and the pool of block objects.\<close>

definition core_ok :: "shader_device \<Rightarrow> bool" where
  "core_ok d \<longleftrightarrow>
     (\<forall>a A. arenas d a = Some A \<longrightarrow>
        a < fresh d \<and> arena_bo A < fresh d \<and> arena_ok (blocks d) a A \<and> set (entries A) \<subseteq> {..<fresh d} - set (shader_block_obj_pool d)) \<and>
     distinct (shader_block_obj_pool d) \<and> set (shader_block_obj_pool d) \<subseteq> {..<fresh d}"

definition hole_set :: "shader_device \<Rightarrow> which_list \<Rightarrow> nat set" where
  "hole_set d k =
     {b. is_hole (blocks d b) \<and> (\<exists>a A. arenas d a = Some A \<and> b \<in> set (entries A) \<and> list_of_type (arena_type A) = Some k)}"

definition alloc_set :: "shader_device \<Rightarrow> nat set" where
  "alloc_set d = {b. \<not> is_hole (blocks d b) \<and> (\<exists>a A. arenas d a = Some A \<and> b \<in> set (entries A))}"

definition skeleton :: "shader_device \<Rightarrow> nat \<rightharpoonup> u32 \<times> nat \<times> radv_shader_arena_type" where
  "skeleton d a = map_option (\<lambda>A. (arena_bytes A, arena_bo A, arena_type A)) (arenas d a)"

text \<open>The list of arenas, their buffer objects and the table of replayed addresses.\<close>

definition tables_ok :: "shader_device \<Rightarrow> bool" where
  "tables_ok d \<longleftrightarrow>
     distinct (shader_arenas d) \<and> set (shader_arenas d) = dom (skeleton d) \<and>
     (\<forall>a s b ty. skeleton d a = Some (s, b, ty) \<longrightarrow> (\<exists>v. bos d b = Some v \<and> bo_bytes v = s)) \<and>
     (\<forall>a s ty a' s' ty' b. skeleton d a = Some (s, b, ty) \<longrightarrow> skeleton d a' = Some (s', b, ty') \<longrightarrow> a = a') \<and>
     dom (bos d) = {b. \<exists>a s ty. skeleton d a = Some (s, b, ty)} \<and>
     (case capture_replay_arena_vas d of
        None \<Rightarrow> \<forall>a s b. skeleton d a \<noteq> Some (s, b, RADV_SHADER_ARENA_REPLAYED)
      | Some T \<Rightarrow>
          distinct (map fst T) \<and> distinct (map snd T) \<and>
          (\<forall>va a. (va, a) \<in> set T \<longrightarrow>
             (\<exists>s b v. skeleton d a = Some (s, b, RADV_SHADER_ARENA_REPLAYED) \<and> bos d b = Some v \<and> bo_va v = va)) \<and>
          (\<forall>a s b. skeleton d a = Some (s, b, RADV_SHADER_ARENA_REPLAYED) \<longrightarrow> a \<in> snd ` set T))"

definition lists_ok :: "shader_device \<Rightarrow> bool" where
  "lists_ok d \<longleftrightarrow> (\<forall>k. free_list_ok (blocks d) (hole_set d k) (the_list k d))"

definition arenas_ok :: "shader_device \<Rightarrow> bool" where
  "arenas_ok d \<longleftrightarrow> core_ok d \<and> lists_ok d \<and> tables_ok d"

lemma core_okD:
  assumes "core_ok d" "arenas d a = Some A"
  shows "a < fresh d" "arena_ok (blocks d) a A" "arena_bo A < fresh d" "b \<in> set (entries A) \<Longrightarrow> b < fresh d"
    "b \<in> set (entries A) \<Longrightarrow> b \<notin> set (shader_block_obj_pool d)" "b \<in> set (entries A) \<Longrightarrow> blk_arena (blocks d b) = a"
  using assms by (auto simp: core_ok_def arena_ok_def blocks_ok_def)

lemma tables_ok_keep:
  assumes "tables_ok d" "skeleton d' = skeleton d" "tables d' = tables d"
  shows "tables_ok d'"
proof -
  have e: "shader_arenas d' = shader_arenas d" "capture_replay_arena_vas d' = capture_replay_arena_vas d" "bos d' = bos d"
    using assms(3) by (simp_all add: tables_def)
  show ?thesis using assms(1) unfolding tables_ok_def assms(2) e .
qed

text \<open>A change of one arena: the blocks it had, pooled and new objects may change.\<close>

definition old_blocks :: "shader_device \<Rightarrow> nat \<Rightarrow> nat set" where
  "old_blocks d a = (case arenas d a of Some A \<Rightarrow> set (entries A) | None \<Rightarrow> {})"

definition local_change :: "nat \<Rightarrow> radv_shader_arena option \<Rightarrow> shader_device \<Rightarrow> shader_device \<Rightarrow> bool" where
  "local_change a X d d' \<longleftrightarrow>
     arenas d' = (arenas d)(a := X) \<and> fresh d \<le> fresh d' \<and>
     (\<forall>b. b < fresh d \<longrightarrow> b \<notin> set (shader_block_obj_pool d) \<longrightarrow> b \<notin> old_blocks d a \<longrightarrow> blocks d' b = blocks d b) \<and>
     distinct (shader_block_obj_pool d') \<and> set (shader_block_obj_pool d') \<subseteq> {..<fresh d'} \<and>
     set (shader_block_obj_pool d') \<subseteq> set (shader_block_obj_pool d) \<union> old_blocks d a \<union> {fresh d..} \<and>
     (\<forall>A. X = Some A \<longrightarrow> a < fresh d' \<and> arena_bo A < fresh d' \<and> arena_ok (blocks d') a A \<and>
        set (entries A) \<subseteq> {..<fresh d'} - set (shader_block_obj_pool d'))"

lemma arenas_disjoint:
  assumes "core_ok d" "arenas d a' = Some A'" "a' \<noteq> a" "b \<in> set (entries A')"
  shows "b \<notin> old_blocks d a"
proof (cases "arenas d a")
  case (Some A)
  then show ?thesis using assms core_okD(6) [OF assms(1)] unfolding old_blocks_def by (metis option.simps(5))
qed (simp add: old_blocks_def)

lemma local_change_others:
  assumes "core_ok d" "local_change a X d d'" "arenas d a' = Some A'" "a' \<noteq> a" "b \<in> set (entries A')"
  shows "blocks d' b = blocks d b" "b \<notin> set (shader_block_obj_pool d')" "b < fresh d'"
proof -
  note c = core_okD [OF assms(1,3)]
  have "b \<notin> old_blocks d a" by (rule arenas_disjoint [OF assms(1,3,4,5)])
  then show "blocks d' b = blocks d b" "b \<notin> set (shader_block_obj_pool d')" "b < fresh d'"
    using assms(2) c(4,5) [OF assms(5)] by (auto simp: local_change_def)
qed

lemma core_change:
  assumes "core_ok d" "local_change a X d d'"
  shows "core_ok d'"
proof -
  have "a' < fresh d' \<and> arena_bo A' < fresh d' \<and> arena_ok (blocks d') a' A' \<and> set (entries A') \<subseteq> {..<fresh d'} - set (shader_block_obj_pool d')"
    if A': "arenas d' a' = Some A'" for a' A'
  proof (cases "a' = a")
    case True
    then show ?thesis using A' assms(2) by (simp add: local_change_def)
  next
    case False
    then have old: "arenas d a' = Some A'" using A' assms(2) by (simp add: local_change_def)
    note o = local_change_others [OF assms old False]
    have "a' < fresh d'" "arena_bo A' < fresh d'" using core_okD(1,3) [OF assms(1) old] assms(2) by (simp_all add: local_change_def)
    then show ?thesis using o core_okD(2) [OF assms(1) old] arena_ok_cong [of A' "blocks d'" "blocks d" a'] by blast
  qed
  then show ?thesis using assms(2) by (simp add: core_ok_def local_change_def)
qed

lemma hole_set_change:
  assumes "core_ok d" "local_change a X d d'"
  shows "hole_set d' k = (hole_set d k - old_blocks d a) \<union>
    {b. \<exists>A. X = Some A \<and> b \<in> set (entries A) \<and> is_hole (blocks d' b) \<and> list_of_type (arena_type A) = Some k}"
proof -
  have a: "arenas d' a' = (if a' = a then X else arenas d a')" for a' using assms(2) by (simp add: local_change_def)
  note n = arenas_disjoint [OF assms(1)]
  have o: "b \<in> old_blocks d a" if "arenas d a = Some A'" "b \<in> set (entries A')" for A' b using that by (simp add: old_blocks_def)
  show ?thesis
    unfolding hole_set_def a using local_change_others(1) [OF assms] n o by (auto split: if_splits) metis+
qed

lemma alloc_set_change:
  assumes "core_ok d" "local_change a X d d'"
  shows "alloc_set d' = (alloc_set d - old_blocks d a) \<union> {b. \<exists>A. X = Some A \<and> b \<in> set (entries A) \<and> \<not> is_hole (blocks d' b)}"
    and "b \<in> alloc_set d - old_blocks d a \<Longrightarrow> blocks d' b = blocks d b"
proof -
  have a: "arenas d' a' = (if a' = a then X else arenas d a')" for a' using assms(2) by (simp add: local_change_def)
  note n = arenas_disjoint [OF assms(1)]
  have o: "b \<in> old_blocks d a" if "arenas d a = Some A'" "b \<in> set (entries A')" for A' b using that by (simp add: old_blocks_def)
  show "alloc_set d' = (alloc_set d - old_blocks d a) \<union> {b. \<exists>A. X = Some A \<and> b \<in> set (entries A) \<and> \<not> is_hole (blocks d' b)}"
    unfolding alloc_set_def a using local_change_others(1) [OF assms] n o by (auto split: if_splits) metis+
  show "b \<in> alloc_set d - old_blocks d a \<Longrightarrow> blocks d' b = blocks d b"
    using local_change_others(1) [OF assms] o unfolding alloc_set_def by blast
qed

text \<open>An object from the pool or from memory.\<close>

definition obtained :: "nat \<Rightarrow> shader_device \<Rightarrow> shader_device \<Rightarrow> bool" where
  "obtained b d d' \<longleftrightarrow>
     blocks d' = blocks d \<and> arenas d' = arenas d \<and> (\<forall>k. the_list k d' = the_list k d) \<and> frame d' = frame d \<and>
     fresh d \<le> fresh d' \<and> set (shader_block_obj_pool d') \<subseteq> set (shader_block_obj_pool d) - {b} \<and>
     distinct (shader_block_obj_pool d') \<and> b < fresh d' \<and> (b \<in> set (shader_block_obj_pool d) \<or> fresh d \<le> b)"

text \<open>Nothing changed but objects that are not in use.\<close>

definition kept :: "shader_device \<Rightarrow> shader_device \<Rightarrow> bool" where
  "kept d d' \<longleftrightarrow>
     local_change (fresh d) None d d' \<and> (\<forall>k. the_list k d' = the_list k d) \<and> tables d' = tables d"

lemma no_arena_fresh: "core_ok d \<Longrightarrow> arenas d (fresh d) = None"
  using core_okD(1) [of d "fresh d"] by (cases "arenas d (fresh d)") auto

lemma alloc_block_obj_cases:
  assumes "core_ok d"
  obtains b d' where "alloc_block_obj d = (Some b, d')" "obtained b d d'" "mallocs d' = mallocs d \<or> mallocs d' = tl (mallocs d)"
  | d' where "alloc_block_obj d = (None, d')" "kept d d'" "\<not> succeeds (mallocs d)"
proof (cases "shader_block_obj_pool d")
  case (Cons b pool)
  have "the_list k (d\<lparr>shader_block_obj_pool := pool\<rparr>) = the_list k d" for k by (cases k) simp_all
  then have "obtained b d (d\<lparr>shader_block_obj_pool := pool\<rparr>)"
    using assms Cons by (auto simp: core_ok_def obtained_def frame_def)
  then show thesis using that(1) Cons by (simp add: alloc_block_obj_def)
next
  case Nil
  have l: "the_list k (d\<lparr>mallocs := m, fresh := n\<rparr>) = the_list k d" for k m n by (cases k) simp_all
  show thesis
  proof (cases "succeeds (mallocs d)")
    case True
    then show thesis
      using that(1) [of "fresh d" "d\<lparr>mallocs := tl (mallocs d), fresh := Suc (fresh d)\<rparr>"] Nil l
      by (simp add: alloc_block_obj_def malloc_def obtained_def frame_def)
  next
    case False
    then show thesis
      using that(2) [of "d\<lparr>mallocs := tl (mallocs d), fresh := Suc (fresh d)\<rparr>"] Nil l no_arena_fresh [OF assms]
      by (simp add: alloc_block_obj_def malloc_def kept_def tables_def local_change_def fun_upd_idem)
  qed
qed

lemma obtained_new:
  assumes "core_ok d" "obtained b d d'" "arenas d a = Some A"
  shows "b \<notin> set (entries A)"
  using assms core_okD(4,5) [OF assms(1,3)] by (force simp: obtained_def)

lemma kept_ok:
  assumes "arenas_ok d" "kept d d'"
  shows "arenas_ok d'" "alloc_set d' = alloc_set d" "skeleton d' = skeleton d" "\<forall>b\<in>alloc_set d. blocks d' b = blocks d b"
proof -
  have core: "core_ok d" using assms(1) by (simp add: arenas_ok_def)
  have ch: "local_change (fresh d) None d d'" using assms(2) by (simp add: kept_def)
  have n: "arenas d (fresh d) = None" by (rule no_arena_fresh [OF core])
  then have ar: "arenas d' = arenas d" using ch by (simp add: local_change_def fun_upd_idem)
  have old: "old_blocks d (fresh d) = {}" using n by (simp add: old_blocks_def)
  show s: "skeleton d' = skeleton d" using ar by (simp add: skeleton_def fun_eq_iff)
  have h: "hole_set d' k = hole_set d k" for k using hole_set_change [OF core ch, of k] by (simp add: old)
  have "blocks d' b = blocks d b" if "b \<in> hole_set d k" for b k
    using that local_change_others(1) [OF core ch] n by (fastforce simp: hole_set_def)
  then have "lists_ok d'"
    using assms free_list_ok_cong [of "hole_set d _" "blocks d'" "blocks d"] by (simp add: arenas_ok_def lists_ok_def h kept_def)
  moreover have "tables_ok d'" using assms s tables_ok_keep [of d d'] by (simp add: arenas_ok_def kept_def)
  ultimately show "arenas_ok d'" using core_change [OF core ch] by (simp add: arenas_ok_def)
  show "alloc_set d' = alloc_set d" "\<forall>b\<in>alloc_set d. blocks d' b = blocks d b"
    using alloc_set_change [OF core ch] by (simp_all add: old)
qed

text \<open>The holes after a change within an existing arena.\<close>

lemma hole_set_member:
  assumes "core_ok d" "arenas d a = Some A" "b \<in> set (entries A)"
  shows "b \<in> hole_set d k \<longleftrightarrow> is_hole (blocks d b) \<and> list_of_type (arena_type A) = Some k"
  using assms core_okD(6) [OF assms(1)] unfolding hole_set_def mem_Collect_eq by (metis option.inject)

lemma alloc_set_member:
  "arenas d a = Some A \<Longrightarrow> b \<in> set (entries A) \<Longrightarrow> b \<in> alloc_set d \<longleftrightarrow> \<not> is_hole (blocks d b)"
  by (auto simp: alloc_set_def)

lemma hole_set_local:
  assumes "core_ok d" "local_change a (Some (A\<lparr>entries := zs\<rparr>)) d d'" "arenas d a = Some A"
  shows "hole_set d' k =
    (if list_of_type (arena_type A) = Some k then (hole_set d k - set (entries A)) \<union> {b \<in> set zs. is_hole (blocks d' b)}
     else hole_set d k)"
proof -
  have "old_blocks d a = set (entries A)" using assms(3) by (simp add: old_blocks_def)
  moreover have "list_of_type (arena_type A) \<noteq> Some k \<Longrightarrow> hole_set d k \<inter> set (entries A) = {}"
    using hole_set_member [OF assms(1,3)] by auto
  ultimately show ?thesis using hole_set_change [OF assms(1,2), of k] by auto
qed

lemma skeleton_local: "arenas d a = Some A \<Longrightarrow> arenas d' = (arenas d)(a \<mapsto> A\<lparr>entries := zs\<rparr>) \<Longrightarrow> skeleton d' = skeleton d"
  by (auto simp: skeleton_def fun_eq_iff)

lemma block_in_arena:
  assumes "core_ok d" "arenas d a = Some A" "entries A = xs @ zs @ ys" "b \<in> set zs"
  shows "unat (blk_offset (blocks d b)) + unat (blk_size (blocks d b)) \<le> unat (arena_bytes A)" "blk_size (blocks d b) \<noteq> 0"
    "blk_arena (blocks d b) = a" "b \<notin> set xs" "b \<notin> set ys"
proof -
  have "distinct (xs @ zs @ ys)" "tiles (blocks d) 0 (entries A) (unat (arena_bytes A))"
    using core_okD(2) [OF assms(1,2)] assms(3) by (simp_all add: arena_ok_def blocks_ok_def)
  then show "unat (blk_offset (blocks d b)) + unat (blk_size (blocks d b)) \<le> unat (arena_bytes A)" "blk_size (blocks d b) \<noteq> 0"
    "b \<notin> set xs" "b \<notin> set ys"
    using tiles_bounds [of "blocks d" 0 "entries A" _ b] assms(3,4) by auto
  show "blk_arena (blocks d b) = a" using core_okD(6) [OF assms(1,2)] assms(3,4) by simp
qed

lemma local_changeI:
  assumes "core_ok d" "arenas d a = Some A" "arenas d' = (arenas d)(a \<mapsto> A\<lparr>entries := zs\<rparr>)" "fresh d \<le> fresh d'"
    "set (shader_block_obj_pool d') \<subseteq> set (shader_block_obj_pool d) \<union> set (entries A)" "distinct (shader_block_obj_pool d')"
    "N \<subseteq> set (shader_block_obj_pool d) \<union> {fresh d..<fresh d'} - set (shader_block_obj_pool d')"
    "set zs \<subseteq> set (entries A) \<union> N" "set zs \<inter> set (shader_block_obj_pool d') = {}"
    "\<forall>x. x \<notin> set (entries A) \<union> N \<longrightarrow> blocks d' x = blocks d x" "arena_ok (blocks d') a (A\<lparr>entries := zs\<rparr>)"
  shows "local_change a (Some (A\<lparr>entries := zs\<rparr>)) d d'"
proof -
  have old: "old_blocks d a = set (entries A)" using assms(2) by (simp add: old_blocks_def)
  have f: "a < fresh d'" "arena_bo A < fresh d'" "set (entries A) \<subseteq> {..<fresh d'}" "set (shader_block_obj_pool d) \<subseteq> {..<fresh d'}"
    using core_okD(1,3,4) [OF assms(1,2)] assms(1,4) by (auto simp: core_ok_def dest: less_le_trans)
  have "N \<subseteq> {..<fresh d'}" using assms(7) f(4) by auto
  then have "set zs \<subseteq> {..<fresh d'} - set (shader_block_obj_pool d')" using f(3) assms(8,9) by blast
  moreover have "set (shader_block_obj_pool d') \<subseteq> {..<fresh d'}" using f(3,4) assms(5) by blast
  moreover have "blocks d' b = blocks d b" if "b < fresh d" "b \<notin> set (shader_block_obj_pool d)" "b \<notin> set (entries A)" for b
  proof -
    have "b \<notin> N" using that assms(7) by auto
    then show ?thesis using that assms(10) by blast
  qed
  ultimately show ?thesis using assms(3-6,11) f unfolding local_change_def old by auto
qed

lemma insert_before_split: "h \<notin> set xs \<Longrightarrow> insert_before b h (xs @ h # ys) = xs @ b # h # ys"
  by (induction xs) auto

lemma insert_after_split: "h \<notin> set xs \<Longrightarrow> insert_after b h (xs @ h # ys) = xs @ h # b # ys"
  by (induction xs) auto

text \<open>A change within an arena keeps the invariant when its own free list, if it has one, is right.\<close>

lemma arenas_ok_local:
  assumes ok: "arenas_ok d" and A: "arenas d a = Some A" and ch: "local_change a (Some (A\<lparr>entries := zs\<rparr>)) d d'"
    and fr: "frame d' = frame d"
    and other: "\<And>k. list_of_type (arena_type A) \<noteq> Some k \<Longrightarrow> the_list k d' = the_list k d"
    and own: "\<And>k. list_of_type (arena_type A) = Some k \<Longrightarrow>
      free_list_ok (blocks d') ((hole_set d k - set (entries A)) \<union> {b \<in> set zs. is_hole (blocks d' b)}) (the_list k d')"
  shows "arenas_ok d'" "skeleton d' = skeleton d"
    "alloc_set d' = (alloc_set d - set (entries A)) \<union> {b \<in> set zs. \<not> is_hole (blocks d' b)}"
    "\<forall>b\<in>alloc_set d - set (entries A). blocks d' b = blocks d b"
proof -
  have core: "core_ok d" and lists: "lists_ok d" and tables: "tables_ok d" using ok by (simp_all add: arenas_ok_def)
  have ar: "arenas d' = (arenas d)(a \<mapsto> A\<lparr>entries := zs\<rparr>)" using ch by (simp add: local_change_def)
  show s: "skeleton d' = skeleton d" by (rule skeleton_local [OF A ar])
  have "free_list_ok (blocks d') (hole_set d' k) (the_list k d')" for k
  proof (cases "list_of_type (arena_type A) = Some k")
    case True
    then show ?thesis using own [OF True] hole_set_local [OF core ch A, of k] by simp
  next
    case False
    have "blocks d' b = blocks d b" if "b \<in> hole_set d k" for b
      using that False local_change_others(1) [OF core ch] A by (fastforce simp: hole_set_def)
    then show ?thesis
      using lists False hole_set_local [OF core ch A, of k] free_list_ok_cong [of "hole_set d k" "blocks d'" "blocks d"] other [OF False]
      by (simp add: lists_ok_def)
  qed
  then have "lists_ok d'" by (simp add: lists_ok_def)
  then show "arenas_ok d'" using core_change [OF core ch] tables_ok_keep [OF tables s frame_tables [OF fr]] by (simp add: arenas_ok_def)
  have old: "old_blocks d a = set (entries A)" using A by (simp add: old_blocks_def)
  show "alloc_set d' = (alloc_set d - set (entries A)) \<union> {b \<in> set zs. \<not> is_hole (blocks d' b)}"
    "\<forall>b\<in>alloc_set d - set (entries A). blocks d' b = blocks d b"
    using alloc_set_change [OF core ch] by (auto simp: old)
qed

text \<open>The result of a successful allocation.\<close>

definition allocated :: "nat \<Rightarrow> u32 \<Rightarrow> nat \<Rightarrow> shader_device \<Rightarrow> shader_device \<Rightarrow> bool" where
  "allocated b sz ptr d d' \<longleftrightarrow>
     b \<notin> alloc_set d \<and> alloc_set d' = insert b (alloc_set d) \<and> (\<forall>x\<in>alloc_set d. blocks d' x = blocks d x) \<and>
     blk_size (blocks d' b) = sz \<and> freelist (blocks d' b) = Some ptr"

lemma holes_neighbours:
  assumes "blocks_ok B a ty (xs @ [h] @ ys) e" "is_hole (B h)"
  shows "xs \<noteq> [] \<Longrightarrow> \<not> is_hole (B (last xs))" "ys \<noteq> [] \<Longrightarrow> \<not> is_hole (B (hd ys))"
  using assms by (cases ys; auto simp: blocks_ok_def successively_append_iff)+

lemma hole_setE:
  assumes "h \<in> hole_set d k"
  obtains a A xs ys where "arenas d a = Some A" "entries A = xs @ [h] @ ys" "list_of_type (arena_type A) = Some k" "is_hole (blocks d h)"
proof -
  obtain a A where A: "arenas d a = Some A" "h \<in> set (entries A)" "list_of_type (arena_type A) = Some k" "is_hole (blocks d h)"
    using assms by (auto simp: hole_set_def)
  then obtain xs ys where "entries A = xs @ h # ys" by (meson split_list)
  then show thesis using that [of a A xs ys] A by simp
qed

lemma list_of_type_simps [simp]: "list_of_type ty = Some k \<Longrightarrow> ty \<noteq> RADV_SHADER_ARENA_REPLAYED"
  by (auto simp: list_of_type_def)

lemma use_hole_split:
  assumes ok: "arenas_ok d" and h: "h \<in> hole_set d k" and sz: "sz < blk_size (blocks d h)" "sz \<noteq> 0" "256 dvd unat sz"
    and obj: "obtained b d d1"
    and d': "blocks d' = (blocks d)(b := \<lparr>freelist = Some ptr, blk_arena = blk_arena (blocks d h),
        blk_offset = blk_offset (blocks d h), blk_size = sz\<rparr>,
      h := (blocks d h)\<lparr>freelist := None, blk_offset := blk_offset (blocks d h) + sz, blk_size := blk_size (blocks d h) - sz\<rparr>)"
      "arenas d' = arenas (set_entries (blk_arena (blocks d h)) (insert_before b h) d)" "frame d' = frame d" "fresh d' = fresh d1"
      "shader_block_obj_pool d' = shader_block_obj_pool d1"
      "\<And>k'. the_list k' d' = (if k' = k then fl_add (cls (blk_size (blocks d h) - sz)) h
        (fl_remove (cls (blk_size (blocks d h))) h (the_list k d)) else the_list k' d)"
  shows "arenas_ok d'" "allocated b sz ptr d d'" "skeleton d' = skeleton d"
proof -
  have core: "core_ok d" and lists: "lists_ok d" and tables: "tables_ok d" using ok by (simp_all add: arenas_ok_def)
  obtain a A xs ys where A: "arenas d a = Some A" "entries A = xs @ [h] @ ys" "list_of_type (arena_type A) = Some k" "is_hole (blocks d h)"
    using h by (rule hole_setE)
  note hb = block_in_arena [OF core A(1,2), of h, simplified]
  have ok1: "blocks_ok (blocks d) a (arena_type A) (xs @ [h] @ ys) (unat (arena_bytes A))"
    using core_okD(2) [OF core A(1)] A(2) by (simp add: arena_ok_def)
  have b: "b \<notin> set (entries A)" "b \<noteq> h" using obtained_new [OF core obj A(1)] A(2) by auto
  have lt: "unat sz < unat (blk_size (blocks d h))" using sz(1) by (simp add: word_less_nat_alt)
  have diff: "unat (blk_size (blocks d h) - sz) = unat (blk_size (blocks d h)) - unat sz" using lt by (simp add: unat_sub_no_wrap)
  have off: "unat (blk_offset (blocks d h) + sz) = unat (blk_offset (blocks d h)) + unat sz"
    using hb(1) lt unat_bound [of "arena_bytes A"] by (intro unat_add_no_wrap) simp
  have nz: "blk_size (blocks d h) - sz \<noteq> 0" using sz(1) by auto
  let ?A = "A\<lparr>entries := xs @ [b, h] @ ys\<rparr>"
  have ar: "arenas d' = (arenas d)(a \<mapsto> ?A)"
    using A(1,2) hb by (simp add: d'(2) insert_before_split)
  have "blocks_ok (blocks d') a (arena_type A) (xs @ [b, h] @ ys) (unat (arena_bytes A))"
  proof (rule blocks_ok_replace [OF ok1])
    show "\<forall>x\<in>set xs \<union> set ys. blocks d' x = blocks d x" using b A(2) hb(4,5) by (auto simp: d'(1))
    show "tiles (blocks d') m1 [b, h] m2" if "tiles (blocks d) m1 [h] m2" for m1 m2
      using that b sz nz diff off lt by (auto simp: d'(1))
    have "256 dvd unat (blk_size (blocks d h))" using ok1 A(3) by (auto simp: blocks_ok_def)
    then show "\<forall>x\<in>set [b, h]. blk_arena (blocks d' x) = a \<and>
        (arena_type A \<noteq> RADV_SHADER_ARENA_REPLAYED \<longrightarrow> 256 dvd unat (blk_size (blocks d' x)))"
      using hb(3) sz(3) diff by (simp add: d'(1) dvd_diff_nat)
  qed (use b A(2) hb(4,5) holes_neighbours [OF ok1 A(4)] in \<open>auto simp: d'(1)\<close>)
  then have aok: "arena_ok (blocks d') a ?A" using b by (auto simp: arena_ok_def d'(1))
  have ch: "local_change a (Some ?A) d d'"
  proof (rule local_changeI [OF core A(1) ar _ _ _ _ _ _ _ aok])
    show "{b} \<subseteq> set (shader_block_obj_pool d) \<union> {fresh d..<fresh d'} - set (shader_block_obj_pool d')"
      using obj by (auto simp: obtained_def d'(4,5))
  qed (use obj A(2) core_okD(5) [OF core A(1)] in \<open>auto simp: obtained_def d'(1,4,5)\<close>)
  have bn: "b \<notin> hole_set d k" using obtained_new [OF core obj] by (auto simp: hole_set_def)
  have "free_list_ok (blocks d) (hole_set d k - {h}) (fl_remove (cls (blk_size (blocks d h))) h (the_list k d))"
    using lists h by (intro fl_remove_ok) (simp_all add: lists_ok_def)
  then have "free_list_ok (blocks d') (hole_set d k - {h}) (fl_remove (cls (blk_size (blocks d h))) h (the_list k d))"
    using bn by (subst free_list_ok_cong [where B = "blocks d"]) (auto simp: d'(1))
  then have fl: "free_list_ok (blocks d') (insert h (hole_set d k - {h})) (the_list k d')"
    using fl_add_ok [of "blocks d'" "hole_set d k - {h}" _ h] by (simp add: d'(6) d'(1))
  have hs: "insert h (hole_set d k - {h}) = (hole_set d k - set (entries A)) \<union> {x \<in> set (xs @ [b, h] @ ys). is_hole (blocks d' x)}"
    using hole_set_member [OF core A(1), of _ k] A(2-4) b h hb(4,5) by (auto simp: d'(1))
  have loc: "arenas_ok d'" "skeleton d' = skeleton d"
    "alloc_set d' = (alloc_set d - set (entries A)) \<union> {x \<in> set (xs @ [b, h] @ ys). \<not> is_hole (blocks d' x)}"
    by (rule arenas_ok_local [OF ok A(1) ch d'(3)]; use fl [unfolded hs] A(3) in \<open>auto simp: d'(6)\<close>)+
  then show "arenas_ok d'" "skeleton d' = skeleton d" by simp_all
  have "alloc_set d' = insert b (alloc_set d)"
    using loc(3) alloc_set_member [OF A(1)] A(2,4) b hb(4,5) by (auto simp: d'(1))
  moreover have na: "b \<notin> alloc_set d" using obtained_new [OF core obj] by (auto simp: alloc_set_def)
  moreover have "\<forall>x\<in>alloc_set d. blocks d' x = blocks d x" using na A(4) by (auto simp: d'(1) alloc_set_def)
  ultimately show "allocated b sz ptr d d'" using b by (simp add: allocated_def d'(1))
qed

lemma use_hole_exact:
  assumes ok: "arenas_ok d" and h: "h \<in> hole_set d k"
    and d': "d' = set_block h ((blocks (remove_hole k h d) h)\<lparr>freelist := Some ptr\<rparr>) (remove_hole k h d)"
  shows "arenas_ok d'" "allocated h (blk_size (blocks d h)) ptr d d'" "skeleton d' = skeleton d"
proof -
  have core: "core_ok d" and lists: "lists_ok d" using ok by (simp_all add: arenas_ok_def)
  obtain a A xs ys where A: "arenas d a = Some A" "entries A = xs @ [h] @ ys" "list_of_type (arena_type A) = Some k" "is_hole (blocks d h)"
    using h by (rule hole_setE)
  note hb = block_in_arena [OF core A(1,2), of h, simplified]
  have B: "blocks d' = (blocks d)(h := (blocks d h)\<lparr>freelist := Some ptr\<rparr>)" by (simp add: d')
  have ok1: "blocks_ok (blocks d) a (arena_type A) (xs @ [h] @ ys) (unat (arena_bytes A))"
    using core_okD(2) [OF core A(1)] A(2) by (simp add: arena_ok_def)
  have "blocks_ok (blocks d') a (arena_type A) (xs @ [h] @ ys) (unat (arena_bytes A))"
    using hb ok1 A(3) by (intro blocks_ok_replace [OF ok1]) (auto simp: B blocks_ok_def)
  then have aok: "arena_ok (blocks d') a (A\<lparr>entries := entries A\<rparr>)" using A(2) by (auto simp: arena_ok_def B)
  have ch: "local_change a (Some (A\<lparr>entries := entries A\<rparr>)) d d'"
  proof (rule local_changeI [OF core A(1) _ _ _ _ _ _ _ _ aok])
    show "arenas d' = (arenas d)(a \<mapsto> A\<lparr>entries := entries A\<rparr>)" using A(1) by (simp add: d' fun_upd_idem)
    show "{} \<subseteq> set (shader_block_obj_pool d) \<union> {fresh d..<fresh d'} - set (shader_block_obj_pool d')" by simp
  qed (use core A(2) core_okD(5) [OF core A(1)] in \<open>auto simp: d' core_ok_def\<close>)
  have "free_list_ok (blocks d) (hole_set d k - {h}) (the_list k d')"
    using lists h by (simp add: d') (rule fl_remove_ok; simp add: lists_ok_def)
  then have fl: "free_list_ok (blocks d') (hole_set d k - {h}) (the_list k d')"
    by (subst free_list_ok_cong [where B = "blocks d"]) (auto simp: B)
  have hs: "hole_set d k - {h} = (hole_set d k - set (entries A)) \<union> {x \<in> set (entries A). is_hole (blocks d' x)}"
    using hole_set_member [OF core A(1), of _ k] A(2-4) h hb(4,5) by (auto simp: B)
  have oth: "k' \<noteq> k \<Longrightarrow> the_list k' d' = the_list k' d" "frame d' = frame d" for k' by (simp_all add: d')
  have loc: "arenas_ok d'" "skeleton d' = skeleton d"
    "alloc_set d' = (alloc_set d - set (entries A)) \<union> {x \<in> set (entries A). \<not> is_hole (blocks d' x)}"
    by (rule arenas_ok_local [OF ok A(1) ch oth(2)]; use fl [unfolded hs] A(3) oth in auto)+
  then show "arenas_ok d'" "skeleton d' = skeleton d" by simp_all
  have "alloc_set d' = insert h (alloc_set d)"
    using loc(3) alloc_set_member [OF A(1)] A(2,4) hb(4,5) by (auto simp: B)
  moreover have "h \<notin> alloc_set d" using A(4) by (simp add: alloc_set_def)
  moreover from this have "\<forall>x\<in>alloc_set d. blocks d' x = blocks d x" by (auto simp: B)
  ultimately show "allocated h (blk_size (blocks d h)) ptr d d'" by (simp add: allocated_def B)
qed

lemma use_hole_cases:
  assumes ok: "arenas_ok d" and h: "h \<in> hole_set d k" and sz: "sz \<le> blk_size (blocks d h)" "sz \<noteq> 0" "256 dvd unat sz"
  obtains b d' where "use_hole k sz ptr h d = (Some b, d')" "arenas_ok d'" "allocated b sz ptr d d'" "skeleton d' = skeleton d" "frame d' = frame d"
  | d' where "use_hole k sz ptr h d = (None, d')" "kept d d'" "\<not> succeeds (mallocs d)"
proof (cases "sz = blk_size (blocks d h)")
  case True
  then show thesis using that(1) use_hole_exact [OF ok h refl, of ptr] by (simp add: use_hole_def Let_def)
next
  case False
  have core: "core_ok d" using ok by (simp add: arenas_ok_def)
  from core show thesis
  proof (cases rule: alloc_block_obj_cases)
    case (1 b d1)
    have bh: "b \<noteq> h" using h obtained_new [OF core 1(2)] by (auto simp: hole_set_def)
    obtain d' where d': "use_hole k sz ptr h d = (Some b, d')"
      using False 1(1) by (simp add: use_hole_def Let_def)
    have f: "blocks d1 = blocks d" "arenas d1 = arenas d" "\<And>k. the_list k d1 = the_list k d" "frame d1 = frame d"
      using 1(2) by (simp_all add: obtained_def)
    have lt: "sz < blk_size (blocks d h)" using sz(1) False by simp
    have fields: "blocks d' = (blocks d)(b := \<lparr>freelist = Some ptr, blk_arena = blk_arena (blocks d h), blk_offset = blk_offset (blocks d h), blk_size = sz\<rparr>,
        h := (blocks d h)\<lparr>freelist := None, blk_offset := blk_offset (blocks d h) + sz, blk_size := blk_size (blocks d h) - sz\<rparr>)"
      "arenas d' = arenas (set_entries (blk_arena (blocks d h)) (insert_before b h) d)" "frame d' = frame d" "fresh d' = fresh d1"
      "shader_block_obj_pool d' = shader_block_obj_pool d1"
      "\<And>k'. the_list k' d' = (if k' = k then fl_add (cls (blk_size (blocks d h) - sz)) h
        (fl_remove (cls (blk_size (blocks d h))) h (the_list k d)) else the_list k' d)"
      using d' False 1(1) bh by (auto simp: use_hole_def Let_def f fun_eq_iff)
    from use_hole_split [OF ok h lt sz(2,3) 1(2) fields] show thesis using that(1) d' fields(3) by blast
  next
    case (2 d1)
    then show thesis using that(2) False by (simp add: use_hole_def)
  qed
qed

section \<open>Searching the free lists\<close>

lemma ffs_Suc:
  assumes "ffs x = Suc c"
  shows "bit x c" "\<forall>c'<c. \<not> bit x c'"
  using assms by (auto simp: ffs_def find_Some_iff split: option.splits)

lemma ffs_0: "ffs x = 0 \<Longrightarrow> \<not> bit (x :: u32) c"
  using bit_imp_le_length [of x c] by (auto simp: ffs_def find_None_iff split: option.splits)

lemma class_mask_bit:
  "bit (ucast (m :: u8) AND push_bit s (BITFIELD_MASK (unat RADV_SHADER_ALLOC_NUM_FREE_LISTS)) :: u32) c \<longleftrightarrow> bit m c \<and> s \<le> c \<and> c < 8"
proof -
  have n: "unat RADV_SHADER_ALLOC_NUM_FREE_LISTS = 8"
    by (simp add: RADV_SHADER_ALLOC_NUM_FREE_LISTS_def RADV_SHADER_ALLOC_MAX_SIZE_CLASS_def RADV_SHADER_ALLOC_MIN_SIZE_CLASS_def)
  have b: "bit (BITFIELD_MASK 8) i \<longleftrightarrow> i < 8" for i by (simp add: bit_BITFIELD_MASK)
  have m: "bit m c \<Longrightarrow> c < 8" using bit_imp_le_length [of m c] by simp
  show ?thesis
    unfolding n bit_and_iff bit_push_bit_iff b by (auto simp: bit_simps dest: m)
qed

lemma find_hole_Some:
  assumes "lists_ok d" "find_hole k sz d = Some h"
  shows "h \<in> hole_set d k" "sz \<le> blk_size (blocks d h)"
proof -
  let ?x = "ucast (size_mask (the_list k d)) AND
    push_bit (unat (get_size_class sz True)) (BITFIELD_MASK (unat RADV_SHADER_ALLOC_NUM_FREE_LISTS)) :: u32"
  from assms(2) obtain c where c: "ffs ?x = Suc c" "find (\<lambda>hole. \<not> blk_size (blocks d hole) < sz) (free_lists (the_list k d) ! c) = Some h"
    by (cases "ffs ?x") (auto simp: find_hole_def Let_def)
  have "c < 8" using ffs_Suc(1) [OF c(1)] unfolding class_mask_bit by simp
  then have "set (free_lists (the_list k d) ! c) \<subseteq> hole_set d k" using assms(1) by (auto simp: lists_ok_def free_list_ok_def)
  moreover have "h \<in> set (free_lists (the_list k d) ! c)" "\<not> blk_size (blocks d h) < sz"
    using c(2) by (auto simp: find_Some_iff)
  ultimately show "h \<in> hole_set d k" "sz \<le> blk_size (blocks d h)" by auto
qed

lemma hole_size:
  assumes "core_ok d" "h \<in> hole_set d k"
  shows "256 \<le> unat (blk_size (blocks d h))"
proof -
  obtain a A xs ys where A: "arenas d a = Some A" "entries A = xs @ [h] @ ys" "list_of_type (arena_type A) = Some k"
    using assms(2) by (rule hole_setE)
  have "256 dvd unat (blk_size (blocks d h))" using core_okD(2) [OF assms(1) A(1)] A(2,3) by (auto simp: arena_ok_def blocks_ok_def)
  moreover have "unat (blk_size (blocks d h)) \<noteq> 0" using block_in_arena(2) [OF assms(1) A(1,2), of h] by (simp add: unat_eq_0)
  ultimately show ?thesis by (meson dvd_imp_le neq0_conv)
qed

text \<open>No hole is passed over that is sure to be large enough by its class.\<close>

lemma find_hole_None:
  assumes "core_ok d" "lists_ok d" "find_hole k sz d = None" "unat sz \<le> 32768" "h \<in> hole_set d k"
  shows "cls (blk_size (blocks d h)) < unat (get_size_class sz True)"
proof (rule ccontr)
  let ?s = "unat (get_size_class sz True)" and ?l = "the_list k d"
  let ?x = "ucast (size_mask ?l) AND push_bit ?s (BITFIELD_MASK (unat RADV_SHADER_ALLOC_NUM_FREE_LISTS)) :: u32"
  assume n: "\<not> cls (blk_size (blocks d h)) < ?s"
  have l: "c < 8 \<Longrightarrow> set (free_lists ?l ! c) = {b \<in> hole_set d k. cls (blk_size (blocks d b)) = c}"
    "c < 8 \<Longrightarrow> bit (size_mask ?l) c \<longleftrightarrow> free_lists ?l ! c \<noteq> []" for c
    using assms(2) by (simp_all add: lists_ok_def free_list_ok_def)
  have "h \<in> set (free_lists ?l ! cls (blk_size (blocks d h)))" using l(1) [of "cls (blk_size (blocks d h))"] assms(5) by simp
  then have "free_lists ?l ! cls (blk_size (blocks d h)) \<noteq> []" by (metis list.set(1) empty_iff)
  then have "bit (size_mask ?l) (cls (blk_size (blocks d h)))" using l(2) [of "cls (blk_size (blocks d h))"] by simp
  then have "bit ?x (cls (blk_size (blocks d h)))" unfolding class_mask_bit using n by simp
  then have "ffs ?x \<noteq> 0" using ffs_0 by blast
  then obtain c where c: "ffs ?x = Suc c" by (meson not0_implies_Suc)
  then have b: "bit (size_mask ?l) c" "?s \<le> c" "c < 8" using ffs_Suc(1) [OF c] unfolding class_mask_bit by simp_all
  then have "free_lists ?l ! c \<noteq> []" using l(2) [of c] by simp
  then obtain g where g: "g \<in> set (free_lists ?l ! c)" using hd_in_set by blast
  have no: "find (\<lambda>hole. \<not> blk_size (blocks d hole) < sz) (free_lists ?l ! c) = None"
    using assms(3) c by (simp add: find_hole_def Let_def)
  then have "blk_size (blocks d g) < sz" using g by (auto simp: find_None_iff)
  moreover have gh: "g \<in> hole_set d k" "cls (blk_size (blocks d g)) = c" using g unfolding l(1) [OF b(3)] by simp_all
  then have "unat sz \<le> unat (blk_size (blocks d g))"
    using class_fits [of sz "blk_size (blocks d g)"] b(2) assms(4) hole_size [OF assms(1) gh(1)] by simp
  ultimately show False by (simp add: word_less_nat_alt)
qed

section \<open>New arenas\<close>

lemma the_list_updates [simp]:
  "the_list k (fresh_update f1 d) = the_list k d" "the_list k (mallocs_update f2 d) = the_list k d"
  "the_list k (bo_creates_update f3 d) = the_list k d" "the_list k (bos_update f4 d) = the_list k d"
  "the_list k (arenas_update f5 d) = the_list k d" "the_list k (shader_arenas_update f6 d) = the_list k d"
  "the_list k (capture_replay_arena_vas_update f7 d) = the_list k d" "the_list k (shader_arena_shift_update f8 d) = the_list k d"
  "the_list k (bo_maps_update f9 d) = the_list k d" "the_list k (shader_block_obj_pool_update f10 d) = the_list k d"
  by (cases k; simp)+

lemma if_list_add_fields [simp]:
  "arenas (if_list add_hole o_list b d) = arenas d" "frame (if_list add_hole o_list b d) = frame d"
  "fresh (if_list add_hole o_list b d) = fresh d" "shader_block_obj_pool (if_list add_hole o_list b d) = shader_block_obj_pool d"
  "mallocs (if_list add_hole o_list b d) = mallocs d"
  "blocks (if_list add_hole o_list b d) = (if o_list = None then blocks d else (blocks d)(b := (blocks d b)\<lparr>freelist := None\<rparr>))"
  "the_list k (if_list add_hole o_list b d) =
     (if o_list = Some k then fl_add (cls (blk_size (blocks d b))) b (the_list k d) else the_list k d)"
  by (cases o_list; simp add: if_list_def)+

text \<open>A new arena before its first block is cut off. Its free list already has the whole arena.\<close>

definition created :: "which_list option \<Rightarrow> u32 \<Rightarrow> radv_shader_arena_type \<Rightarrow> u64 \<Rightarrow> nat \<Rightarrow> nat \<Rightarrow> shader_device \<Rightarrow> shader_device \<Rightarrow> bool" where
  "created fl S ty va a h d d' \<longleftrightarrow>
     a = fresh d \<and> Suc a < fresh d' \<and> h < fresh d' \<and> (h \<in> set (shader_block_obj_pool d) \<or> Suc a < h) \<and>
     set (shader_block_obj_pool d') \<subseteq> set (shader_block_obj_pool d) - {h} \<and> distinct (shader_block_obj_pool d') \<and>
     blocks d' = (blocks d)(h := \<lparr>freelist = None, blk_arena = a, blk_offset = 0, blk_size = S\<rparr>) \<and>
     (\<exists>p. arenas d' = (arenas d)(a \<mapsto> \<lparr>entries = [h], arena_bytes = S, arena_bo = Suc a, arena_ptr = p, arena_type = ty\<rparr>)) \<and>
     (\<forall>k. the_list k d' = (if fl = Some k then fl_add (cls S) h (the_list k d) else the_list k d)) \<and>
     (\<exists>v. tables d' = (shader_arenas d, capture_replay_arena_vas d, (bos d)(Suc a \<mapsto> v)) \<and> bo_bytes v = S \<and> bo_va v = va) \<and>
     set (mallocs d') \<subseteq> set (mallocs d)"

definition reliable :: "shader_device \<Rightarrow> bool" where
  "reliable d \<longleftrightarrow> (\<forall>x\<in>set (mallocs d) \<union> set (bo_creates d) \<union> set (bo_maps d). x)"

text \<open>The next buffer object that is mapped can be mapped, or none is mapped.\<close>

definition can_map :: "shader_device \<Rightarrow> bool" where
  "can_map d \<longleftrightarrow> shader_use_invisible_vram d \<or> succeeds (bo_maps d)"

lemma arena_bo_mapped: "arena_bo_flags d replayable AND RADEON_FLAG_NO_CPU_ACCESS = 0 \<longleftrightarrow> \<not> shader_use_invisible_vram d"
  by (simp add: arena_bo_flags_def Let_def RADEON_FLAG_GTT_WC_def RADEON_FLAG_NO_CPU_ACCESS_def RADEON_FLAG_NO_INTERPROCESS_SHARING_def
      RADEON_FLAG_READ_ONLY_def RADEON_FLAG_32BIT_def RADEON_FLAG_PREFER_LOCAL_BO_def RADEON_FLAG_REPLAYABLE_def)

lemma reliable_succeeds: "reliable d \<Longrightarrow> succeeds (mallocs d)" "reliable d \<Longrightarrow> succeeds (bo_creates d)" "reliable d \<Longrightarrow> succeeds (tl (mallocs d))"
  "reliable d \<Longrightarrow> can_map d"
  by (cases "mallocs d"; cases "tl (mallocs d)"; cases "bo_creates d"; cases "bo_maps d"; auto simp: reliable_def succeeds_def can_map_def)+

lemma no_bo_fresh:
  assumes "core_ok d" "tables_ok d" "fresh d \<le> b"
  shows "bos d b = None"
proof (rule ccontr)
  assume "bos d b \<noteq> None"
  then have "b \<in> dom (bos d)" by auto
  then obtain a s ty where "skeleton d a = Some (s, b, ty)" using assms(2) by (auto simp: tables_ok_def)
  then obtain A where "arenas d a = Some A" "arena_bo A = b" by (auto simp: skeleton_def)
  then show False using core_okD(3) [OF assms(1)] assms(3) by fastforce
qed

lemma new_arena_size_updates [simp]:
  "new_arena_size (d\<lparr>mallocs := m, fresh := f\<rparr>) min_size sz = new_arena_size d min_size sz"
  by (simp add: new_arena_size_def)

lemma frame_updates [simp]:
  "frame (arenas_update f1 d) = frame d" "frame (mallocs_update f2 d) = frame d" "frame (fresh_update f3 d) = frame d"
  "frame (shader_block_obj_pool_update f4 d) = frame d" "frame (shader_arena_shift_update f5 d) = frame d"
  by (simp_all add: frame_def)

text \<open>Creating an arena up to the mapping of its buffer object, which is the last step that can fail.\<close>

lemma create_steps:
  assumes core: "core_ok d"
    and good: "succeeds (mallocs d)" "succeeds (bo_creates d)" "shader_block_obj_pool d \<noteq> [] \<or> succeeds (tl (mallocs d))"
  obtains h d4 where
    "radv_create_shader_arena fl min_size sz replayable va d =
       (if shader_use_invisible_vram d then (Some (fresh d), d4)
        else if succeeds (bo_maps d)
        then (Some (fresh d), d4\<lparr>bo_maps := tl (bo_maps d4),
          arenas := (arenas d4)(fresh d \<mapsto> (the (arenas d4 (fresh d)))\<lparr>arena_ptr := True\<rparr>)\<rparr>)
        else arena_fail (fresh d) (Some (Suc (fresh d))) (Some h) (d4\<lparr>bo_maps := tl (bo_maps d4)\<rparr>))"
    "created fl (new_arena_size d min_size sz) (new_arena_type replayable va) va (fresh d) h d d4"
proof -
  let ?S = "new_arena_size d min_size sz" and ?a = "fresh d"
  let ?v = "\<lparr>bo_bytes = ?S, bo_flags = arena_bo_flags d replayable, bo_va = va\<rparr>"
  let ?d2 = "d\<lparr>mallocs := tl (mallocs d), bo_creates := tl (bo_creates d), fresh := Suc (Suc ?a), bos := (bos d)(Suc ?a \<mapsto> ?v)\<rparr>"
  have "core_ok ?d2" using core by (fastforce simp: core_ok_def)
  then obtain h d3 where h: "alloc_block_obj ?d2 = (Some h, d3)" "obtained h ?d2 d3" "mallocs d3 = mallocs ?d2 \<or> mallocs d3 = tl (mallocs ?d2)"
    using good by (cases rule: alloc_block_obj_cases) (auto simp: alloc_block_obj_def malloc_def split: list.splits)
  let ?A = "\<lparr>entries = [h], arena_bytes = ?S, arena_bo = Suc ?a, arena_ptr = False, arena_type = new_arena_type replayable va\<rparr>"
  let ?B = "\<lparr>freelist = None, blk_arena = ?a, blk_offset = 0, blk_size = ?S\<rparr>"
  define d4 where "d4 = if_list add_hole fl h ((set_block h ?B d3)\<lparr>arenas := (arenas d3)(?a \<mapsto> ?A)\<rparr>)"
  have o: "blocks d3 = blocks d" "arenas d3 = arenas d" "\<And>k. the_list k d3 = the_list k d" "frame d3 = frame ?d2"
    "Suc (Suc ?a) \<le> fresh d3" "set (shader_block_obj_pool d3) \<subseteq> set (shader_block_obj_pool d) - {h}"
    "distinct (shader_block_obj_pool d3)" "h < fresh d3" "h \<in> set (shader_block_obj_pool d) \<or> Suc ?a < h"
    using h(2) by (auto simp: obtained_def)
  have f4: "frame d4 = frame ?d2" "arenas d4 = (arenas d)(?a \<mapsto> ?A)" "blocks d4 = (blocks d)(h := ?B)" "fresh d4 = fresh d3"
    "shader_block_obj_pool d4 = shader_block_obj_pool d3" "mallocs d4 = mallocs d3"
    "\<And>k. the_list k d4 = (if fl = Some k then fl_add (cls ?S) h (the_list k d) else the_list k d)"
    using o(1-4) by (auto simp: d4_def)
  have m: "bo_maps d4 = bo_maps d" using f4(1) by (simp add: frame_def)
  have fl: "arena_bo_flags (d\<lparr>mallocs := x, fresh := y\<rparr>) replayable = arena_bo_flags d replayable" for x y
    by (simp add: arena_bo_flags_def Let_def)
  have "radv_create_shader_arena fl min_size sz replayable va d =
     (if arena_bo_flags d replayable AND RADEON_FLAG_NO_CPU_ACCESS = 0
      then if succeeds (bo_maps d4)
           then (Some ?a, d4\<lparr>bo_maps := tl (bo_maps d4), arenas := (arenas d4)(?a \<mapsto> ?A\<lparr>arena_ptr := True\<rparr>)\<rparr>)
           else arena_fail ?a (Some (Suc ?a)) (Some h) (d4\<lparr>bo_maps := tl (bo_maps d4)\<rparr>)
      else (Some ?a, d4))"
    using good(1,2) h(1) unfolding d4_def
    by (simp add: radv_create_shader_arena_def malloc_def radv_bo_create_def Let_def fl)
  then have eq: "radv_create_shader_arena fl min_size sz replayable va d =
     (if shader_use_invisible_vram d then (Some ?a, d4)
      else if succeeds (bo_maps d)
      then (Some ?a, d4\<lparr>bo_maps := tl (bo_maps d4), arenas := (arenas d4)(?a \<mapsto> (the (arenas d4 ?a))\<lparr>arena_ptr := True\<rparr>)\<rparr>)
      else arena_fail ?a (Some (Suc ?a)) (Some h) (d4\<lparr>bo_maps := tl (bo_maps d4)\<rparr>))"
    unfolding arena_bo_mapped m by (simp add: f4(2))
  have "set (mallocs d3) \<subseteq> set (mallocs d)"
    using h(3) by (cases "mallocs d"; cases "tl (mallocs d)"; auto)
  then have "created fl ?S (new_arena_type replayable va) va ?a h d d4"
    using o f4 unfolding created_def by (auto simp: frame_def tables_def)
  from that [OF eq this] show thesis .
qed

lemma created_mapped:
  "created fl S ty va a h d d4 \<Longrightarrow>
   created fl S ty va a h d (d4\<lparr>bo_maps := m, arenas := (arenas d4)(a \<mapsto> (the (arenas d4 a))\<lparr>arena_ptr := True\<rparr>)\<rparr>)"
  by (auto simp: created_def tables_def)

text \<open>Without a free list a failed mapping leaves nothing behind.\<close>

lemma unmapped_kept:
  assumes core: "core_ok d" and tabs: "tables_ok d" and cr: "created None S ty va (fresh d) h d d4"
  shows "\<exists>d'. arena_fail (fresh d) (Some (Suc (fresh d))) (Some h) (d4\<lparr>bo_maps := m\<rparr>) = (None, d') \<and> kept d d'"
proof -
  obtain p v where c: "Suc (fresh d) < fresh d4" "h < fresh d4" "h \<in> set (shader_block_obj_pool d) \<or> Suc (fresh d) < h"
    "set (shader_block_obj_pool d4) \<subseteq> set (shader_block_obj_pool d) - {h}" "distinct (shader_block_obj_pool d4)"
    "blocks d4 = (blocks d)(h := \<lparr>freelist = None, blk_arena = fresh d, blk_offset = 0, blk_size = S\<rparr>)"
    "arenas d4 = (arenas d)(fresh d \<mapsto> \<lparr>entries = [h], arena_bytes = S, arena_bo = Suc (fresh d), arena_ptr = p, arena_type = ty\<rparr>)"
    "\<And>k. the_list k d4 = the_list k d" "shader_arenas d4 = shader_arenas d"
    "capture_replay_arena_vas d4 = capture_replay_arena_vas d" "bos d4 = (bos d)(Suc (fresh d) \<mapsto> v)"
    using cr by (auto simp: created_def tables_def)
  have n: "arenas d (fresh d) = None" by (rule no_arena_fresh [OF core])
  have nb: "bos d (Suc (fresh d)) = None" by (rule no_bo_fresh [OF core tabs]) simp
  have pool: "set (shader_block_obj_pool d) \<subseteq> {..<fresh d}" using core by (simp add: core_ok_def)
  define d' where "d' = snd (arena_fail (fresh d) (Some (Suc (fresh d))) (Some h) (d4\<lparr>bo_maps := m\<rparr>))"
  have e: "arena_fail (fresh d) (Some (Suc (fresh d))) (Some h) (d4\<lparr>bo_maps := m\<rparr>) = (None, d')"
    by (simp add: d'_def arena_fail_def Let_def)
  have f: "blocks d' = blocks d4" "arenas d' = arenas d" "fresh d' = fresh d4" "shader_block_obj_pool d' = h # shader_block_obj_pool d4"
    "\<And>k. the_list k d' = the_list k d" "tables d' = tables d"
    using n nb c(6-11) by (simp_all add: d'_def arena_fail_def radv_bo_destroy_def Let_def tables_def fun_upd_idem)
  have "local_change (fresh d) None d d'"
    unfolding local_change_def using c(1-6) n pool f by (auto simp: fun_upd_idem old_blocks_def)
  then show ?thesis using e f(5,6) by (auto simp: kept_def)
qed

lemma create_cases:
  assumes core: "core_ok d" and tabs: "tables_ok d" and map: "fl = None \<or> can_map d"
  obtains (made) a h d' where "radv_create_shader_arena fl min_size sz replayable va d = (Some a, d')"
    "created fl (new_arena_size d min_size sz) (new_arena_type replayable va) va a h d d'"
  | (failed) d' where "radv_create_shader_arena fl min_size sz replayable va d = (None, d')" "kept d d'" "\<not> reliable d"
proof -
  let ?c = "radv_create_shader_arena fl min_size sz replayable va d"
  have na: "arenas d (fresh d) = None" by (rule no_arena_fresh [OF core])
  have nb: "bos d (Suc (fresh d)) = None" by (rule no_bo_fresh [OF core tabs]) simp
  have p: "distinct (shader_block_obj_pool d)" "set (shader_block_obj_pool d) \<subseteq> {..<fresh d}" using core by (simp_all add: core_ok_def)
  note defs = radv_create_shader_arena_def malloc_def radv_bo_create_def arena_fail_def alloc_block_obj_def Let_def radv_bo_destroy_def
    kept_def local_change_def tables_def fun_upd_idem old_blocks_def
  consider "\<not> succeeds (mallocs d)" | "succeeds (mallocs d)" "\<not> succeeds (bo_creates d)"
    | "succeeds (mallocs d)" "succeeds (bo_creates d)" "shader_block_obj_pool d = []" "\<not> succeeds (tl (mallocs d))"
    | "succeeds (mallocs d)" "succeeds (bo_creates d)" "shader_block_obj_pool d \<noteq> [] \<or> succeeds (tl (mallocs d))" by blast
  then show thesis
  proof cases
    case 1
    then have "kept d (snd ?c) \<and> fst ?c = None" using na p by (auto simp: defs)
    then show thesis using failed [of "snd ?c"] reliable_succeeds 1 by (metis prod.collapse)
  next
    case 2
    then have "kept d (snd ?c) \<and> fst ?c = None" using na p by (auto simp: defs)
    then show thesis using failed [of "snd ?c"] reliable_succeeds 2 by (metis prod.collapse)
  next
    case 3
    then have "kept d (snd ?c) \<and> fst ?c = None" using na nb p by (auto simp: defs)
    then show thesis using failed [of "snd ?c"] reliable_succeeds 3 by (metis prod.collapse)
  next
    case 4
    obtain h d4 where s: "?c = (if shader_use_invisible_vram d then (Some (fresh d), d4)
        else if succeeds (bo_maps d)
        then (Some (fresh d), d4\<lparr>bo_maps := tl (bo_maps d4),
          arenas := (arenas d4)(fresh d \<mapsto> (the (arenas d4 (fresh d)))\<lparr>arena_ptr := True\<rparr>)\<rparr>)
        else arena_fail (fresh d) (Some (Suc (fresh d))) (Some h) (d4\<lparr>bo_maps := tl (bo_maps d4)\<rparr>))"
      "created fl (new_arena_size d min_size sz) (new_arena_type replayable va) va (fresh d) h d d4"
      by (rule create_steps [OF core 4])
    show thesis
    proof (cases "can_map d")
      case True
      show thesis
      proof (cases "shader_use_invisible_vram d")
        case True
        then show thesis using made [OF _ s(2)] s(1) by simp
      next
        case False
        with True have "succeeds (bo_maps d)" by (simp add: can_map_def)
        then show thesis using made [OF _ created_mapped [OF s(2), of "tl (bo_maps d4)"]] s(1) False by simp
      qed
    next
      case False
      then have "fl = None" using map by simp
      from unmapped_kept [OF core tabs s(2) [unfolded this], of "tl (bo_maps d4)"] False s(1)
      show thesis using failed reliable_succeeds(4) by (auto simp: can_map_def)
    qed
  qed
qed

lemma new_arena_size_0:
  assumes "256 dvd unat sz"
  shows "sz \<le> new_arena_size d sz 0" "262144 \<le> unat (new_arena_size d sz 0)" "256 dvd unat (new_arena_size d sz 0)"
proof -
  let ?n = "unat (min 5 (shader_arena_shift d))"
  have "min 5 (shader_arena_shift d) \<le> 5" by simp
  then have n: "?n \<le> 5" by (simp only: word_le_nat_alt) simp
  let ?p = "push_bit ?n (256 * 1024) :: u32"
  have "(2::nat) ^ ?n \<le> 2 ^ 5" using n by (intro power_increasing) simp_all
  then have b: "(2::nat) ^ ?n \<le> 32" by simp
  have "unat ?p = unat (262144 :: u32) * unat (2 ^ ?n :: u32)"
    using b n unat_pow2 [of ?n, where ?'a = 32] unat_mult_no_wrap [of "262144 :: u32" "2 ^ ?n"] by (simp add: push_bit_eq_mult)
  then have u: "unat ?p = 262144 * 2 ^ ?n" using unat_pow2 [of ?n, where ?'a = 32] n by simp
  have e: "new_arena_size d sz 0 = max ?p sz"
    by (simp add: new_arena_size_def RADV_SHADER_ALLOC_MAX_ARENA_SIZE_SHIFT_def RADV_SHADER_ALLOC_MIN_ARENA_SIZE_def)
  show "sz \<le> new_arena_size d sz 0" unfolding e by simp
  have "(256 :: nat) dvd 262144 * 2 ^ ?n" by (rule dvd_mult2) simp
  then show "256 dvd unat (new_arena_size d sz 0)" unfolding e using u assms by (auto simp: max_def)
  have "262144 * (1::nat) \<le> 262144 * 2 ^ ?n" by (intro mult_le_mono2) simp
  then have "262144 \<le> unat ?p" using u by simp
  moreover have "unat ?p \<le> unat (max ?p sz)" by (simp add: max_def word_le_nat_alt)
  ultimately show "262144 \<le> unat (new_arena_size d sz 0)" unfolding e by linarith
qed

text \<open>A new arena in the tables.\<close>

lemma tables_ok_add:
  assumes "tables_ok d" "skeleton d' = (skeleton d)(a \<mapsto> (s, b, ty))" "shader_arenas d' = shader_arenas d @ [a]"
    "bos d' = (bos d)(b \<mapsto> v)" "bo_bytes v = s" "skeleton d a = None" "bos d b = None"
    "if ty = RADV_SHADER_ARENA_REPLAYED
     then \<exists>T. capture_replay_arena_vas d = Some T \<and> map_of T (bo_va v) = None \<and> capture_replay_arena_vas d' = Some ((bo_va v, a) # T)
     else capture_replay_arena_vas d' = capture_replay_arena_vas d"
  shows "tables_ok d'"
proof -
  have sk: "skeleton d' x = (if x = a then Some (s, b, ty) else skeleton d x)" for x using assms(2) by simp
  have bs: "bos d' x = (if x = b then Some v else bos d x)" for x using assms(4) by simp
  have t: "distinct (shader_arenas d)" "set (shader_arenas d) = dom (skeleton d)"
    "\<And>a s b ty. skeleton d a = Some (s, b, ty) \<Longrightarrow> \<exists>v. bos d b = Some v \<and> bo_bytes v = s"
    "\<And>a s ty a' s' ty' b. skeleton d a = Some (s, b, ty) \<Longrightarrow> skeleton d a' = Some (s', b, ty') \<Longrightarrow> a = a'"
    "dom (bos d) = {b. \<exists>a s ty. skeleton d a = Some (s, b, ty)}"
    using assms(1) unfolding tables_ok_def by blast+
  have nb: "skeleton d x \<noteq> Some (s', b, ty')" for x s' ty' using t(3) assms(7) by fastforce
  have 1: "distinct (shader_arenas d')" "set (shader_arenas d') = dom (skeleton d')"
    using t(1,2) assms(3,6) by (auto simp: sk dom_def)
  have 2: "\<exists>v. bos d' y = Some v \<and> bo_bytes v = s'" if "skeleton d' x = Some (s', y, ty')" for x s' y ty'
    using that t(3) [of x] nb assms(5) by (auto simp: sk bs split: if_splits)
  have 3: "x = x'" if "skeleton d' x = Some (s', y, ty')" "skeleton d' x' = Some (s'', y, ty'')" for x s' y ty' x' s'' ty''
    using that t(4) nb by (auto simp: sk split: if_splits)
  have 4: "dom (bos d') = {b. \<exists>a s ty. skeleton d' a = Some (s, b, ty)}"
  proof -
    have "dom (bos d') = insert b (dom (bos d))" using assms(4) by simp
    moreover have "(\<exists>a s ty. skeleton d' a = Some (s, x, ty)) \<longleftrightarrow> x = b \<or> (\<exists>a s ty. skeleton d a = Some (s, x, ty))" for x
    proof (cases "x = b")
      case True
      have "skeleton d' a = Some (s, b, ty)" by (simp add: sk)
      then show ?thesis using True by blast
    next
      case False
      then have "skeleton d' y = Some (s', x, ty') \<longleftrightarrow> skeleton d y = Some (s', x, ty')" for y s' ty' using assms(6) by (auto simp: sk)
      then show ?thesis using False by simp
    qed
    ultimately show ?thesis unfolding t(5) by auto
  qed
  have 5: "case capture_replay_arena_vas d' of
        None \<Rightarrow> \<forall>a s b. skeleton d' a \<noteq> Some (s, b, RADV_SHADER_ARENA_REPLAYED)
      | Some T \<Rightarrow>
          distinct (map fst T) \<and> distinct (map snd T) \<and>
          (\<forall>va a. (va, a) \<in> set T \<longrightarrow>
             (\<exists>s b v. skeleton d' a = Some (s, b, RADV_SHADER_ARENA_REPLAYED) \<and> bos d' b = Some v \<and> bo_va v = va)) \<and>
          (\<forall>a s b. skeleton d' a = Some (s, b, RADV_SHADER_ARENA_REPLAYED) \<longrightarrow> a \<in> snd ` set T)"
  proof (cases "capture_replay_arena_vas d")
    case None
    then have "\<forall>a s b. skeleton d a \<noteq> Some (s, b, RADV_SHADER_ARENA_REPLAYED)" using assms(1) unfolding tables_ok_def by simp
    then show ?thesis using None assms(8) by (auto simp: sk split: if_splits)
  next
    case (Some T)
    have T: "distinct (map fst T)" "distinct (map snd T)"
      "\<And>va a. (va, a) \<in> set T \<Longrightarrow> \<exists>s b v. skeleton d a = Some (s, b, RADV_SHADER_ARENA_REPLAYED) \<and> bos d b = Some v \<and> bo_va v = va"
      "\<And>a s b. skeleton d a = Some (s, b, RADV_SHADER_ARENA_REPLAYED) \<Longrightarrow> a \<in> snd ` set T"
      using assms(1) Some unfolding tables_ok_def by simp_all
    have na: "(va, x) \<in> set T \<Longrightarrow> x \<noteq> a" for va x using T(3) assms(6) by fastforce
    have old: "\<exists>s b v. skeleton d' x = Some (s, b, RADV_SHADER_ARENA_REPLAYED) \<and> bos d' b = Some v \<and> bo_va v = va"
      if "(va, x) \<in> set T" for va x
      using T(3) [OF that] na [OF that] nb by (fastforce simp: sk bs)
    show ?thesis
    proof (cases "ty = RADV_SHADER_ARENA_REPLAYED")
      case True
      then obtain T' where T': "T' = (bo_va v, a) # T" "capture_replay_arena_vas d' = Some T'" "map_of T (bo_va v) = None"
        using assms(8) Some by auto
      have "bo_va v \<notin> fst ` set T" using T'(3) by (simp add: map_of_eq_None_iff)
      moreover have "a \<notin> snd ` set T" using na by force
      ultimately show ?thesis using T T'(1,2) old True by (auto simp: sk bs split: if_splits)
    next
      case False
      then show ?thesis using T Some assms(8) old by (auto simp: sk split: if_splits)
    qed
  qed
  show ?thesis unfolding tables_ok_def using 1 2 3 4 5 by blast
qed

lemma alloc_obj_pool:
  assumes "distinct (shader_block_obj_pool d)" "set (shader_block_obj_pool d) \<subseteq> {..<fresh d}"
  shows "(\<exists>b d'. alloc_block_obj d = (Some b, d') \<and> obtained b d d') \<or> (\<exists>d'. alloc_block_obj d = (None, d') \<and> \<not> succeeds (mallocs d))"
  using assms by (auto simp: alloc_block_obj_def malloc_def obtained_def frame_def split: list.splits)

lemma new_arena_lists:
  assumes l: "free_list_ok B H l" and new: "h \<notin> H" and S: "262144 \<le> unat S" "sz \<le> S" and B: "\<forall>x\<in>H. B' x = B x"
  shows "free_list_ok B' H (fl_remove (cls S) h (fl_add (cls S) h l))"
    and "r \<notin> H \<Longrightarrow> r \<noteq> h \<Longrightarrow> blk_size (B' r) = S - sz \<Longrightarrow>
      free_list_ok B' (insert r H) (fl_remove (cls sz) h (fl_add (cls (S - sz)) r (fl_add (cls S) h l)))"
proof -
  let ?B = "B'(h := (B h)\<lparr>blk_size := S\<rparr>)"
  have S7: "cls S = 7" using S(1) by (intro cls_large) simp
  have "free_list_ok ?B H l" using l new B by (subst free_list_ok_cong [where B = B]) auto
  from fl_add_ok [OF this new, of "cls S"] have h: "free_list_ok ?B (insert h H) (fl_add (cls S) h l)" by simp
  from fl_remove_ok [OF h, of h "cls S"] new have "free_list_ok ?B H (fl_remove (cls S) h (fl_add (cls S) h l))" by simp
  then show "free_list_ok B' H (fl_remove (cls S) h (fl_add (cls S) h l))"
    using new by (subst free_list_ok_cong [where B = ?B]) auto
  assume r: "r \<notin> H" "r \<noteq> h" "blk_size (B' r) = S - sz"
  have "unat (S - sz) = unat S - unat sz" using S(2) by (simp add: unat_sub_no_wrap word_le_nat_alt)
  then have big: "cls sz = 7 \<or> cls (S - sz) = 7"
    using S cls_large [of sz] cls_large [of "S - sz"] by linarith
  have "r \<notin> insert h H" using r by simp
  from fl_add_ok [OF h this, of "cls (S - sz)"] r
  have 2: "free_list_ok ?B (insert r (insert h H)) (fl_add (cls (S - sz)) r (fl_add (cls S) h l))" by simp
  have "free_list_ok ?B (insert r (insert h H) - {h}) (fl_remove (cls sz) h (fl_add (cls (S - sz)) r (fl_add (cls S) h l)))"
  proof (rule fl_remove_ok [OF 2])
    show "cls sz = cls (blk_size (?B h)) \<or> (\<exists>x\<in>insert r (insert h H) - {h}. cls (blk_size (?B x)) = cls (blk_size (?B h)))"
      using big S7 r by (cases "cls sz = 7") (simp, force)
  qed simp_all
  moreover have "insert r (insert h H) - {h} = insert r H" using new r by auto
  ultimately show "free_list_ok B' (insert r H) (fl_remove (cls sz) h (fl_add (cls (S - sz)) r (fl_add (cls S) h l)))"
    using new r by (subst free_list_ok_cong [where B = ?B]) auto
qed

lemma new_arena_ok:
  assumes ok: "arenas_ok d" and a: "a = fresh d" "Suc a < fresh d'"
    and objs: "\<forall>x\<in>set (entries A). (x \<in> set (shader_block_obj_pool d) \<or> Suc a < x) \<and> x < fresh d' \<and> x \<notin> set (shader_block_obj_pool d')"
    and pool: "set (shader_block_obj_pool d') \<subseteq> set (shader_block_obj_pool d)" "distinct (shader_block_obj_pool d')"
    and blk: "\<forall>x. x \<notin> set (entries A) \<longrightarrow> blocks d' x = blocks d x"
    and A: "arenas d' = (arenas d)(a \<mapsto> A)" "arena_bo A = Suc a" "arena_ok (blocks d') a A"
    and tab: "shader_arenas d' = shader_arenas d @ [a]" "bos d' = (bos d)(Suc a \<mapsto> v)" "bo_bytes v = arena_bytes A"
      "if arena_type A = RADV_SHADER_ARENA_REPLAYED
       then \<exists>T. capture_replay_arena_vas d = Some T \<and> map_of T (bo_va v) = None \<and> capture_replay_arena_vas d' = Some ((bo_va v, a) # T)
       else capture_replay_arena_vas d' = capture_replay_arena_vas d"
    and lists: "\<And>k. free_list_ok (blocks d')
      (hole_set d k \<union> {b \<in> set (entries A). is_hole (blocks d' b) \<and> list_of_type (arena_type A) = Some k}) (the_list k d')"
  shows "arenas_ok d'" "alloc_set d' = alloc_set d \<union> {b \<in> set (entries A). \<not> is_hole (blocks d' b)}"
    "\<forall>x\<in>alloc_set d. blocks d' x = blocks d x"
proof -
  have core: "core_ok d" and tables: "tables_ok d" using ok by (simp_all add: arenas_ok_def)
  have none: "arenas d a = None" using no_arena_fresh [OF core] a(1) by simp
  have old: "old_blocks d a = {}" using none by (simp add: old_blocks_def)
  have "set (shader_block_obj_pool d) \<subseteq> {..<fresh d}" using core by (simp add: core_ok_def)
  moreover have n: "x \<notin> set (entries A)" if "x < fresh d" "x \<notin> set (shader_block_obj_pool d)" for x
    using objs a(1) that by fastforce
  ultimately have ch: "local_change a (Some A) d d'"
    unfolding local_change_def old using A a pool objs blk by fastforce
  have "hole_set d' k = hole_set d k \<union> {b \<in> set (entries A). is_hole (blocks d' b) \<and> list_of_type (arena_type A) = Some k}" for k
    using hole_set_change [OF core ch, of k] by (auto simp: old)
  then have "lists_ok d'" using lists by (simp add: lists_ok_def)
  moreover have "skeleton d' = (skeleton d)(a \<mapsto> (arena_bytes A, Suc a, arena_type A))" "skeleton d a = None"
    using A(1,2) none by (auto simp: skeleton_def fun_eq_iff)
  then have "tables_ok d'"
    using tables_ok_add [OF tables _ tab(1,2,3) _ _ tab(4)] no_bo_fresh [OF core tables, of "Suc a"] a(1) by simp
  ultimately show "arenas_ok d'" using core_change [OF core ch] by (simp add: arenas_ok_def)
  show "alloc_set d' = alloc_set d \<union> {b \<in> set (entries A). \<not> is_hole (blocks d' b)}" "\<forall>x\<in>alloc_set d. blocks d' x = blocks d x"
    using alloc_set_change [OF core ch] by (auto simp: old)
qed

text \<open>The new arena with its first block at the front.\<close>

lemma first_block_ok:
  assumes ok: "arenas_ok d" and cr: "created (Some k) S ty 0 a h d d1" and ty: "list_of_type ty = Some k"
    and S: "262144 \<le> unat S" "256 dvd unat S" and sz: "sz \<le> S" "sz \<noteq> 0" "256 dvd unat sz"
    and zs: "if sz = S then zs = [h] \<and> d2 = d1 else zs = [h, r] \<and> obtained r d1 d2"
    and d': "blocks d' = (\<lambda>x. if x = h then \<lparr>freelist = Some ptr, blk_arena = a, blk_offset = 0, blk_size = sz\<rparr>
        else if x \<in> set zs then \<lparr>freelist = None, blk_arena = a, blk_offset = sz, blk_size = S - sz\<rparr> else blocks d x)"
      "arenas d' = (arenas d)(a \<mapsto> (the (arenas d1 a))\<lparr>entries := zs\<rparr>)" "fresh d' = fresh d2"
      "shader_block_obj_pool d' = shader_block_obj_pool d2" "shader_arenas d' = shader_arenas d @ [a]"
      "bos d' = bos d1" "capture_replay_arena_vas d' = capture_replay_arena_vas d1"
      "\<And>k'. the_list k' d' = (if k' = k then fl_remove (cls sz) h
         (if sz = S then the_list k d1 else fl_add (cls (S - sz)) r (the_list k d1)) else the_list k' d)"
  shows "arenas_ok d'" "allocated h sz ptr d d'"
proof -
  have core: "core_ok d" and lists: "lists_ok d" using ok by (simp_all add: arenas_ok_def)
  obtain p v where c: "a = fresh d" "Suc a < fresh d1" "h < fresh d1" "h \<in> set (shader_block_obj_pool d) \<or> Suc a < h"
    "set (shader_block_obj_pool d1) \<subseteq> set (shader_block_obj_pool d) - {h}"
    "arenas d1 a = Some \<lparr>entries = [h], arena_bytes = S, arena_bo = Suc a, arena_ptr = p, arena_type = ty\<rparr>"
    "the_list k d1 = fl_add (cls S) h (the_list k d)" "bos d1 = (bos d)(Suc a \<mapsto> v)" "bo_bytes v = S"
    "capture_replay_arena_vas d1 = capture_replay_arena_vas d" "distinct (shader_block_obj_pool d1)"
    using cr by (auto simp: created_def tables_def)
  have o: "r \<noteq> h" "r \<in> set (shader_block_obj_pool d) \<or> Suc a < r" "r < fresh d2" "r \<notin> set (shader_block_obj_pool d2)" if "sz \<noteq> S"
    using zs c that by (auto simp: obtained_def)
  have p2: "fresh d1 \<le> fresh d2" "set (shader_block_obj_pool d2) \<subseteq> set (shader_block_obj_pool d1)" "distinct (shader_block_obj_pool d2)"
    using zs c(11) by (auto simp: obtained_def split: if_splits)
  let ?A = "\<lparr>entries = zs, arena_bytes = S, arena_bo = Suc a, arena_ptr = p, arena_type = ty\<rparr>"
  have le: "unat sz \<le> unat S" "unat (S - sz) = unat S - unat sz" using sz(1) by (simp_all add: word_le_nat_alt unat_sub_no_wrap)
  have aok: "arena_ok (blocks d') a ?A"
    using zs o(1) sz S(2) le by (auto simp: arena_ok_def blocks_ok_def d'(1) dvd_diff_nat split: if_splits)
  have hn: "h \<notin> hole_set d k'" "h \<notin> alloc_set d" for k'
    using c(1,4) core_okD(4,5) [OF core] by (fastforce simp: hole_set_def alloc_set_def)+
  have rn: "r \<notin> hole_set d k'" "r \<notin> alloc_set d" if "sz \<noteq> S" for k'
    using o(2) [OF that] c(1) core_okD(4,5) [OF core] by (fastforce simp: hole_set_def alloc_set_def)+
  have lk: "free_list_ok (blocks d) (hole_set d k') (the_list k' d)" for k' using lists by (simp add: lists_ok_def)
  have fl: "free_list_ok (blocks d') (hole_set d k' \<union> {b \<in> set (entries ?A). is_hole (blocks d' b) \<and> list_of_type (arena_type ?A) = Some k'})
      (the_list k' d')" for k'
  proof (cases "k' = k")
    case True
    have same: "\<forall>x\<in>hole_set d k. blocks d' x = blocks d x" using hn(1) rn(1) zs by (auto simp: d'(1) split: if_splits)
    note nl = new_arena_lists [OF lk [of k] hn(1) S(1) sz(1) same]
    show ?thesis
    proof (cases "sz = S")
      case True
      then have e: "{b \<in> set (entries ?A). is_hole (blocks d' b) \<and> list_of_type (arena_type ?A) = Some k} = {}" using zs by (auto simp: d'(1))
      show ?thesis using nl(1) True c(7) unfolding \<open>k' = k\<close> e by (simp add: d'(8))
    next
      case False
      then have e: "{b \<in> set (entries ?A). is_hole (blocks d' b) \<and> list_of_type (arena_type ?A) = Some k} = {r}" using zs ty o(1) by (auto simp: d'(1))
      show ?thesis using nl(2) [OF rn(1) o(1)] False zs o(1) c(7) unfolding \<open>k' = k\<close> e by (simp add: d'(1,8))
    qed
  next
    case False
    have "\<forall>x\<in>hole_set d k'. blocks d' x = blocks d x" using hn(1) rn(1) zs by (auto simp: d'(1) split: if_splits)
    then show ?thesis using False ty lk [of k'] free_list_ok_cong [of "hole_set d k'" "blocks d'" "blocks d"] by (simp add: d'(8))
  qed
  have n: "Suc a < fresh d'" "bo_bytes v = arena_bytes ?A" "arenas d' = (arenas d)(a \<mapsto> ?A)" "bos d' = (bos d)(Suc a \<mapsto> v)"
    "set (shader_block_obj_pool d') \<subseteq> set (shader_block_obj_pool d)" "distinct (shader_block_obj_pool d')"
    using c p2 by (auto simp: d')
  have objs: "\<forall>x\<in>set (entries ?A). (x \<in> set (shader_block_obj_pool d) \<or> Suc a < x) \<and> x < fresh d' \<and> x \<notin> set (shader_block_obj_pool d')"
    using zs c(3,4,5) o p2 by (auto simp: d' split: if_splits)
  have blk: "\<forall>x. x \<notin> set (entries ?A) \<longrightarrow> blocks d' x = blocks d x" using zs by (auto simp: d'(1) split: if_splits)
  have rep: "if arena_type ?A = RADV_SHADER_ARENA_REPLAYED
       then \<exists>T. capture_replay_arena_vas d = Some T \<and> map_of T (bo_va v) = None \<and> capture_replay_arena_vas d' = Some ((bo_va v, a) # T)
       else capture_replay_arena_vas d' = capture_replay_arena_vas d" using ty c(10) by (simp add: d'(7))
  note res = new_arena_ok [OF ok c(1) n(1) objs n(5,6) blk n(3) _ aok d'(5) n(4,2) rep fl]
  show "arenas_ok d'" by (rule res(1)) simp
  have "alloc_set d' = alloc_set d \<union> {b \<in> set zs. \<not> is_hole (blocks d' b)}" "\<forall>x\<in>alloc_set d. blocks d' x = blocks d x"
    using res(2,3) by simp_all
  moreover have "{b \<in> set zs. \<not> is_hole (blocks d' b)} = {h}" using zs by (auto simp: d'(1) split: if_splits)
  ultimately show "allocated h sz ptr d d'" using hn(2) by (auto simp: allocated_def d'(1))
qed

lemma first_block_exact:
  assumes ok: "arenas_ok d" and cr: "created (Some k) S ty 0 a h d d1" and ty: "list_of_type ty = Some k"
    and S: "262144 \<le> unat S" "256 dvd unat S" "S \<noteq> 0"
    and d': "d' = (set_block h ((blocks (remove_hole k h d1) h)\<lparr>freelist := Some ptr\<rparr>) (remove_hole k h d1))
      \<lparr>shader_arena_shift := shift, shader_arenas := shader_arenas (remove_hole k h d1) @ [a]\<rparr>"
  shows "arenas_ok d'" "allocated h S ptr d d'"
proof -
  have c: "blocks d1 = (blocks d)(h := \<lparr>freelist = None, blk_arena = a, blk_offset = 0, blk_size = S\<rparr>)"
    "\<And>k'. the_list k' d1 = (if k' = k then fl_add (cls S) h (the_list k d) else the_list k' d)"
    "shader_arenas d1 = shader_arenas d" "\<exists>A. arenas d1 = (arenas d)(a \<mapsto> A) \<and> entries A = [h]"
    using cr by (auto simp: created_def tables_def)
  then obtain A where A: "arenas d1 = (arenas d)(a \<mapsto> A)" "entries A = [h]" by blast
  then have e: "A\<lparr>entries := [h]\<rparr> = A" by (metis radv_shader_arena.surjective radv_shader_arena.update_convs(1) radv_shader_arena.select_convs(1))
  show "arenas_ok d'" "allocated h S ptr d d'"
    by (rule first_block_ok [OF ok cr ty S(1,2) _ S(3) _, where zs = "[h]" and ?d2.0 = d1 and r = 0];
      use S c A e in \<open>auto simp: d' fun_eq_iff\<close>)+
qed

lemma first_block_split:
  assumes ok: "arenas_ok d" and cr: "created (Some k) S ty 0 a h d d1" and ty: "list_of_type ty = Some k"
    and S: "262144 \<le> unat S" "256 dvd unat S" and sz: "sz < S" "sz \<noteq> 0" "256 dvd unat sz" and r: "obtained r d1 d2"
    and d3: "d3 = insert_link h None (Some r) (Some k) (add_hole k r (set_block r \<lparr>freelist = None, blk_arena = a, blk_offset = sz, blk_size = S - sz\<rparr> d2))"
    and d': "d' = (set_block h ((blocks d3 h)\<lparr>freelist := Some ptr\<rparr>) d3)\<lparr>shader_arena_shift := shift, shader_arenas := shader_arenas d3 @ [a]\<rparr>"
  shows "arenas_ok d'" "allocated h sz ptr d d'"
proof -
  have c: "blocks d1 = (blocks d)(h := \<lparr>freelist = None, blk_arena = a, blk_offset = 0, blk_size = S\<rparr>)"
    "\<And>k'. the_list k' d1 = (if k' = k then fl_add (cls S) h (the_list k d) else the_list k' d)"
    "shader_arenas d1 = shader_arenas d" "\<exists>A. arenas d1 = (arenas d)(a \<mapsto> A) \<and> entries A = [h]"
    "h < fresh d1" "h \<notin> set (shader_block_obj_pool d1)"
    using cr by (auto simp: created_def tables_def)
  then obtain A where A: "arenas d1 = (arenas d)(a \<mapsto> A)" "entries A = [h]" by blast
  have o: "blocks d2 = blocks d1" "arenas d2 = arenas d1" "\<And>k. the_list k d2 = the_list k d1" "frame d2 = frame d1" "r \<noteq> h"
    using r c(5,6) by (auto simp: obtained_def)
  note f2 = frameD [OF o(4)]
  have b: "blk_size (blocks d2 h) = S" "blk_arena (blocks d2 h) = a" using c(1) o(1) by simp_all
  have "sz \<noteq> S" using sz(1) by auto
  have B: "blocks d3 = (blocks d)(h := \<lparr>freelist = Some 0, blk_arena = a, blk_offset = 0, blk_size = sz\<rparr>,
      r := \<lparr>freelist = None, blk_arena = a, blk_offset = sz, blk_size = S - sz\<rparr>)"
    using o(5) by (simp add: d3 insert_link_def if_list_def Let_def o(1) c(1) fun_eq_iff)
  have R: "arenas d3 = (arenas d)(a \<mapsto> A\<lparr>entries := [h, r]\<rparr>)"
    using o(5) A by (simp add: d3 insert_link_def if_list_def Let_def o(1,2) c(1))
  have L: "the_list k' d3 = (if k' = k then fl_remove (cls sz) h (fl_add (cls (S - sz)) r (the_list k d1)) else the_list k' d)" for k'
    using o(5) by (simp add: d3 insert_link_def if_list_def Let_def o(1,3) c(1,2))
  have F: "frame d3 = frame d1" "fresh d3 = fresh d2" "shader_block_obj_pool d3 = shader_block_obj_pool d2"
    using o(4) by (simp_all add: d3 insert_link_def if_list_def Let_def)
  note f3 = frameD [OF F(1)]
  show "arenas_ok d'" "allocated h sz ptr d d'"
    by (rule first_block_ok [OF ok cr ty S _ sz(2,3), where zs = "[h, r]" and ?d2.0 = d2 and r = r];
      use sz(1) \<open>sz \<noteq> S\<close> r A o(5) c f3 in \<open>auto simp: d' B R L F fun_eq_iff\<close>)+
qed

lemma use_new_arena_cases:
  assumes ok: "arenas_ok d" and map: "can_map d" and k: "k = (if replayable then Capture_list else Shader_list)"
    and sz: "sz \<noteq> 0" "256 dvd unat sz"
  obtains (made) b d' where "use_new_arena k sz replayable ptr d = Some (Some b, d')" "arenas_ok d'" "allocated b sz ptr d d'"
  | (failed) d' where "use_new_arena k sz replayable ptr d = Some (None, d')" "kept d d'" "\<not> reliable d"
  | (crash) "use_new_arena k sz replayable ptr d = None" "\<not> reliable d"
proof -
  have core: "core_ok d" "tables_ok d" using ok by (simp_all add: arenas_ok_def)
  let ?S = "new_arena_size d sz 0" and ?ty = "new_arena_type replayable 0"
  note S = new_arena_size_0 [OF sz(2), of d]
  have ty: "list_of_type ?ty = Some k" using k by (simp add: new_arena_type_def list_of_type_def)
  from core disjI2 [OF map] show thesis
  proof (cases rule: create_cases [where fl = "Some k" and min_size = sz and sz = 0 and replayable = replayable and va = 0])
    case (made a h d1)
    have c: "blocks d1 h = \<lparr>freelist = None, blk_arena = a, blk_offset = 0, blk_size = ?S\<rparr>" "hd (entries (the (arenas d1 a))) = h"
      "distinct (shader_block_obj_pool d1)" "set (shader_block_obj_pool d1) \<subseteq> {..<fresh d1}" "set (mallocs d1) \<subseteq> set (mallocs d)"
      using made(2) core(1) by (auto simp: created_def core_ok_def)
    have left: "insert_left h 0 (Some k) d1 = (Some None, d1)" by (simp add: insert_left_def)
    show thesis
    proof (cases "sz = ?S")
      case True
      then have ins: "insert_block h 0 sz (Some k) d1 = (Some h, remove_hole k h d1)"
        using c(1) by (simp add: insert_block_def left insert_right_def insert_link_def if_list_def)
      from first_block_exact [OF ok made(2) ty S(2,3) _ refl] sz(1) True
      show thesis using that(1) made(1) ins c(2) by (simp add: use_new_arena_def Let_def)
    next
      case False
      then have lt: "sz < ?S" using S(1) by simp
      consider r d2 where "alloc_block_obj d1 = (Some r, d2)" "obtained r d1 d2" | d2 where "alloc_block_obj d1 = (None, d2)" "\<not> succeeds (mallocs d1)"
        using alloc_obj_pool [OF c(3,4)] by blast
      then show thesis
      proof cases
        case (1 r d2)
        then have ins: "insert_block h 0 sz (Some k) d1 = (Some h, insert_link h None (Some r) (Some k)
            (add_hole k r (set_block r \<lparr>freelist = None, blk_arena = a, blk_offset = sz, blk_size = ?S - sz\<rparr> d2)))"
          using c(1) lt by (simp add: insert_block_def left insert_right_def if_list_def Let_def)
        from first_block_split [OF ok made(2) ty S(2,3) lt sz 1(2) refl refl]
        show thesis using that(1) made(1) ins c(2) by (simp add: use_new_arena_def Let_def)
      next
        case (2 d2)
        then have "insert_block h 0 sz (Some k) d1 = (None, d2)"
          using c(1) lt by (simp add: insert_block_def left insert_right_def)
        moreover have "\<not> reliable d"
          using 2(2) c(5) by (cases "mallocs d1") (auto simp: reliable_def succeeds_def)
        ultimately show thesis using that(3) made(1) c(2) by (simp add: use_new_arena_def)
      qed
    qed
  next
    case (failed d')
    then show thesis using that(2) by (simp add: use_new_arena_def)
  qed
qed

lemma shader_alloc_size_dvd: "256 dvd unat (shader_alloc_size d sz)"
proof -
  have m: "(255 :: u32) = mask 8" by (simp add: mask_eq_decr_exp)
  have "unat (ALIGN_POT x 256) = unat (x + 256 - 1) div 2 ^ 8 * 2 ^ 8" for x :: u32
    using unat_and_not_mask [of 8 "x + 256 - 1"] by (simp add: ALIGN_POT_def m)
  then have "unat (ALIGN_POT x 256) = unat (x + 256 - 1) div 256 * 256" for x :: u32 by simp
  then show ?thesis by (simp add: shader_alloc_size_def align32_def RADV_SHADER_ALLOC_ALIGNMENT_def)
qed

lemma alloc_cases:
  assumes ok: "arenas_ok d" and map: "find_hole (if replayable then Capture_list else Shader_list) (shader_alloc_size d sz) d = None \<longrightarrow> can_map d"
    and sz: "shader_alloc_size d sz \<noteq> 0"
  obtains (made) b d' where "radv_alloc_shader_memory sz replayable ptr d = Some (Some b, d')" "arenas_ok d'"
    "allocated b (shader_alloc_size d sz) ptr d d'"
  | (failed) d' where "radv_alloc_shader_memory sz replayable ptr d = Some (None, d')" "kept d d'" "\<not> reliable d"
  | (crash) "radv_alloc_shader_memory sz replayable ptr d = None" "\<not> reliable d"
proof -
  let ?s = "shader_alloc_size d sz" and ?k = "if replayable then Capture_list else Shader_list"
  have lists: "lists_ok d" using ok by (simp add: arenas_ok_def)
  show thesis
  proof (cases "find_hole ?k ?s d")
    case None
    then have e: "radv_alloc_shader_memory sz replayable ptr d = use_new_arena ?k ?s replayable ptr d"
      by (simp add: radv_alloc_shader_memory_def Let_def)
    from ok mp [OF map None] refl sz shader_alloc_size_dvd show thesis
      by (cases rule: use_new_arena_cases [where replayable = replayable and ptr = ptr]) (use that e in auto)
  next
    case (Some h)
    then have e: "radv_alloc_shader_memory sz replayable ptr d = Some (use_hole ?k ?s ptr h d)"
      by (simp add: radv_alloc_shader_memory_def Let_def)
    from ok find_hole_Some [OF lists Some] sz shader_alloc_size_dvd show thesis
    proof (cases rule: use_hole_cases [where ptr = ptr])
      case (1 b d')
      then show thesis using that(1) e 1 by simp
    next
      case (2 d')
      then show thesis using that(2) e reliable_succeeds(1) by auto
    qed
  qed
qed

section \<open>Freeing blocks\<close>

text \<open>The state while a block is merged with its neighbours: the blocks \<open>zs\<close> of arena \<open>a\<close> have become the
  one block \<open>h\<close>, which is in no free list.\<close>

definition merging :: "shader_device \<Rightarrow> nat \<Rightarrow> radv_shader_arena \<Rightarrow> nat list \<Rightarrow> nat list \<Rightarrow> nat list \<Rightarrow> nat \<Rightarrow> shader_device \<Rightarrow> bool" where
  "merging d a A xs zs ys h d' \<longleftrightarrow>
     entries A = xs @ zs @ ys \<and> h \<in> set zs \<and>
     arenas d' = (arenas d)(a \<mapsto> A\<lparr>entries := xs @ [h] @ ys\<rparr>) \<and>
     (\<forall>x. x \<notin> set zs \<longrightarrow> blocks d' x = blocks d x) \<and> blk_arena (blocks d' h) = a \<and>
     distinct (shader_block_obj_pool d') \<and> set (shader_block_obj_pool d') = set (shader_block_obj_pool d) \<union> (set zs - {h}) \<and>
     (\<forall>k. if list_of_type (arena_type A) = Some k then free_list_ok (blocks d') (hole_set d k - set zs) (the_list k d')
          else the_list k d' = the_list k d) \<and>
     frame d' = frame d \<and> fresh d' = fresh d \<and>
     blk_size (blocks d' h) \<noteq> 0 \<and> (arena_type A \<noteq> RADV_SHADER_ARENA_REPLAYED \<longrightarrow> 256 dvd unat (blk_size (blocks d' h))) \<and>
     (\<exists>m. tiles (blocks d) 0 xs (unat (blk_offset (blocks d' h))) \<and> tiles (blocks d) m ys (unat (arena_bytes A)) \<and>
        m = unat (blk_offset (blocks d' h)) + unat (blk_size (blocks d' h)))"

lemma merging_start:
  assumes ok: "arenas_ok d" and A: "arenas d a = Some A" "entries A = xs @ [c] @ ys" "\<not> is_hole (blocks d c)"
  shows "merging d a A xs [c] ys c d"
proof -
  have core: "core_ok d" and lists: "lists_ok d" using ok by (simp_all add: arenas_ok_def)
  have b: "blocks_ok (blocks d) a (arena_type A) (xs @ [c] @ ys) (unat (arena_bytes A))"
    using core_okD(2) [OF core A(1)] A(2) by (simp add: arena_ok_def)
  have "arenas d = (arenas d)(a \<mapsto> A\<lparr>entries := xs @ [c] @ ys\<rparr>)"
    using A(1,2) by (metis fun_upd_triv radv_shader_arena.surjective radv_shader_arena.update_convs(1) radv_shader_arena.select_convs(1))
  moreover have "c \<notin> hole_set d k" for k using A(3) by (simp add: hole_set_def)
  ultimately show ?thesis
    using A(2) b core lists unfolding merging_def by (auto simp: blocks_ok_def tiles_append core_ok_def lists_ok_def)
qed

lemma if_list_remove_fields [simp]:
  "arenas (if_list remove_hole o_list b d) = arenas d" "frame (if_list remove_hole o_list b d) = frame d"
  "fresh (if_list remove_hole o_list b d) = fresh d" "shader_block_obj_pool (if_list remove_hole o_list b d) = shader_block_obj_pool d"
  "blocks (if_list remove_hole o_list b d) = (if o_list = None then blocks d else (blocks d)(b := (blocks d b)\<lparr>freelist := Some 0\<rparr>))"
  "the_list k (if_list remove_hole o_list b d) =
     (if o_list = Some k then fl_remove (cls (blk_size (blocks d b))) b (the_list k d) else the_list k d)"
  by (cases o_list; simp add: if_list_def)+

text \<open>One neighbour joins: \<open>q\<close> is the neighbour, which becomes the merged block with offset \<open>off\<close>.\<close>

lemma merging_join:
  assumes ok: "arenas_ok d" and A: "arenas d a = Some A" and m: "merging d a A xs zs ys h d1"
    and q: "q \<notin> set zs" "q \<in> set (entries A)" "is_hole (blocks d q)" "entries A = xs' @ zs' @ ys'" "set zs' = insert q (set zs)"
    and ents: "remove1 h (xs @ [h] @ ys) = xs' @ [q] @ ys'"
    and d2: "d2 = free_block_obj h (set_block q ((blocks d q)\<lparr>freelist := f, blk_offset := off, blk_size := blk_size (blocks d q) + blk_size (blocks d1 h)\<rparr>)
      (if_list remove_hole (list_of_type (arena_type A)) q d1))"
    and fit: "tiles (blocks d) 0 xs' (unat off)"
      "tiles (blocks d) (unat off + unat (blk_size (blocks d q) + blk_size (blocks d1 h))) ys' (unat (arena_bytes A))"
      "unat (blk_size (blocks d q) + blk_size (blocks d1 h)) = unat (blk_size (blocks d q)) + unat (blk_size (blocks d1 h))"
  shows "merging d a A xs' zs' ys' q d2"
proof -
  have core: "core_ok d" using ok by (simp add: arenas_ok_def)
  have h: "h \<in> set zs" "blk_arena (blocks d1 h) = a" "blocks d1 q = blocks d q" "q \<noteq> h"
    using m q(1) by (auto simp: merging_def)
  have qb: "blk_arena (blocks d q) = a" "blk_size (blocks d q) \<noteq> 0"
    "arena_type A \<noteq> RADV_SHADER_ARENA_REPLAYED \<longrightarrow> 256 dvd unat (blk_size (blocks d q))"
    using core_okD(2) [OF core A] q(2) tiles_bounds [of "blocks d" 0 "entries A" "unat (arena_bytes A)" q]
    by (auto simp: arena_ok_def blocks_ok_def)
  have ar: "arenas d2 = (arenas d)(a \<mapsto> A\<lparr>entries := xs' @ [q] @ ys'\<rparr>)"
    using m h ents by (simp add: d2 merging_def)
  have B: "blocks d2 x = (if x = q then (blocks d q)\<lparr>freelist := f, blk_offset := off, blk_size := blk_size (blocks d q) + blk_size (blocks d1 h)\<rparr>
      else blocks d1 x)" for x by (simp add: d2)
  have lists: "if list_of_type (arena_type A) = Some k then free_list_ok (blocks d2) (hole_set d k - set zs') (the_list k d2)
      else the_list k d2 = the_list k d" for k
  proof (cases "list_of_type (arena_type A) = Some k")
    case True
    have l: "free_list_ok (blocks d1) (hole_set d k - set zs) (the_list k d1)" using m True by (simp add: merging_def)
    have "q \<in> hole_set d k - set zs" using hole_set_member [OF core A q(2)] q(1,3) True by simp
    then have "free_list_ok (blocks d1) (hole_set d k - set zs - {q}) (the_list k d2)"
      using True h(3) by (simp add: d2) (rule fl_remove_ok [OF l]; simp)
    moreover have "hole_set d k - set zs - {q} = hole_set d k - set zs'" using q(5) by auto
    ultimately show ?thesis using True q(5) by (simp, subst free_list_ok_cong [where B = "blocks d1"]) (auto simp: B)
  next
    case False
    then show ?thesis using m by (simp add: d2 merging_def)
  qed
  have pool: "set (shader_block_obj_pool d2) = set (shader_block_obj_pool d) \<union> (set zs' - {q})" "distinct (shader_block_obj_pool d2)"
    using m q(1,5) h(1,4) core_okD(5) [OF core A, of h] by (auto simp: d2 merging_def)
  have "256 dvd unat (blk_size (blocks d q) + blk_size (blocks d1 h))" if "arena_type A \<noteq> RADV_SHADER_ARENA_REPLAYED"
    using that m qb(3) fit(3) by (simp add: merging_def)
  moreover have "blk_size (blocks d q) + blk_size (blocks d1 h) \<noteq> 0"
    using fit(3) qb(2) by (metis add_is_0 unat_eq_0)
  moreover have "\<forall>x. x \<notin> set zs' \<longrightarrow> blocks d2 x = blocks d x" using m q(5) by (auto simp: B merging_def)
  moreover have "frame d2 = frame d" "fresh d2 = fresh d" using m by (simp_all add: d2 merging_def)
  moreover have "blocks d2 q = (blocks d q)\<lparr>freelist := f, blk_offset := off, blk_size := blk_size (blocks d q) + blk_size (blocks d1 h)\<rparr>"
    by (simp add: B)
  moreover have "\<forall>k. if list_of_type (arena_type A) = Some k then free_list_ok (blocks d2) (hole_set d k - set zs') (the_list k d2)
      else the_list k d2 = the_list k d" using lists by blast
  ultimately show ?thesis
    unfolding merging_def using q(4) fit qb(1) ar pool q(5) by (simp only: simp_thms) simp
qed

lemma merging_bounds:
  assumes "core_ok d" "arenas d a = Some A" "merging d a A xs zs ys h d1"
  shows "unat (blk_offset (blocks d1 h)) + unat (blk_size (blocks d1 h)) \<le> unat (arena_bytes A)" "distinct (xs @ zs @ ys)" "h \<in> set zs"
    "tiles (blocks d) 0 xs (unat (blk_offset (blocks d1 h)))"
    "tiles (blocks d) (unat (blk_offset (blocks d1 h)) + unat (blk_size (blocks d1 h))) ys (unat (arena_bytes A))"
  using assms(3) core_okD(2) [OF assms(1,2)] tiles_le by (auto simp: merging_def arena_ok_def blocks_ok_def)

lemma merge_prev_step:
  assumes ok: "arenas_ok d" and A: "arenas d a = Some A" and m: "merging d a A (xs @ [p]) zs ys h d1" and p: "is_hole (blocks d p)"
  shows "\<exists>d2. merge_prev (list_of_type (arena_type A)) (Some p) h d1 = (p, d2) \<and> merging d a A xs (p # zs) ys p d2"
proof -
  have core: "core_ok d" using ok by (simp add: arenas_ok_def)
  note b = merging_bounds [OF core A m]
  have e: "entries A = xs @ (p # zs) @ ys" using m by (simp add: merging_def)
  have q: "p \<notin> set zs" "p \<noteq> h" "blocks d1 p = blocks d p" using m b(2,3) by (auto simp: merging_def)
  have t: "tiles (blocks d) 0 xs (unat (blk_offset (blocks d p)))"
    "unat (blk_offset (blocks d p)) + unat (blk_size (blocks d p)) = unat (blk_offset (blocks d1 h))"
    using b(4) by (auto simp: tiles_append)
  have sum: "unat (blk_size (blocks d p) + blk_size (blocks d1 h)) = unat (blk_size (blocks d p)) + unat (blk_size (blocks d1 h))"
    using b(1) t(2) unat_bound [of "arena_bytes A"] by (intro unat_add_no_wrap) simp
  have rem: "remove1 h ((xs @ [p]) @ [h] @ ys) = xs @ [p] @ ys" using b(2,3) by (auto simp: remove1_append)
  let ?l = "list_of_type (arena_type A)"
  let ?d2 = "free_block_obj h (set_block p ((blocks d p)\<lparr>freelist := (if ?l = None then None else Some 0),
      blk_offset := blk_offset (blocks d p), blk_size := blk_size (blocks d p) + blk_size (blocks d1 h)\<rparr>) (if_list remove_hole ?l p d1))"
  have "merging d a A xs (p # zs) ys p ?d2"
    using b(5) [folded t(2)] t(1) sum by (intro merging_join [OF ok A m q(1) _ p e _ rem refl]) (simp_all add: e add.assoc)
  moreover have "merge_prev ?l (Some p) h d1 = (p, ?d2)"
    using q(2,3) p by (cases "blocks d p") (simp add: merge_prev_def Let_def)
  ultimately show ?thesis by blast
qed

lemma merge_next_step:
  assumes ok: "arenas_ok d" and A: "arenas d a = Some A" and m: "merging d a A xs zs (n # ys) h d1" and n: "is_hole (blocks d n)"
  shows "\<exists>d2. merge_next (list_of_type (arena_type A)) (Some n) h d1 = (n, d2) \<and> merging d a A xs (zs @ [n]) ys n d2"
proof -
  have core: "core_ok d" using ok by (simp add: arenas_ok_def)
  note b = merging_bounds [OF core A m]
  have e: "entries A = xs @ (zs @ [n]) @ ys" using m by (simp add: merging_def)
  have q: "n \<notin> set zs" "n \<noteq> h" "blocks d1 n = blocks d n" using m b(2,3) by (auto simp: merging_def)
  have t: "unat (blk_offset (blocks d n)) = unat (blk_offset (blocks d1 h)) + unat (blk_size (blocks d1 h))"
    "tiles (blocks d) (unat (blk_offset (blocks d n)) + unat (blk_size (blocks d n))) ys (unat (arena_bytes A))"
    using b(5) by simp_all
  have sum: "unat (blk_size (blocks d n) + blk_size (blocks d1 h)) = unat (blk_size (blocks d n)) + unat (blk_size (blocks d1 h))"
    using tiles_le [OF t(2)] t(1) unat_bound [of "arena_bytes A"] by (intro unat_add_no_wrap) simp
  have off: "unat (blk_offset (blocks d n) - blk_size (blocks d1 h)) = unat (blk_offset (blocks d1 h))"
    using t(1) by (simp add: unat_sub_no_wrap)
  have rem: "remove1 h (xs @ [h] @ n # ys) = xs @ [n] @ ys" using b(2,3) by (auto simp: remove1_append)
  let ?l = "list_of_type (arena_type A)"
  let ?d2 = "free_block_obj h (set_block n ((blocks d n)\<lparr>freelist := (if ?l = None then None else Some 0),
      blk_offset := blk_offset (blocks d n) - blk_size (blocks d1 h), blk_size := blk_size (blocks d n) + blk_size (blocks d1 h)\<rparr>)
      (if_list remove_hole ?l n d1))"
  have "merging d a A xs (zs @ [n]) ys n ?d2"
    using b(4) t sum off by (intro merging_join [OF ok A m q(1) _ n e _ rem refl]) (simp_all add: e ac_simps)
  moreover have "merge_next ?l (Some n) h d1 = (n, ?d2)"
    using q(2,3) n by (cases "blocks d n") (simp add: merge_next_def Let_def)
  ultimately show ?thesis by blast
qed

text \<open>The merged block becomes a hole.\<close>

definition freed :: "nat \<Rightarrow> shader_device \<Rightarrow> shader_device \<Rightarrow> bool" where
  "freed c d d' \<longleftrightarrow> alloc_set d' = alloc_set d - {c} \<and> (\<forall>x\<in>alloc_set d - {c}. blocks d' x = blocks d x)"

lemma merging_add:
  assumes ok: "arenas_ok d" and A: "arenas d a = Some A" and m: "merging d a A xs zs ys h d1"
    and c: "c \<in> set zs" "\<not> is_hole (blocks d c)" "\<forall>z\<in>set zs - {c}. is_hole (blocks d z)"
    and edges: "xs \<noteq> [] \<Longrightarrow> \<not> is_hole (blocks d (last xs))" "ys \<noteq> [] \<Longrightarrow> \<not> is_hole (blocks d (hd ys))" "xs \<noteq> [] \<or> ys \<noteq> []"
    and d': "d' = (case list_of_type (arena_type A) of
      Some l \<Rightarrow> add_hole l h d1 | None \<Rightarrow> set_block h ((blocks d1 h)\<lparr>freelist := None\<rparr>) d1)"
  shows "arenas_ok d'" "freed c d d'"
proof -
  have core: "core_ok d" using ok by (simp add: arenas_ok_def)
  note b = merging_bounds [OF core A m]
  have e: "entries A = xs @ zs @ ys" and mb: "blk_size (blocks d1 h) \<noteq> 0" "blk_arena (blocks d1 h) = a"
    "arena_type A \<noteq> RADV_SHADER_ARENA_REPLAYED \<longrightarrow> 256 dvd unat (blk_size (blocks d1 h))" "frame d1 = frame d" "fresh d1 = fresh d"
    "\<And>x. x \<notin> set zs \<Longrightarrow> blocks d1 x = blocks d x"
    "arenas d1 = (arenas d)(a \<mapsto> A\<lparr>entries := xs @ [h] @ ys\<rparr>)"
    "distinct (shader_block_obj_pool d1)" "set (shader_block_obj_pool d1) = set (shader_block_obj_pool d) \<union> (set zs - {h})"
    using m by (auto simp: merging_def)
  have f: "blocks d' = (blocks d1)(h := (blocks d1 h)\<lparr>freelist := None\<rparr>)" "arenas d' = arenas d1" "frame d' = frame d1"
    "fresh d' = fresh d1" "shader_block_obj_pool d' = shader_block_obj_pool d1"
    "\<And>k. the_list k d' = (if list_of_type (arena_type A) = Some k then fl_add (cls (blk_size (blocks d1 h))) h (the_list k d1) else the_list k d1)"
    by (simp_all add: d' split: option.splits)
  have sx: "blocks d1 x = blocks d x" "x \<noteq> h" if "x \<in> set xs \<or> x \<in> set ys" for x using that b(2,3) mb(6) by auto
  have ok1: "blocks_ok (blocks d) a (arena_type A) (xs @ zs @ ys) (unat (arena_bytes A))"
    using core_okD(2) [OF core A] e by (simp add: arena_ok_def)
  have "blocks_ok (blocks d') a (arena_type A) (xs @ [h] @ ys) (unat (arena_bytes A))"
  proof (rule blocks_ok_replace [OF ok1])
    show "\<forall>x\<in>set xs \<union> set ys. blocks d' x = blocks d x" using b(2,3) mb(6) by (auto simp: f(1))
    show "tiles (blocks d') m1 [h] m2" if "tiles (blocks d) 0 xs m1" "tiles (blocks d) m2 ys (unat (arena_bytes A))" for m1 m2
      using tiles_unique(1) [OF that(1) b(4)] tiles_unique(2) [OF that(2) b(5)] mb(1) by (simp add: f(1))
  qed (use b(2,3) mb edges in \<open>auto simp: f(1)\<close>)
  moreover have "\<exists>x\<in>set (xs @ [h] @ ys). \<not> is_hole (blocks d' x)"
  proof -
    obtain x where "x \<in> set xs \<union> set ys" "\<not> is_hole (blocks d x)" using edges last_in_set hd_in_set by blast
    moreover from this have "blocks d' x = blocks d x" using b(2,3) mb(6) by (auto simp: f(1))
    ultimately show ?thesis by (intro bexI [of _ x]) auto
  qed
  ultimately have aok: "arena_ok (blocks d') a (A\<lparr>entries := xs @ [h] @ ys\<rparr>)" by (simp add: arena_ok_def)
  have ar: "arenas d' = (arenas d)(a \<mapsto> A\<lparr>entries := xs @ [h] @ ys\<rparr>)" using mb(7) by (simp add: f)
  have ch: "local_change a (Some (A\<lparr>entries := xs @ [h] @ ys\<rparr>)) d d'"
  proof (rule local_changeI [OF core A ar _ _ _ _ _ _ _ aok])
    show "{} \<subseteq> set (shader_block_obj_pool d) \<union> {fresh d..<fresh d'} - set (shader_block_obj_pool d')" by simp
    show "set (xs @ [h] @ ys) \<inter> set (shader_block_obj_pool d') = {}"
      using core_okD(5) [OF core A] b(2,3) by (auto simp: f(5) mb(9) e)
  qed (use b mb e in \<open>auto simp: f\<close>)
  have fl: "free_list_ok (blocks d') ((hole_set d k - set (entries A)) \<union> {x \<in> set (xs @ [h] @ ys). is_hole (blocks d' x)}) (the_list k d')"
    if k: "list_of_type (arena_type A) = Some k" for k
  proof -
    have l: "free_list_ok (blocks d1) (hole_set d k - set zs) (the_list k d1)" using m k by (simp add: merging_def)
    have "free_list_ok (blocks d1) (insert h (hole_set d k - set zs)) (the_list k d')"
      using fl_add_ok [OF l, of h] b(3) k by (simp add: f(6))
    moreover have "insert h (hole_set d k - set zs) = (hole_set d k - set (entries A)) \<union> {x \<in> set (xs @ [h] @ ys). is_hole (blocks d' x)}"
      using hole_set_member [OF core A, of _ k] k b(2,3) sx by (auto simp: f(1) e)
    ultimately show ?thesis by (subst free_list_ok_cong [where B = "blocks d1"]) (simp_all add: f(1))
  qed
  have other: "the_list k d' = the_list k d" if "list_of_type (arena_type A) \<noteq> Some k" for k using m that by (simp add: f(6) merging_def)
  have fr: "frame d' = frame d" using mb(4) f(3) by simp
  note loc = arenas_ok_local [OF ok A ch fr other fl]
  show "arenas_ok d'" by (rule loc)
  have "alloc_set d' = alloc_set d - {c}"
    using loc(3) alloc_set_member [OF A] c b(2,3) sx by (auto simp: f(1) e)
  moreover have "blocks d' x = blocks d x" if "x \<in> alloc_set d - {c}" for x
  proof -
    have "x \<notin> set zs" using that c(3) alloc_set_member [OF A, of x] e by auto
    then show ?thesis using mb(6) b(3) by (auto simp: f(1))
  qed
  ultimately show "freed c d d'" by (simp add: freed_def)
qed

lemma remove_first_value_filter: "distinct (map snd T) \<Longrightarrow> remove_first_value a T = filter (\<lambda>e. snd e \<noteq> a) T"
proof (induction T rule: remove_first_value.induct)
  case (2 a va x T)
  then show ?case by (auto simp: image_iff intro!: filter_True [symmetric])
qed simp

lemma tables_ok_remove:
  assumes "tables_ok d" "skeleton d a = Some (s, b, ty)" "skeleton d' = (skeleton d)(a := None)" "shader_arenas d' = remove1 a (shader_arenas d)"
    "bos d' = (bos d)(b := None)" "capture_replay_arena_vas d' = map_option (remove_first_value a) (capture_replay_arena_vas d)"
  shows "tables_ok d'"
proof -
  have sk: "skeleton d' x = (if x = a then None else skeleton d x)" for x using assms(3) by simp
  have bs: "bos d' x = (if x = b then None else bos d x)" for x using assms(5) by simp
  have t: "distinct (shader_arenas d)" "set (shader_arenas d) = dom (skeleton d)"
    "\<And>a s b ty. skeleton d a = Some (s, b, ty) \<Longrightarrow> \<exists>v. bos d b = Some v \<and> bo_bytes v = s"
    "\<And>a s ty a' s' ty' b. skeleton d a = Some (s, b, ty) \<Longrightarrow> skeleton d a' = Some (s', b, ty') \<Longrightarrow> a = a'"
    "dom (bos d) = {b. \<exists>a s ty. skeleton d a = Some (s, b, ty)}"
    using assms(1) unfolding tables_ok_def by blast+
  have nb: "x \<noteq> a \<Longrightarrow> skeleton d x \<noteq> Some (s', b, ty')" for x s' ty' using t(4) [OF assms(2)] by metis
  have 1: "distinct (shader_arenas d')" "set (shader_arenas d') = dom (skeleton d')"
    using t(1,2) by (auto simp: assms(4) sk dom_def)
  have 2: "\<exists>v. bos d' y = Some v \<and> bo_bytes v = s'" if "skeleton d' x = Some (s', y, ty')" for x s' y ty'
    using that t(3) [of x] nb by (auto simp: sk bs split: if_splits)
  have 3: "x = x'" if "skeleton d' x = Some (s', y, ty')" "skeleton d' x' = Some (s'', y, ty'')" for x s' y ty' x' s'' ty''
    using that t(4) by (auto simp: sk split: if_splits)
  have "(\<exists>a s ty. skeleton d' a = Some (s, x, ty)) \<longleftrightarrow> x \<noteq> b \<and> (\<exists>a s ty. skeleton d a = Some (s, x, ty))" for x
  proof (cases "x = b")
    case True
    then show ?thesis using nb by (simp add: sk)
  next
    case False
    then have "skeleton d' y = Some (s', x, ty') \<longleftrightarrow> skeleton d y = Some (s', x, ty')" for y s' ty' using assms(2) by (auto simp: sk)
    then show ?thesis using False by simp
  qed
  moreover have "dom (bos d') = dom (bos d) - {b}" using assms(5) by simp
  ultimately have 4: "dom (bos d') = {b. \<exists>a s ty. skeleton d' a = Some (s, b, ty)}" unfolding t(5) by auto
  have 5: "case capture_replay_arena_vas d' of
        None \<Rightarrow> \<forall>a s b. skeleton d' a \<noteq> Some (s, b, RADV_SHADER_ARENA_REPLAYED)
      | Some T \<Rightarrow>
          distinct (map fst T) \<and> distinct (map snd T) \<and>
          (\<forall>va a. (va, a) \<in> set T \<longrightarrow>
             (\<exists>s b v. skeleton d' a = Some (s, b, RADV_SHADER_ARENA_REPLAYED) \<and> bos d' b = Some v \<and> bo_va v = va)) \<and>
          (\<forall>a s b. skeleton d' a = Some (s, b, RADV_SHADER_ARENA_REPLAYED) \<longrightarrow> a \<in> snd ` set T)"
  proof (cases "capture_replay_arena_vas d")
    case None
    then have "\<forall>a s b. skeleton d a \<noteq> Some (s, b, RADV_SHADER_ARENA_REPLAYED)" using assms(1) unfolding tables_ok_def by simp
    then show ?thesis using None assms(6) by (simp add: sk)
  next
    case (Some T)
    have T: "distinct (map fst T)" "distinct (map snd T)"
      "\<And>va a. (va, a) \<in> set T \<Longrightarrow> \<exists>s b v. skeleton d a = Some (s, b, RADV_SHADER_ARENA_REPLAYED) \<and> bos d b = Some v \<and> bo_va v = va"
      "\<And>a s b. skeleton d a = Some (s, b, RADV_SHADER_ARENA_REPLAYED) \<Longrightarrow> a \<in> snd ` set T"
      using assms(1) Some unfolding tables_ok_def by simp_all
    have v: "capture_replay_arena_vas d' = Some (filter (\<lambda>e. snd e \<noteq> a) T)"
      using Some assms(6) remove_first_value_filter [OF T(2)] by simp
    have old: "\<exists>s b v. skeleton d' x = Some (s, b, RADV_SHADER_ARENA_REPLAYED) \<and> bos d' b = Some v \<and> bo_va v = va"
      if "(va, x) \<in> set T" "x \<noteq> a" for va x
      using T(3) [OF that(1)] that(2) nb [OF that(2)] by (fastforce simp: sk bs)
    have "x \<in> snd ` set (filter (\<lambda>e. snd e \<noteq> a) T)" if "skeleton d' x = Some (s', b', RADV_SHADER_ARENA_REPLAYED)" for x s' b'
      using that T(4) [of x s' b'] by (force simp: sk split: if_splits)
    then show ?thesis using T(1,2) old by (simp add: v distinct_map_filter)
  qed
  show ?thesis unfolding tables_ok_def using 1 2 3 4 5 by blast
qed

text \<open>The whole arena has become one block: it is destroyed.\<close>

lemma merging_destroy:
  assumes ok: "arenas_ok d" and A: "arenas d a = Some A" and m: "merging d a A [] zs [] h d1"
    and c: "c \<in> set zs" "\<not> is_hole (blocks d c)" "\<forall>z\<in>set zs - {c}. is_hole (blocks d z)"
    and d': "d' = destroy_arena a (free_block_obj h d1)"
  shows "arenas_ok d'" "freed c d d'" "frame d1 = frame d"
proof -
  have core: "core_ok d" and tables: "tables_ok d" and lists: "lists_ok d" using ok by (simp_all add: arenas_ok_def)
  note b = merging_bounds [OF core A m]
  have e: "entries A = zs" and mb: "blk_arena (blocks d1 h) = a" "frame d1 = frame d" "fresh d1 = fresh d"
    "\<And>x. x \<notin> set zs \<Longrightarrow> blocks d1 x = blocks d x" "arenas d1 = (arenas d)(a \<mapsto> A\<lparr>entries := [h]\<rparr>)"
    "distinct (shader_block_obj_pool d1)" "set (shader_block_obj_pool d1) = set (shader_block_obj_pool d) \<union> (set zs - {h})"
    using m by (auto simp: merging_def)
  show "frame d1 = frame d" by (rule mb(2))
  note f1 = frameD [OF mb(2)]
  have f: "blocks d' = blocks d1" "arenas d' = (arenas d)(a := None)" "fresh d' = fresh d"
    "shader_block_obj_pool d' = h # shader_block_obj_pool d1" "\<And>k. the_list k d' = the_list k d1"
    "shader_arenas d' = remove1 a (shader_arenas d)" "bos d' = (bos d)(arena_bo A := None)"
    "capture_replay_arena_vas d' = map_option (remove_first_value a) (capture_replay_arena_vas d)"
    using mb f1 by (simp_all add: d' destroy_arena_def radv_bo_destroy_def Let_def)
  have old: "old_blocks d a = set zs" using A e by (simp add: old_blocks_def)
  have hp: "h \<notin> set (shader_block_obj_pool d)" "\<And>x. x \<in> set zs \<Longrightarrow> x < fresh d" using core_okD(4,5) [OF core A] b(3) e by simp_all
  have pool: "distinct (shader_block_obj_pool d')" "set (shader_block_obj_pool d') = set (shader_block_obj_pool d) \<union> set zs"
    "set (shader_block_obj_pool d) \<subseteq> {..<fresh d}"
    using mb(6,7) hp(1) b(3) core by (auto simp: f(4) core_ok_def)
  have ch: "local_change a None d d'"
    unfolding local_change_def old using pool hp(2) mb(4) by (auto simp: f(1-3))
  have hs: "hole_set d' k = hole_set d k - set zs" for k using hole_set_change [OF core ch, of k] by (simp add: old)
  have "free_list_ok (blocks d') (hole_set d' k) (the_list k d')" for k
  proof (cases "list_of_type (arena_type A) = Some k")
    case True
    then show ?thesis using m by (simp add: merging_def hs f(1,5))
  next
    case False
    then have n: "hole_set d k \<inter> set zs = {}" using hole_set_member [OF core A] e by auto
    then have "\<forall>x\<in>hole_set d k. blocks d' x = blocks d x" using mb(4) by (auto simp: f(1))
    moreover have "hole_set d k - set zs = hole_set d k" using n by blast
    moreover have "the_list k d' = the_list k d" using m False by (simp add: merging_def f(5))
    ultimately show ?thesis using lists free_list_ok_cong [of "hole_set d k" "blocks d'" "blocks d"] by (simp add: hs lists_ok_def)
  qed
  then have "lists_ok d'" by (simp add: lists_ok_def)
  moreover have "skeleton d' = (skeleton d)(a := None)" "skeleton d a = Some (arena_bytes A, arena_bo A, arena_type A)"
    using A by (auto simp: skeleton_def f(2))
  then have "tables_ok d'" using tables_ok_remove [OF tables] f(6-8) by blast
  ultimately show "arenas_ok d'" using core_change [OF core ch] by (simp add: arenas_ok_def)
  have "alloc_set d - set zs = alloc_set d - {c}" using alloc_set_member [OF A] c e by auto
  then show "freed c d d'" using alloc_set_change [OF core ch] by (auto simp: freed_def old)
qed

lemma prev_entry_none: "c \<notin> set (tl zs) \<Longrightarrow> prev_entry c zs = None"
  by (induction c zs rule: prev_entry.induct) auto

lemma prev_entry_split:
  "c \<notin> set xs \<Longrightarrow> c \<notin> set ys \<Longrightarrow> prev_entry c (xs @ c # ys) = (if xs = [] then None else Some (last xs))"
proof (induction xs)
  case Nil
  then show ?case using prev_entry_none [of c "c # ys"] by simp
next
  case (Cons x xs)
  then show ?case by (cases xs) auto
qed

lemma next_entry_split: "c \<notin> set xs \<Longrightarrow> next_entry c (xs @ c # ys) = (if ys = [] then None else Some (hd ys))"
proof (induction xs)
  case Nil
  show ?case by (cases ys) auto
next
  case (Cons x xs)
  then show ?case by (cases xs) auto
qed

text \<open>What is known about the merged blocks: the freed block and holes, and no hole next to them on the left.\<close>

lemma merge_prev_all:
  assumes ok: "arenas_ok d" and A: "arenas d a = Some A" "entries A = xs @ [c] @ ys" "\<not> is_hole (blocks d c)"
  shows "\<exists>xs' zs h d1. merge_prev (list_of_type (arena_type A)) (get_hole (prev_entry c (entries A)) d) c d = (h, d1) \<and>
    merging d a A xs' zs ys h d1 \<and> c \<in> set zs \<and> (\<forall>z\<in>set zs - {c}. is_hole (blocks d z)) \<and> (xs' \<noteq> [] \<longrightarrow> \<not> is_hole (blocks d (last xs')))"
proof -
  have core: "core_ok d" using ok by (simp add: arenas_ok_def)
  have prev: "prev_entry c (entries A) = (if xs = [] then None else Some (last xs))"
    using block_in_arena(4,5) [OF core A(1,2), of c] prev_entry_split by (simp add: A(2))
  have start: "merging d a A xs [c] ys c d" by (rule merging_start [OF ok A])
  show ?thesis
  proof (cases "xs \<noteq> [] \<and> is_hole (blocks d (last xs))")
    case True
    then obtain xs' p where xs: "xs = xs' @ [p]" by (metis append_butlast_last_id)
    have "blocks_ok (blocks d) a (arena_type A) (xs' @ [p] @ c # ys) (unat (arena_bytes A))"
      using core_okD(2) [OF core A(1)] A(2) xs by (simp add: arena_ok_def)
    then have n: "xs' \<noteq> [] \<Longrightarrow> \<not> is_hole (blocks d (last xs'))" using holes_neighbours(1) True xs by auto
    from merge_prev_step [OF ok A(1) start [unfolded xs]] True xs obtain d1 where
      d1: "merge_prev (list_of_type (arena_type A)) (Some p) c d = (p, d1)" "merging d a A xs' [p, c] ys p d1" by auto
    have "get_hole (prev_entry c (entries A)) d = Some p" using prev True xs by (simp add: get_hole_def)
    then show ?thesis using d1 n True xs by (intro exI [of _ xs'] exI [of _ "[p, c]"]) auto
  next
    case False
    then have "get_hole (prev_entry c (entries A)) d = None" using prev by (auto simp: get_hole_def)
    then show ?thesis using start False by (intro exI [of _ xs] exI [of _ "[c]"]) (auto simp: merge_prev_def)
  qed
qed

lemma merge_next_all:
  assumes ok: "arenas_ok d" and A: "arenas d a = Some A" and m: "merging d a A xs zs ys h d1"
    and nx: "nx = (if ys = [] then None else Some (hd ys))"
  shows "\<exists>ys' zs' h' d2. merge_next (list_of_type (arena_type A)) (get_hole nx d) h d1 = (h', d2) \<and>
    merging d a A xs zs' ys' h' d2 \<and> set zs \<subseteq> set zs' \<and> (\<forall>z\<in>set zs' - set zs. is_hole (blocks d z)) \<and>
    (ys' \<noteq> [] \<longrightarrow> \<not> is_hole (blocks d (hd ys')))"
proof (cases "ys \<noteq> [] \<and> is_hole (blocks d (hd ys))")
  case True
  then obtain n ys' where ys: "ys = n # ys'" by (cases ys) auto
  have core: "core_ok d" using ok by (simp add: arenas_ok_def)
  have "blocks_ok (blocks d) a (arena_type A) ((xs @ zs) @ [n] @ ys') (unat (arena_bytes A))"
    using core_okD(2) [OF core A] m ys by (simp add: arena_ok_def merging_def)
  from holes_neighbours(2) [OF this] have e: "ys' \<noteq> [] \<Longrightarrow> \<not> is_hole (blocks d (hd ys'))" using True ys by auto
  from merge_next_step [OF ok A m [unfolded ys]] True ys obtain d2 where
    "merge_next (list_of_type (arena_type A)) (Some n) h d1 = (n, d2)" "merging d a A xs (zs @ [n]) ys' n d2" by auto
  moreover have "get_hole nx d = Some n" using nx True ys by (simp add: get_hole_def)
  ultimately show ?thesis using e True ys by (intro exI [of _ ys'] exI [of _ "zs @ [n]"]) auto
next
  case False
  then have "get_hole nx d = None" using nx by (auto simp: get_hole_def)
  then show ?thesis using m False by (intro exI [of _ ys] exI [of _ zs]) (auto simp: merge_next_def)
qed

lemma free_ok:
  assumes ok: "arenas_ok d" and c: "c \<in> alloc_set d" and d': "d' = radv_free_shader_memory (Some c) d"
  shows "arenas_ok d'" "freed c d d'" "capture_replay_arena_vas d = None \<Longrightarrow> capture_replay_arena_vas d' = None"
    and "arenas d (blk_arena (blocks d c)) = Some A \<Longrightarrow>
      (if \<forall>x\<in>alloc_set d. blk_arena (blocks d x) = blk_arena (blocks d c) \<longrightarrow> x = c
       then arenas d' = (arenas d)(blk_arena (blocks d c) := None) \<and> bos d' = (bos d)(arena_bo A := None)
       else (\<exists>zs. arenas d' = (arenas d)(blk_arena (blocks d c) \<mapsto> A\<lparr>entries := zs\<rparr>)) \<and> bos d' = bos d)"
proof -
  have core: "core_ok d" using ok by (simp add: arenas_ok_def)
  obtain a A1 where A0: "arenas d a = Some A1" "c \<in> set (entries A1)" "\<not> is_hole (blocks d c)" using c by (auto simp: alloc_set_def)
  then obtain xs ys where xs: "entries A1 = xs @ [c] @ ys" by (metis append_Cons append_Nil split_list)
  note bc = block_in_arena [OF core A0(1) xs, of c, simplified]
  let ?l = "list_of_type (arena_type A1)" and ?nx = "next_entry c (entries A1)"
  obtain xs' zs h d1 where p: "merge_prev ?l (get_hole (prev_entry c (entries A1)) d) c d = (h, d1)"
    "merging d a A1 xs' zs ys h d1" "c \<in> set zs" "\<forall>z\<in>set zs - {c}. is_hole (blocks d z)" "xs' \<noteq> [] \<longrightarrow> \<not> is_hole (blocks d (last xs'))"
    using merge_prev_all [OF ok A0(1) xs A0(3)] by blast
  have nx: "?nx = (if ys = [] then None else Some (hd ys))" using bc(4) next_entry_split by (simp add: xs)
  obtain ys' zs' h' d2 where n: "merge_next ?l (get_hole ?nx d) h d1 = (h', d2)" "merging d a A1 xs' zs' ys' h' d2" "set zs \<subseteq> set zs'"
    "\<forall>z\<in>set zs' - set zs. is_hole (blocks d z)" "ys' \<noteq> [] \<longrightarrow> \<not> is_hole (blocks d (hd ys'))"
    using merge_next_all [OF ok A0(1) p(2) nx] by blast
  have z: "c \<in> set zs'" "\<forall>z\<in>set zs' - {c}. is_hole (blocks d z)" using p(3,4) n(3,4) by blast+
  have e: "entries (the (arenas d2 a)) = xs' @ [h'] @ ys'" using n(2) by (simp add: merging_def)
  have d2: "d' = (if entries (the (arenas d2 a)) = [h'] then destroy_arena a (free_block_obj h' d2)
      else case ?l of Some l \<Rightarrow> add_hole l h' d2 | None \<Rightarrow> set_block h' ((blocks d2 h')\<lparr>freelist := None\<rparr>) d2)"
    using p(1) n(1) bc(3) A0(1) by (simp add: d' radv_free_shader_memory_def Let_def)
  then show "arenas_ok d'" "freed c d d'"
    using merging_destroy(1,2) [OF ok A0(1), of zs' h' d2 c d'] merging_add [OF ok A0(1) n(2) z(1) A0(3) z(2), of d'] n(2,5) z A0(3) p(5) e
    by (cases xs'; cases ys'; auto)+
  have "frame d2 = frame d" using n(2) by (simp add: merging_def)
  note f = frameD [OF this]
  show "capture_replay_arena_vas d = None \<Longrightarrow> capture_replay_arena_vas d' = None"
    using f by (simp add: d2 destroy_arena_def radv_bo_destroy_def Let_def split: option.splits)
  assume "arenas d (blk_arena (blocks d c)) = Some A"
  then have A: "A = A1" "blk_arena (blocks d c) = a" using A0(1) bc(3) by simp_all
  have ar2: "arenas d2 = (arenas d)(a \<mapsto> A1\<lparr>entries := xs' @ [h'] @ ys'\<rparr>)" and en: "entries A1 = xs' @ zs' @ ys'"
    using n(2) by (simp_all add: merging_def)
  have dist: "distinct (entries A1)" using core_okD(2) [OF core A0(1)] by (simp add: arena_ok_def blocks_ok_def)
  have mem: "x \<in> alloc_set d \<and> blk_arena (blocks d x) = a \<longleftrightarrow> x \<in> set (entries A1) \<and> \<not> is_hole (blocks d x)" for x
    using core_okD(6) [OF core A0(1)] core_okD(6) [OF core] A0(1) unfolding alloc_set_def by fastforce
  show "if \<forall>x\<in>alloc_set d. blk_arena (blocks d x) = blk_arena (blocks d c) \<longrightarrow> x = c
       then arenas d' = (arenas d)(blk_arena (blocks d c) := None) \<and> bos d' = (bos d)(arena_bo A := None)
       else (\<exists>zs. arenas d' = (arenas d)(blk_arena (blocks d c) \<mapsto> A\<lparr>entries := zs\<rparr>)) \<and> bos d' = bos d"
  proof (cases "xs' = [] \<and> ys' = []")
    case True
    then have "x = c" if "x \<in> alloc_set d" "blk_arena (blocks d x) = a" for x using mem [of x] that en z(2) by (cases "x = c") auto
    moreover have "blk_arena (blocks d2 h') = a" using n(2) by (simp add: merging_def)
    then have "arenas d' = (arenas d)(a := None)" "bos d' = (bos d)(arena_bo A1 := None)"
      using True f ar2 by (simp_all add: d2 destroy_arena_def radv_bo_destroy_def Let_def)
    ultimately show ?thesis by (simp add: A)
  next
    case False
    have "\<exists>x. x \<in> set (entries A1) \<and> \<not> is_hole (blocks d x) \<and> x \<noteq> c"
    proof (cases "xs' = []")
      case True
      then have "hd ys' \<in> set ys'" "\<not> is_hole (blocks d (hd ys'))" using False n(5) by simp_all
      then show ?thesis using dist en z(1) by auto
    next
      case False
      then have "last xs' \<in> set xs'" "\<not> is_hole (blocks d (last xs'))" using p(5) by simp_all
      then show ?thesis using dist en z(1) by auto
    qed
    then have "\<not> (\<forall>x\<in>alloc_set d. blk_arena (blocks d x) = a \<longrightarrow> x = c)" using mem by blast
    moreover have "entries (the (arenas d2 a)) \<noteq> [h']" using False e by (cases xs'; cases ys') auto
    then have "arenas d' = arenas d2" "bos d' = bos d2" unfolding d2 by (simp_all split: option.splits)
    ultimately show ?thesis using f(2) ar2 by (auto simp: A)
  qed
qed

section \<open>Replaying blocks\<close>

definition mallocs_ok :: "shader_device \<Rightarrow> bool" where
  "mallocs_ok d \<longleftrightarrow> (\<forall>x\<in>set (mallocs d). x)"

text \<open>Objects \<open>N\<close> have been taken from the pool or from memory and written to; nothing else has changed.\<close>

definition taken :: "nat set \<Rightarrow> shader_device \<Rightarrow> shader_device \<Rightarrow> bool" where
  "taken N d d' \<longleftrightarrow>
     arenas d' = arenas d \<and> (\<forall>k. the_list k d' = the_list k d) \<and> frame d' = frame d \<and> fresh d \<le> fresh d' \<and>
     (\<forall>x. x \<notin> N \<longrightarrow> blocks d' x = blocks d x) \<and>
     N \<subseteq> set (shader_block_obj_pool d) \<union> {fresh d..<fresh d'} - set (shader_block_obj_pool d') \<and>
     set (shader_block_obj_pool d') \<subseteq> set (shader_block_obj_pool d) \<and> distinct (shader_block_obj_pool d') \<and>
     set (mallocs d') \<subseteq> set (mallocs d)"

lemma taken_refl: "core_ok d \<Longrightarrow> taken {} d d"
  by (simp add: taken_def core_ok_def)

lemma taken_kept:
  assumes "core_ok d" "taken N d d'"
  shows "kept d d'"
proof -
  have p: "set (shader_block_obj_pool d) \<subseteq> {..<fresh d}" using assms(1) by (simp add: core_ok_def)
  have "blocks d' x = blocks d x" if "x < fresh d" "x \<notin> set (shader_block_obj_pool d)" for x
  proof -
    have "x \<notin> N" using that assms(2) by (auto simp: taken_def)
    then show ?thesis using assms(2) by (simp add: taken_def)
  qed
  then show ?thesis
    using assms(2) p no_arena_fresh [OF assms(1)] frame_tables [of d' d] by (auto simp: taken_def kept_def local_change_def fun_upd_idem)
qed

lemma taken_cases:
  assumes core: "core_ok d" and N: "taken N d d1"
  obtains r d2 where "alloc_block_obj d1 = (Some r, d2)" "r \<notin> N" "\<And>v. taken (insert r N) d (set_block r v d2)" "blocks d2 = blocks d1"
  | d2 where "alloc_block_obj d1 = (None, d2)" "taken N d d2" "\<not> mallocs_ok d"
proof (cases "shader_block_obj_pool d1")
  case (Cons b pool)
  let ?d2 = "d1\<lparr>shader_block_obj_pool := pool\<rparr>"
  have "b \<notin> N" "taken (insert b N) d (set_block b v ?d2)" for v using N Cons by (auto simp: taken_def)
  then show thesis using that(1) [of b ?d2] Cons by (simp add: alloc_block_obj_def)
next
  case Nil
  let ?d2 = "d1\<lparr>mallocs := tl (mallocs d1), fresh := Suc (fresh d1)\<rparr>"
  have p: "set (shader_block_obj_pool d) \<subseteq> {..<fresh d}" using core by (simp add: core_ok_def)
  have tl: "set (tl (mallocs d1)) \<subseteq> set (mallocs d)" using N by (cases "mallocs d1") (auto simp: taken_def)
  have "fresh d \<le> fresh d1" "N \<subseteq> set (shader_block_obj_pool d) \<union> {fresh d..<fresh d1}" using N by (auto simp: taken_def)
  then have nf: "fresh d1 \<notin> N" "fresh d \<le> fresh d1" using p by (auto dest!: subsetD)
  show thesis
  proof (cases "succeeds (mallocs d1)")
    case True
    have "taken (insert (fresh d1) N) d (set_block (fresh d1) v ?d2)" for v
      using N Nil tl nf by (auto simp: taken_def)
    then show thesis using that(1) [of "fresh d1" ?d2] Nil True nf(1) by (simp add: alloc_block_obj_def malloc_def)
  next
    case False
    have "taken N d ?d2" using N Nil tl by (auto simp: taken_def)
    moreover have "\<not> mallocs_ok d" using False N by (cases "mallocs d1") (auto simp: mallocs_ok_def succeeds_def taken_def)
    ultimately show thesis using that(2) [of ?d2] Nil False by (simp add: alloc_block_obj_def malloc_def)
  qed
qed

text \<open>The blocks of the arena after a block was put into the hole \<open>h\<close>, with what is left on both sides.\<close>

lemma insert_fill:
  assumes ok: "arenas_ok d" and A: "arenas d a = Some A" "entries A = xs @ [h] @ ys" "arena_type A = RADV_SHADER_ARENA_REPLAYED"
      "is_hole (blocks d h)"
    and fit: "unat off + unat sz \<le> unat (blk_size (blocks d h))" "sz \<noteq> 0"
    and N: "taken (set ls \<union> set rs) d d2"
      "if off = 0 then ls = [] else ls = [l]" "if off + sz = blk_size (blocks d h) then rs = [] else rs = [r]" "set ls \<inter> set rs = {}"
    and d': "blocks d' = (\<lambda>x. if x = h then \<lparr>freelist = Some ptr, blk_arena = a, blk_offset = blk_offset (blocks d h) + off, blk_size = sz\<rparr>
        else if x \<in> set ls then \<lparr>freelist = None, blk_arena = a, blk_offset = blk_offset (blocks d h), blk_size = off\<rparr>
        else if x \<in> set rs then \<lparr>freelist = None, blk_arena = a, blk_offset = blk_offset (blocks d h) + off + sz,
          blk_size = blk_size (blocks d h) - off - sz\<rparr> else blocks d x)"
      "arenas d' = (arenas d)(a \<mapsto> A\<lparr>entries := xs @ (ls @ [h] @ rs) @ ys\<rparr>)" "frame d' = frame d2" "fresh d' = fresh d2"
      "shader_block_obj_pool d' = shader_block_obj_pool d2" "\<And>k. the_list k d' = the_list k d2"
  shows "arenas_ok d'" "allocated h sz ptr d d'" "skeleton d' = skeleton d"
proof -
  have core: "core_ok d" using ok by (simp add: arenas_ok_def)
  note hb = block_in_arena [OF core A(1,2), of h, simplified]
  let ?o = "blk_offset (blocks d h)" and ?s = "blk_size (blocks d h)" and ?zs = "ls @ [h] @ rs"
  have new: "(set ls \<union> set rs) \<inter> set (entries A) = {}"
    using N(1) core_okD(4,5) [OF core A(1)] by (fastforce simp: taken_def)
  have lim: "unat ?o + unat ?s < 2 ^ 32" using hb(1) unat_bound [of "arena_bytes A"] by simp
  have w: "unat (?o + off) = unat ?o + unat off" "unat (?o + off + sz) = unat ?o + unat off + unat sz" "unat (off + sz) = unat off + unat sz"
    using lim fit(1) unat_add_no_wrap [of ?o off] unat_add_no_wrap [of "?o + off" sz] unat_add_no_wrap [of off sz] by simp_all
  have rest: "unat (?s - off - sz) = unat ?s - unat off - unat sz" using fit(1) by (simp add: unat_sub_no_wrap)
  have full: "off + sz = ?s \<longleftrightarrow> unat off + unat sz = unat ?s" using w(3) by (metis word_unat_eq_iff)
  have ok1: "blocks_ok (blocks d) a (arena_type A) (xs @ [h] @ ys) (unat (arena_bytes A))"
    using core_okD(2) [OF core A(1)] A(2) by (simp add: arena_ok_def)
  have hn: "h \<notin> set ls" "h \<notin> set rs" using new A(2) by auto
  have dz: "distinct ?zs" "successively (\<lambda>x y. \<not> (is_hole (blocks d' x) \<and> is_hole (blocks d' y))) ?zs"
    using N(2-4) hn by (auto simp: d'(1) split: if_splits)
  have "blocks_ok (blocks d') a (arena_type A) (xs @ ?zs @ ys) (unat (arena_bytes A))"
  proof (rule blocks_ok_replace [OF ok1])
    show "\<forall>x\<in>set xs \<union> set ys. blocks d' x = blocks d x" using new A(2) hb(4,5) by (auto simp: d'(1))
    show "tiles (blocks d') m1 ?zs m2" if "tiles (blocks d) m1 [h] m2" for m1 m2
    proof -
      have m: "m1 = unat ?o" "m2 = unat ?o + unat ?s" using that by auto
      have nz: "off + sz \<noteq> ?s \<Longrightarrow> ?s - off - sz \<noteq> 0" using rest full fit(1) by (metis unat_0 diff_diff_left diff_is_0_eq le_antisym)
      show ?thesis using N(2-4) hn fit w rest full nz unfolding m by (auto simp: d'(1) split: if_splits)
    qed
    show "\<forall>x\<in>set ?zs. blk_arena (blocks d' x) = a \<and> (arena_type A \<noteq> RADV_SHADER_ARENA_REPLAYED \<longrightarrow> 256 dvd unat (blk_size (blocks d' x)))"
      using A(3) by (auto simp: d'(1))
    show "set ?zs \<inter> (set xs \<union> set ys) = {}" using new A(2) hb(4,5) by auto
  qed (use dz holes_neighbours [OF ok1 A(4)] in auto)
  then have aok: "arena_ok (blocks d') a (A\<lparr>entries := xs @ ?zs @ ys\<rparr>)" using A(3) by (simp add: arena_ok_def)
  have ch: "local_change a (Some (A\<lparr>entries := xs @ ?zs @ ys\<rparr>)) d d'"
  proof (rule local_changeI [OF core A(1) d'(2) _ _ _ _ _ _ _ aok])
    show "set ls \<union> set rs \<subseteq> set (shader_block_obj_pool d) \<union> {fresh d..<fresh d'} - set (shader_block_obj_pool d')"
      using N(1) by (simp add: taken_def d'(4,5))
    show "set (xs @ ?zs @ ys) \<inter> set (shader_block_obj_pool d') = {}"
      using N(1) core_okD(5) [OF core A(1)] A(2) by (auto simp: taken_def d'(5))
  qed (use N(1) A(2) in \<open>auto simp: taken_def d'(1,4,5)\<close>)
  have nl: "list_of_type (arena_type A) \<noteq> Some k" "the_list k d' = the_list k d" "frame d' = frame d" for k
    using A(3) N(1) by (simp_all add: list_of_type_def taken_def d'(3,6))
  have loc: "arenas_ok d'" "skeleton d' = skeleton d"
    "alloc_set d' = (alloc_set d - set (entries A)) \<union> {x \<in> set (xs @ ?zs @ ys). \<not> is_hole (blocks d' x)}"
    by (rule arenas_ok_local [OF ok A(1) ch nl(3) nl(2)]; simp add: nl(1))+
  then show "arenas_ok d'" "skeleton d' = skeleton d" by simp_all
  have sx: "blocks d' x = blocks d x" if "x \<in> set xs \<or> x \<in> set ys" for x using that new A(2) hb(4,5) by (auto simp: d'(1))
  have "alloc_set d' = insert h (alloc_set d)"
  proof -
    have l: "is_hole (blocks d' x)" if "x \<in> set ls \<or> x \<in> set rs" for x using that hn by (auto simp: d'(1))
    have hh: "\<not> is_hole (blocks d' h)" by (simp add: d'(1))
    have mem: "x \<in> alloc_set d \<longleftrightarrow> \<not> is_hole (blocks d x)" if "x = h \<or> x \<in> set xs \<or> x \<in> set ys" for x
      using alloc_set_member [OF A(1), of x] A(2) that by auto
    have "x \<in> alloc_set d' \<longleftrightarrow> x \<in> insert h (alloc_set d)" for x
      using l [of x] hh sx [of x] mem [of x] A(4) unfolding loc(3) A(2) by auto
    then show ?thesis by blast
  qed
  moreover have "h \<notin> alloc_set d" using A(4) by (simp add: alloc_set_def)
  moreover have "blocks d' x = blocks d x" if "x \<in> alloc_set d" for x
  proof -
    obtain a' A' where "arenas d a' = Some A'" "x \<in> set (entries A')" using \<open>x \<in> alloc_set d\<close> by (auto simp: alloc_set_def)
    from core_okD(4,5) [OF core this] have "x \<notin> set ls \<union> set rs" using N(1) by (fastforce simp: taken_def)
    then show ?thesis using that \<open>h \<notin> alloc_set d\<close> by (auto simp: d'(1))
  qed
  ultimately show "allocated h sz ptr d d'" by (simp add: allocated_def d'(1))
qed

lemma insert_left_cases:
  assumes core: "core_ok d"
  obtains lo dl where "insert_left h off None d = (Some lo, dl)" "taken (set_option lo) d dl"
    "case lo of None \<Rightarrow> off = 0
     | Some l \<Rightarrow> off \<noteq> 0 \<and> blocks dl l = \<lparr>freelist = None, blk_arena = blk_arena (blocks d h), blk_offset = blk_offset (blocks d h), blk_size = off\<rparr>"
  | dl where "insert_left h off None d = (None, dl)" "taken {} d dl" "\<not> mallocs_ok d"
proof (cases "off = 0")
  case True
  then show thesis using that(1) [of None d] taken_refl [OF core] by (simp add: insert_left_def)
next
  case False
  from core taken_refl [OF core] show thesis
  proof (cases rule: taken_cases)
    case (1 l d2)
    then show thesis using that(1) [of "Some l"] False by (simp add: insert_left_def if_list_def Let_def)
  next
    case (2 d2)
    then show thesis using that(2) False by (simp add: insert_left_def)
  qed
qed

lemma insert_right_cases:
  assumes core: "core_ok d" and N: "taken N d dl" "h \<notin> N" and fit: "off + sz \<le> blk_size (blocks d h)"
  obtains ro dr where "insert_right h off sz None dl = (Some ro, dr)" "taken (N \<union> set_option ro) d dr" "set_option ro \<inter> N = {}"
    "\<forall>x\<in>N. blocks dr x = blocks dl x"
    "case ro of None \<Rightarrow> off + sz = blk_size (blocks d h)
     | Some r \<Rightarrow> off + sz \<noteq> blk_size (blocks d h) \<and> blocks dr r = \<lparr>freelist = None, blk_arena = blk_arena (blocks d h),
         blk_offset = blk_offset (blocks d h) + off + sz, blk_size = blk_size (blocks d h) - off - sz\<rparr>"
  | dr where "insert_right h off sz None dl = (None, dr)" "taken N d dr" "\<not> mallocs_ok d"
proof -
  have hb: "blocks dl h = blocks d h" using N by (simp add: taken_def)
  show thesis
  proof (cases "off + sz = blk_size (blocks d h)")
    case True
    then show thesis using that(1) [of None dl] N(1) hb by (simp add: insert_right_def)
  next
    case False
    then have gt: "blk_size (blocks d h) > off + sz" using fit by simp
    from core N(1) show thesis
    proof (cases rule: taken_cases)
      case (1 r d2)
      show thesis
        using that(1) [of "Some r" "set_block r \<lparr>freelist = None, blk_arena = blk_arena (blocks d h),
          blk_offset = blk_offset (blocks d h) + off + sz, blk_size = blk_size (blocks d h) - off - sz\<rparr> d2"] 1 gt False hb
        by (auto simp: insert_right_def if_list_def Let_def algebra_simps)
    next
      case (2 d2)
      then show thesis using that(2) gt hb by (simp add: insert_right_def)
    qed
  qed
qed

lemma insert_link_blocks:
  assumes "h \<notin> set_option lo" "h \<notin> set_option ro"
  shows "blocks (insert_link h lo ro None d) = (blocks d)(h := (blocks d h)
    \<lparr>blk_offset := blk_offset (blocks d h) + (case lo of None \<Rightarrow> 0 | Some l \<Rightarrow> blk_size (blocks d l)),
     blk_size := blk_size (blocks d h) - (case lo of None \<Rightarrow> 0 | Some l \<Rightarrow> blk_size (blocks d l))
       - (case ro of None \<Rightarrow> 0 | Some r \<Rightarrow> blk_size (blocks d r))\<rparr>)"
  using assms by (cases lo; cases ro; simp add: insert_link_def if_list_def Let_def)

lemma insert_link_arenas:
  assumes "h \<notin> set_option lo" "h \<notin> set_option ro" "arenas d a = Some A" "entries A = xs @ [h] @ ys" "h \<notin> set xs" "blk_arena (blocks d h) = a"
  shows "arenas (insert_link h lo ro None d) = (arenas d)(a \<mapsto> A\<lparr>entries :=
    xs @ ((case lo of None \<Rightarrow> [] | Some l \<Rightarrow> [l]) @ [h] @ (case ro of None \<Rightarrow> [] | Some r \<Rightarrow> [r])) @ ys\<rparr>)"
proof -
  have 1: "insert_after r h (xs @ l # h # ys) = xs @ l # h # r # ys" if "lo = Some l" for l r
    using insert_after_split [of h "xs @ [l]" r ys] assms(1,5) that by simp
  have 2: "insert_before l h (xs @ h # ys) = xs @ l # h # ys" "insert_after r h (xs @ h # ys) = xs @ h # r # ys" for l r
    using insert_before_split insert_after_split assms(5) by simp_all
  have 3: "A\<lparr>entries := xs @ h # ys\<rparr> = A" using assms(4) by simp
  show ?thesis
    using assms(1-4,6) 1 2 3 by (cases lo; cases ro; simp add: insert_link_def if_list_def Let_def fun_upd_idem)
qed

lemma insert_replayed:
  assumes ok: "arenas_ok d" and A: "arenas d a = Some A" "entries A = xs @ [h] @ ys" "arena_type A = RADV_SHADER_ARENA_REPLAYED"
      "is_hole (blocks d h)"
    and fit: "unat off + unat sz \<le> unat (blk_size (blocks d h))" "sz \<noteq> 0"
  obtains d1 d' where "insert_block h off sz None d = (Some h, d1)" "d' = set_block h ((blocks d1 h)\<lparr>freelist := Some ptr\<rparr>) d1"
    "arenas_ok d'" "allocated h sz ptr d d'" "skeleton d' = skeleton d" "frame d' = frame d"
    "blk_offset (blocks d' h) = blk_offset (blocks d h) + off" "blk_arena (blocks d' h) = a"
  | d1 where "insert_block h off sz None d = (None, d1)" "kept d d1" "\<not> mallocs_ok d"
proof -
  have core: "core_ok d" using ok by (simp add: arenas_ok_def)
  note hb = block_in_arena [OF core A(1,2), of h, simplified]
  have out: "h \<notin> N" if "taken N d dx" for N dx
    using that core_okD(4,5) [OF core A(1)] A(2) by (fastforce simp: taken_def)
  have w: "unat (off + sz) = unat off + unat sz" using fit(1) unat_bound [of "blk_size (blocks d h)"] by (intro unat_add_no_wrap) simp
  then have le: "off + sz \<le> blk_size (blocks d h)" using fit(1) by (simp add: word_le_nat_alt)
  from core show thesis
  proof (cases rule: insert_left_cases [where h = h and off = off])
    case (1 lo dl)
    from core 1(2) out [OF 1(2)] le show thesis
    proof (cases rule: insert_right_cases)
      case r: (1 ro dr)
      let ?ls = "case lo of None \<Rightarrow> [] | Some l \<Rightarrow> [l]" and ?rs = "case ro of None \<Rightarrow> [] | Some r \<Rightarrow> [r]"
      have s: "set ?ls = set_option lo" "set ?rs = set_option ro" by (cases lo; simp) (cases ro; simp)
      have N: "taken (set ?ls \<union> set ?rs) d dr" unfolding s by (rule r(2))
      have hn: "h \<notin> set_option lo" "h \<notin> set_option ro" using out [OF r(2)] by auto
      let ?d1 = "insert_link h lo ro None dr"
      let ?d' = "set_block h ((blocks ?d1 h)\<lparr>freelist := Some ptr\<rparr>) ?d1"
      have t: "blocks dr h = blocks d h" "arenas dr = arenas d" using r(2) hn by (auto simp: taken_def)
      have lb: "lo = Some l \<Longrightarrow> blocks dr l = \<lparr>freelist = None, blk_arena = a, blk_offset = blk_offset (blocks d h), blk_size = off\<rparr>" for l
        using 1(3) r(4) hb(3) by auto
      have rb: "ro = Some r \<Longrightarrow> blocks dr r = \<lparr>freelist = None, blk_arena = a, blk_offset = blk_offset (blocks d h) + off + sz,
          blk_size = blk_size (blocks d h) - off - sz\<rparr>" for r using r(5) hb(3) by auto
      have ob: "x \<notin> set_option lo \<Longrightarrow> x \<notin> set_option ro \<Longrightarrow> blocks dr x = blocks d x" for x using r(2) by (simp add: taken_def)
      have full: "ro = None \<Longrightarrow> blk_size (blocks d h) - off = sz" "ro = None \<Longrightarrow> lo = None \<Longrightarrow> blk_size (blocks d h) = sz" "lo = None \<Longrightarrow> off = 0"
        using r(5) 1(3) by (auto simp: algebra_simps)
      have B: "blocks ?d' = (\<lambda>x. if x = h then \<lparr>freelist = Some ptr, blk_arena = a, blk_offset = blk_offset (blocks d h) + off, blk_size = sz\<rparr>
        else if x \<in> set ?ls then \<lparr>freelist = None, blk_arena = a, blk_offset = blk_offset (blocks d h), blk_size = off\<rparr>
        else if x \<in> set ?rs then \<lparr>freelist = None, blk_arena = a, blk_offset = blk_offset (blocks d h) + off + sz,
          blk_size = blk_size (blocks d h) - off - sz\<rparr> else blocks d x)"
      proof -
        have h': "blocks ?d' h = \<lparr>freelist = Some ptr, blk_arena = a, blk_offset = blk_offset (blocks d h) + off, blk_size = sz\<rparr>"
          using insert_link_blocks [OF hn, of dr] lb rb full t(1) hb(3) by (cases lo; cases ro; simp)
        have x': "x \<noteq> h \<Longrightarrow> blocks ?d' x = blocks dr x" for x using insert_link_blocks [OF hn, of dr] by simp
        show ?thesis
        proof
          fix x
          consider "x = h" | "x \<noteq> h" "lo = Some x" | "x \<noteq> h" "lo \<noteq> Some x" "ro = Some x" | "x \<noteq> h" "lo \<noteq> Some x" "ro \<noteq> Some x" by blast
          then show "blocks ?d' x = (if x = h then \<lparr>freelist = Some ptr, blk_arena = a, blk_offset = blk_offset (blocks d h) + off, blk_size = sz\<rparr>
            else if x \<in> set ?ls then \<lparr>freelist = None, blk_arena = a, blk_offset = blk_offset (blocks d h), blk_size = off\<rparr>
            else if x \<in> set ?rs then \<lparr>freelist = None, blk_arena = a, blk_offset = blk_offset (blocks d h) + off + sz,
              blk_size = blk_size (blocks d h) - off - sz\<rparr> else blocks d x)"
          proof cases
            case 1
            then show ?thesis using h' by simp
          next
            case 2
            then show ?thesis using x' lb by simp
          next
            case 3
            then show ?thesis using x' rb by (auto split: option.splits)
          next
            case 4
            then show ?thesis using x' ob [of x] by (auto simp: elem_set split: option.splits)
          qed
        qed
      qed
      have R: "arenas ?d' = (arenas d)(a \<mapsto> A\<lparr>entries := xs @ (?ls @ [h] @ ?rs) @ ys\<rparr>)"
        using insert_link_arenas [OF hn _ A(2) hb(4), of dr a] t A(1) hb(3) by simp
      have F: "frame ?d' = frame dr" "fresh ?d' = fresh dr" "shader_block_obj_pool ?d' = shader_block_obj_pool dr" "\<And>k. the_list k ?d' = the_list k dr"
        by (cases lo; cases ro; simp add: insert_link_def if_list_def Let_def)+
      have z: "if off = 0 then ?ls = [] else ?ls = [the lo]" "if off + sz = blk_size (blocks d h) then ?rs = [] else ?rs = [the ro]" "set ?ls \<inter> set ?rs = {}"
        using 1(3) r(3,5) by (cases lo; cases ro; simp)+
      have "insert_block h off sz None d = (Some h, ?d1)" using 1(1) r(1) by (simp add: insert_block_def)
      moreover have "frame ?d' = frame d" using F(1) r(2) by (simp add: taken_def)
      moreover have "blk_offset (blocks ?d' h) = blk_offset (blocks d h) + off" "blk_arena (blocks ?d' h) = a" unfolding B by simp_all
      ultimately show thesis using that(1) [OF _ refl] insert_fill [OF ok A fit N z B R F] by blast
    next
      case r: (2 dr)
      then show thesis using that(2) 1(1) taken_kept [OF core r(2)] by (simp add: insert_block_def)
    qed
  next
    case (2 dl)
    then show thesis using that(2) taken_kept [OF core 2(2)] by (simp add: insert_block_def)
  qed
qed

text \<open>The hole of the arena that has room for the block at its place.\<close>

definition covers :: "radv_serialized_shader_arena_block \<Rightarrow> radv_shader_arena_block \<Rightarrow> bool" where
  "covers src v \<longleftrightarrow>
     is_hole v \<and> unat (blk_offset v) \<le> unat (src_offset src) \<and>
     unat (src_offset src) + unat (src_size src) \<le> unat (blk_offset v) + unat (blk_size v)"

definition src_ok :: "radv_serialized_shader_arena_block \<Rightarrow> bool" where
  "src_ok src \<longleftrightarrow> src_arena_va src \<noteq> 0 \<and> src_size src \<noteq> 0 \<and> unat (src_offset src) + unat (src_size src) < 2 ^ 32"

lemma replay_loop_none:
  assumes src: "src_ok src" and bound: "\<forall>x\<in>set bs. unat (blk_offset (blocks d x)) + unat (blk_size (blocks d x)) < 2 ^ 32"
    and no: "\<forall>x\<in>set bs. \<not> covers src (blocks d x)"
  shows "replay_loop src ptr d bs = (None, d)"
  using bound no
proof (induction bs)
  case (Cons g bs)
  have e: "unat (blk_offset (blocks d g) + blk_size (blocks d g)) = unat (blk_offset (blocks d g)) + unat (blk_size (blocks d g))"
    "unat (src_offset src + src_size src) = unat (src_offset src) + unat (src_size src)"
    using Cons.prems(1) src by (simp_all add: src_ok_def unat_add_no_wrap)
  show ?case
    using Cons e by (auto simp: Let_def word_less_nat_alt covers_def)
qed simp

lemma replay_loop_found:
  assumes src: "src_ok src" and t: "tiles (blocks d) s bs e" "e < 2 ^ 32" and h: "h \<in> set bs" "covers src (blocks d h)"
  shows "replay_loop src ptr d bs = (case insert_block h (src_offset src - blk_offset (blocks d h)) (src_size src) None d of
     (None, d) \<Rightarrow> (None, d) | (Some block, d) \<Rightarrow> (Some h, set_block block ((blocks d block)\<lparr>freelist := Some ptr\<rparr>) d))"
  using t(1) h(1)
proof (induction bs arbitrary: s)
  case (Cons g bs)
  have "unat (blk_offset (blocks d g)) + unat (blk_size (blocks d g)) \<le> e" using tiles_bounds [OF Cons.prems(1), of g] by simp
  then have e: "unat (blk_offset (blocks d g) + blk_size (blocks d g)) = unat (blk_offset (blocks d g)) + unat (blk_size (blocks d g))"
    "unat (src_offset src + src_size src) = unat (src_offset src) + unat (src_size src)"
    using t(2) src by (simp_all add: src_ok_def unat_add_no_wrap)
  show ?case
  proof (cases "g = h")
    case True
    then show ?thesis using h(2) e by (auto simp: Let_def covers_def word_less_nat_alt)
  next
    case False
    then have hb: "h \<in> set bs" using Cons.prems(2) by simp
    have tb: "tiles (blocks d) (s + unat (blk_size (blocks d g))) bs e" "unat (blk_offset (blocks d g)) = s" using Cons.prems(1) by simp_all
    have "s + unat (blk_size (blocks d g)) \<le> unat (blk_offset (blocks d h))" using tiles_bounds [OF tb(1) hb] by simp
    moreover have "0 < unat (src_size src)" using src by (simp add: src_ok_def unat_gt_0)
    ultimately have "blk_offset (blocks d g) + blk_size (blocks d g) < src_offset src + src_size src"
      using h(2) e tb(2) by (simp add: word_less_nat_alt covers_def)
    then show ?thesis using Cons.IH [OF tb(1) hb] by (simp add: Let_def)
  qed
qed simp

text \<open>The loop on an arena at a replayed address.\<close>

lemma replay_loop_cases:
  assumes ok: "arenas_ok d" and src: "src_ok src" and A: "arenas d a = Some A" "arena_type A = RADV_SHADER_ARENA_REPLAYED"
  obtains (made) h d' where "replay_loop src ptr d (entries A) = (Some h, d')" "arenas_ok d'" "allocated h (src_size src) ptr d d'"
    "skeleton d' = skeleton d" "frame d' = frame d" "blk_offset (blocks d' h) = src_offset src" "blk_arena (blocks d' h) = a"
    "\<exists>x\<in>set (entries A). covers src (blocks d x)"
  | (refused) d' where "replay_loop src ptr d (entries A) = (None, d')" "kept d d'"
      "\<not> mallocs_ok d \<or> \<not> (\<exists>x\<in>set (entries A). covers src (blocks d x))"
proof -
  have core: "core_ok d" using ok by (simp add: arenas_ok_def)
  have t: "tiles (blocks d) 0 (entries A) (unat (arena_bytes A))" using core_okD(2) [OF core A(1)] by (simp add: arena_ok_def blocks_ok_def)
  have lim: "unat (arena_bytes A) < 2 ^ 32" using unat_bound [of "arena_bytes A"] by simp
  show thesis
  proof (cases "\<exists>x\<in>set (entries A). covers src (blocks d x)")
    case True
    then obtain h where h: "h \<in> set (entries A)" "covers src (blocks d h)" by blast
    then obtain xs ys where xs: "entries A = xs @ [h] @ ys" by (metis append_Cons append_Nil split_list)
    let ?off = "src_offset src - blk_offset (blocks d h)"
    have o: "unat ?off = unat (src_offset src) - unat (blk_offset (blocks d h))" using h(2) by (simp add: covers_def unat_sub_no_wrap)
    then have fit: "unat ?off + unat (src_size src) \<le> unat (blk_size (blocks d h))" using h(2) unfolding covers_def by linarith
    note loop = replay_loop_found [OF src t lim h, of ptr]
    have hole: "is_hole (blocks d h)" "src_size src \<noteq> 0" using h(2) src by (simp_all add: covers_def src_ok_def)
    from ok A(1) xs A(2) hole(1) fit hole(2) show thesis
    proof (cases rule: insert_replayed [where ptr = ptr])
      case (1 d1 d')
      then show thesis using made [of h d'] loop True by simp
    next
      case (2 d1)
      then show thesis using refused [of d1] loop by simp
    qed
  next
    case False
    have "\<forall>x\<in>set (entries A). unat (blk_offset (blocks d x)) + unat (blk_size (blocks d x)) < 2 ^ 32"
      using tiles_bounds [OF t] lim by fastforce
    from replay_loop_none [OF src this] False have "replay_loop src ptr d (entries A) = (None, d)" by blast
    then show thesis using refused [of d] False taken_kept [OF core taken_refl [OF core]] by blast
  qed
qed

text \<open>The new arena at a replayed address.\<close>

lemma replay_arena_ok:
  assumes ok: "arenas_ok d" and T: "capture_replay_arena_vas d = Some T" "map_of T va = None"
    and cr: "created None S RADV_SHADER_ARENA_REPLAYED va a h d d1" and S: "S \<noteq> 0"
    and d': "d' = d1\<lparr>capture_replay_arena_vas := Some ((va, a) # T), shader_arenas := shader_arenas d1 @ [a]\<rparr>"
  shows "arenas_ok d'" "alloc_set d' = alloc_set d" "\<forall>x\<in>alloc_set d. blocks d' x = blocks d x"
    "\<exists>A. arenas d' a = Some A \<and> entries A = [h] \<and> arena_type A = RADV_SHADER_ARENA_REPLAYED"
    "blocks d' h = \<lparr>freelist = None, blk_arena = a, blk_offset = 0, blk_size = S\<rparr>"
    "set (mallocs d') \<subseteq> set (mallocs d)"
proof -
  have core: "core_ok d" and lists: "lists_ok d" using ok by (simp_all add: arenas_ok_def)
  obtain p v where c: "a = fresh d" "Suc a < fresh d'" "h < fresh d'" "h \<in> set (shader_block_obj_pool d) \<or> Suc a < h"
    "set (shader_block_obj_pool d') \<subseteq> set (shader_block_obj_pool d) - {h}" "distinct (shader_block_obj_pool d')"
    "blocks d' = (blocks d)(h := \<lparr>freelist = None, blk_arena = a, blk_offset = 0, blk_size = S\<rparr>)"
    "arenas d' = (arenas d)(a \<mapsto> \<lparr>entries = [h], arena_bytes = S, arena_bo = Suc a, arena_ptr = p, arena_type = RADV_SHADER_ARENA_REPLAYED\<rparr>)"
    "\<And>k. the_list k d' = the_list k d" "bos d' = (bos d)(Suc a \<mapsto> v)" "bo_bytes v = S" "bo_va v = va"
    "shader_arenas d' = shader_arenas d @ [a]" "capture_replay_arena_vas d' = Some ((va, a) # T)" "set (mallocs d') \<subseteq> set (mallocs d)"
    using cr by (auto simp: created_def tables_def d')
  let ?A = "\<lparr>entries = [h], arena_bytes = S, arena_bo = Suc a, arena_ptr = p, arena_type = RADV_SHADER_ARENA_REPLAYED\<rparr>"
  have aok: "arena_ok (blocks d') a ?A" using S by (simp add: arena_ok_def blocks_ok_def c(7))
  have hn: "h \<notin> hole_set d k" for k using c(1,4) core_okD(4,5) [OF core] by (fastforce simp: hole_set_def)
  have fl: "free_list_ok (blocks d')
      (hole_set d k \<union> {b \<in> set (entries ?A). is_hole (blocks d' b) \<and> list_of_type (arena_type ?A) = Some k}) (the_list k d')" for k
  proof -
    have "\<forall>x\<in>hole_set d k. blocks d' x = blocks d x" using hn by (auto simp: c(7))
    then show ?thesis using lists free_list_ok_cong [of "hole_set d k" "blocks d'" "blocks d"] by (simp add: list_of_type_def lists_ok_def c(9))
  qed
  note res = new_arena_ok [OF ok c(1,2) _ _ c(6) _ c(8) _ aok c(13,10) _ _ fl]
  show "arenas_ok d'" "\<forall>x\<in>alloc_set d. blocks d' x = blocks d x" using c T by (intro res; auto)+
  have "alloc_set d' = alloc_set d \<union> {b \<in> set (entries ?A). \<not> is_hole (blocks d' b)}" using c T by (intro res(2); auto)
  then show "alloc_set d' = alloc_set d" by (simp add: c(7))
  show "\<exists>A. arenas d' a = Some A \<and> entries A = [h] \<and> arena_type A = RADV_SHADER_ARENA_REPLAYED" using c(8) by simp
  show "blocks d' h = \<lparr>freelist = None, blk_arena = a, blk_offset = 0, blk_size = S\<rparr>" using c(7) by simp
  show "set (mallocs d') \<subseteq> set (mallocs d)" by (rule c)
qed

text \<open>The place of the block is free: in a hole of the arena at that address, or in the new arena.\<close>

definition room_at :: "radv_serialized_shader_arena_block \<Rightarrow> shader_device \<Rightarrow> bool" where
  "room_at src d \<longleftrightarrow>
     (case map_of (the (capture_replay_arena_vas d)) (src_arena_va src) of
        Some a \<Rightarrow> \<exists>x\<in>set (entries (the (arenas d a))). covers src (blocks d x)
      | None \<Rightarrow> unat (src_offset src) + unat (src_size src) \<le> unat (new_arena_size d 0 (src_arena_size src)))"

lemma replay_table:
  assumes "tables_ok d" "capture_replay_arena_vas d = Some T" "(va, a) \<in> set T"
  shows "\<exists>A v. arenas d a = Some A \<and> arena_type A = RADV_SHADER_ARENA_REPLAYED \<and> bos d (arena_bo A) = Some v \<and> bo_va v = va"
  using assms unfolding tables_ok_def skeleton_def by fastforce

lemma replay_cases:
  assumes ok: "arenas_ok d" and T: "capture_replay_arena_vas d = Some T" and src: "src_ok src"
  obtains (made) b d' where "radv_replay_shader_arena_block src ptr d = Some (Some b, d')" "arenas_ok d'" "allocated b (src_size src) ptr d d'"
    "blk_offset (blocks d' b) = src_offset src" "(src_arena_va src, blk_arena (blocks d' b)) \<in> set (the (capture_replay_arena_vas d'))"
    "capture_replay_arena_vas d' \<noteq> None" "room_at src d"
  | (refused) d' where "radv_replay_shader_arena_block src ptr d = Some (None, d')" "arenas_ok d'" "alloc_set d' = alloc_set d"
    "\<forall>x\<in>alloc_set d. blocks d' x = blocks d x" "\<not> reliable d \<or> \<not> room_at src d"
proof (cases "map_of T (src_arena_va src)")
  case (Some a)
  have tables: "tables_ok d" using ok by (simp add: arenas_ok_def)
  obtain A where A: "arenas d a = Some A" "arena_type A = RADV_SHADER_ARENA_REPLAYED"
    using replay_table [OF tables T map_of_SomeD [OF Some]] by blast
  have room: "room_at src d \<longleftrightarrow> (\<exists>x\<in>set (entries A). covers src (blocks d x))" using Some T A(1) by (simp add: room_at_def)
  have e: "radv_replay_shader_arena_block src ptr d = Some (replay_loop src ptr d (entries A))"
    using T Some A(1) by (simp add: radv_replay_shader_arena_block_def)
  from ok src A show thesis
  proof (cases rule: replay_loop_cases [where ptr = ptr])
    case l: (made h d')
    then show thesis
      using made [of h d'] l e room T map_of_SomeD [OF Some] frameD(3) [OF l(5)] by simp
  next
    case l: (refused d')
    have "\<not> reliable d \<or> \<not> room_at src d" using l(3) room by (auto simp: reliable_def mallocs_ok_def)
    then show thesis using refused [of d'] e l(1) kept_ok(1,2,4) [OF ok l(2)] by simp
  qed
next
  case None
  let ?S = "new_arena_size d 0 (src_arena_size src)" and ?va = "src_arena_va src"
  have core: "core_ok d" "tables_ok d" using ok by (simp_all add: arenas_ok_def)
  have S: "?S \<noteq> 0" using new_arena_size_0(2) [of 0 d] by (cases "src_arena_size src = 0") (auto simp: new_arena_size_def)
  have ty: "new_arena_type True ?va = RADV_SHADER_ARENA_REPLAYED" using src by (simp add: new_arena_type_def src_ok_def)
  from core disjI1 [OF refl] show thesis
  proof (cases rule: create_cases [where fl = None and min_size = 0 and sz = "src_arena_size src" and replayable = True and va = ?va])
    case c: (made a h d1)
    let ?d2 = "d1\<lparr>capture_replay_arena_vas := Some ((?va, a) # T), shader_arenas := shader_arenas d1 @ [a]\<rparr>"
    note r = replay_arena_ok [OF ok T None c(2) [unfolded ty] S refl]
    obtain A where A: "arenas ?d2 a = Some A" "entries A = [h]" "arena_type A = RADV_SHADER_ARENA_REPLAYED" using r(4) by blast
    have room: "room_at src d \<longleftrightarrow> (\<exists>x\<in>set (entries A). covers src (blocks ?d2 x))"
      using None T r(5) by (simp add: room_at_def A(2) covers_def)
    have e: "radv_replay_shader_arena_block src ptr d = Some (replay_loop src ptr ?d2 (entries A))"
      using T None c(1) A(1) by (simp add: radv_replay_shader_arena_block_def Let_def)
    from r(1) src A(1,3) show thesis
    proof (cases rule: replay_loop_cases [where ptr = ptr])
      case l: (made g d')
      have "allocated g (src_size src) ptr d d'" using l(3) r(2,3) by (simp add: allocated_def)
      then show thesis using made [of g d'] e room l frameD(3) [OF l(5)] by simp
    next
      case l: (refused d')
      have "\<not> mallocs_ok ?d2 \<Longrightarrow> \<not> reliable d" using r(6) by (auto simp: reliable_def mallocs_ok_def)
      then have "\<not> reliable d \<or> \<not> room_at src d" using l(3) room by blast
      moreover have "alloc_set d' = alloc_set d" "\<forall>x\<in>alloc_set d. blocks d' x = blocks d x"
        using kept_ok(2,4) [OF r(1) l(2)] r(2,3) by simp_all
      ultimately show thesis using refused [of d'] e l(1) kept_ok(1) [OF r(1) l(2)] by simp
    qed
  next
    case c: (failed d')
    have "radv_replay_shader_arena_block src ptr d = Some (None, d')"
      using T None c(1) by (simp add: radv_replay_shader_arena_block_def)
    then show thesis using refused [of d'] c(3) kept_ok(1,2,4) [OF ok c(2)] by simp
  qed
qed

section \<open>The allocator in use\<close>

text \<open>The states of a device: after initialisation, every sequence of the three operations with the outcomes
  of the fallible calls as given. The mapping of a buffer object may fail in a replay; an allocation
  that needs a new arena can map it, since a failure there breaks the free list
  (\<open>map_failure_leaves_hole\<close> below). A block is freed at most once, sizes do not wrap when they are
  rounded up, and a serialized block has a size, an address, and an end that does not wrap.\<close>

inductive shader_run :: "shader_device \<Rightarrow> bool" where
  start: "arenas d = Map.empty \<Longrightarrow> bos d = Map.empty \<Longrightarrow> capture_replay_arena_vas d \<in> {None, Some []} \<Longrightarrow>
    shader_run (radv_init_shader_arenas d)"
| alloc: "shader_run d \<Longrightarrow> shader_alloc_size d sz \<noteq> 0 \<Longrightarrow>
    (find_hole (if replayable then Capture_list else Shader_list) (shader_alloc_size d sz) d = None \<longrightarrow> can_map d) \<Longrightarrow>
    radv_alloc_shader_memory sz replayable ptr d = Some (res, d') \<Longrightarrow> shader_run d'"
| free: "shader_run d \<Longrightarrow> c \<in> alloc_set d \<Longrightarrow> shader_run (radv_free_shader_memory (Some c) d)"
| replay: "shader_run d \<Longrightarrow> src_ok src \<Longrightarrow> radv_replay_shader_arena_block src ptr d = Some (res, d') \<Longrightarrow> shader_run d'"

lemma init_ok:
  assumes "arenas d = Map.empty" "bos d = Map.empty" "capture_replay_arena_vas d \<in> {None, Some []}"
  shows "arenas_ok (radv_init_shader_arenas d)"
proof -
  have n: "unat RADV_SHADER_ALLOC_NUM_FREE_LISTS = 8"
    by (simp add: RADV_SHADER_ALLOC_NUM_FREE_LISTS_def RADV_SHADER_ALLOC_MAX_SIZE_CLASS_def RADV_SHADER_ALLOC_MIN_SIZE_CLASS_def)
  let ?d = "radv_init_shader_arenas d"
  have f: "arenas ?d = Map.empty" "bos ?d = Map.empty" "capture_replay_arena_vas ?d = capture_replay_arena_vas d"
    "shader_arenas ?d = []" "shader_block_obj_pool ?d = []" "the_list k ?d = \<lparr>size_mask = 0, free_lists = replicate 8 []\<rparr>" for k
    using assms by (cases k; simp add: radv_init_shader_arenas_def Let_def n)+
  have "core_ok ?d" by (simp add: core_ok_def f)
  moreover have "lists_ok ?d" by (simp add: lists_ok_def free_list_ok_def hole_set_def f)
  moreover have "tables_ok ?d" using assms(3) by (auto simp: tables_ok_def skeleton_def f)
  ultimately show ?thesis by (simp add: arenas_ok_def)
qed

lemma run_ok: "shader_run d \<Longrightarrow> arenas_ok d"
proof (induction rule: shader_run.induct)
  case (start d)
  then show ?case by (rule init_ok)
next
  case (alloc d sz replayable ptr res d')
  from alloc.IH alloc.hyps(3,2) show ?case
  proof (cases rule: alloc_cases [where replayable = replayable and ptr = ptr])
    case (failed d1)
    then show ?thesis using alloc.hyps(4) kept_ok(1) [OF alloc.IH failed(2)] by simp
  qed (use alloc.hyps(4) in simp_all)
next
  case (free d c)
  then show ?case using free_ok(1) [of d c, OF _ _ refl] by simp
next
  case (replay d src ptr res d')
  obtain T where T: "capture_replay_arena_vas d = Some T" using replay.hyps(3)
    by (cases "capture_replay_arena_vas d") (auto simp: radv_replay_shader_arena_block_def)
  from replay.IH T replay.hyps(2) show ?case
    by (cases rule: replay_cases [where ptr = ptr]) (use replay.hyps(3) in simp_all)
qed

lemma tiles_dvd:
  "tiles B s xs e \<Longrightarrow> n dvd s \<Longrightarrow> \<forall>x\<in>set xs. n dvd unat (blk_size (B x)) \<Longrightarrow> b \<in> set xs \<Longrightarrow> n dvd unat (blk_offset (B b))"
  by (induction xs arbitrary: s) auto

lemma alloc_place:
  assumes ok: "arenas_ok d" and b: "b \<in> alloc_set d"
  shows "\<exists>A v. arenas d (blk_arena (blocks d b)) = Some A \<and> bos d (arena_bo A) = Some v \<and>
    unat (blk_offset (blocks d b)) + unat (blk_size (blocks d b)) \<le> unat (bo_bytes v) \<and>
    (arena_type A \<noteq> RADV_SHADER_ARENA_REPLAYED \<longrightarrow> 256 dvd unat (blk_offset (blocks d b)))"
proof -
  have core: "core_ok d" and tables: "tables_ok d" using ok by (simp_all add: arenas_ok_def)
  obtain a A where A: "arenas d a = Some A" "b \<in> set (entries A)" using b by (auto simp: alloc_set_def)
  have o: "tiles (blocks d) 0 (entries A) (unat (arena_bytes A))"
    "arena_type A \<noteq> RADV_SHADER_ARENA_REPLAYED \<longrightarrow> (\<forall>x\<in>set (entries A). 256 dvd unat (blk_size (blocks d x)))"
    using core_okD(2) [OF core A(1)] by (auto simp: arena_ok_def blocks_ok_def)
  have "skeleton d a = Some (arena_bytes A, arena_bo A, arena_type A)" using A(1) by (simp add: skeleton_def)
  then obtain v where "bos d (arena_bo A) = Some v" "bo_bytes v = arena_bytes A" using tables unfolding tables_ok_def by blast
  then show ?thesis
    using A core_okD(6) [OF core A] tiles_bounds [OF o(1) A(2)] tiles_dvd [OF o(1), of 256 b] o(2) by auto
qed

lemma allocs_disjoint:
  assumes ok: "arenas_ok d" and b: "b \<in> alloc_set d" "c \<in> alloc_set d" "b \<noteq> c" "blk_arena (blocks d b) = blk_arena (blocks d c)"
  shows "{unat (blk_offset (blocks d b))..<unat (blk_offset (blocks d b)) + unat (blk_size (blocks d b))} \<inter>
    {unat (blk_offset (blocks d c))..<unat (blk_offset (blocks d c)) + unat (blk_size (blocks d c))} = {}"
proof -
  have core: "core_ok d" using ok by (simp add: arenas_ok_def)
  obtain a A where A: "arenas d a = Some A" "b \<in> set (entries A)" using b(1) by (auto simp: alloc_set_def)
  obtain a' A' where A': "arenas d a' = Some A'" "c \<in> set (entries A')" using b(2) by (auto simp: alloc_set_def)
  have "a' = a" using core_okD(6) [OF core A] core_okD(6) [OF core A'] b(4) by simp
  then have "c \<in> set (entries A)" using A A' by simp
  moreover have "tiles (blocks d) 0 (entries A) (unat (arena_bytes A))" using core_okD(2) [OF core A(1)] by (simp add: arena_ok_def blocks_ok_def)
  ultimately show ?thesis using tiles_disjoint [of "blocks d" 0 "entries A" _ b c] A(2) b(3) by fastforce
qed

lemma nothing_left:
  assumes ok: "arenas_ok d" and none: "alloc_set d = {}" "capture_replay_arena_vas d = None"
  shows "arenas d = Map.empty" "bos d = Map.empty" "shader_arenas d = []"
proof -
  have core: "core_ok d" and tables: "tables_ok d" using ok by (simp_all add: arenas_ok_def)
  have "arenas d a = None" for a
  proof (rule ccontr)
    assume "arenas d a \<noteq> None"
    then obtain A where A: "arenas d a = Some A" by blast
    have "skeleton d a = Some (arena_bytes A, arena_bo A, arena_type A)" using A by (simp add: skeleton_def)
    then have "arena_type A \<noteq> RADV_SHADER_ARENA_REPLAYED" using tables none(2) unfolding tables_ok_def by auto
    then obtain b where "b \<in> set (entries A)" "\<not> is_hole (blocks d b)" using core_okD(2) [OF core A] unfolding arena_ok_def by blast
    then show False using alloc_set_member [OF A] none(1) by blast
  qed
  then show e: "arenas d = Map.empty" by blast
  have "skeleton d = Map.empty" by (simp add: skeleton_def fun_eq_iff e)
  then have "dom (bos d) = {}" "set (shader_arenas d) = {}" using tables unfolding tables_ok_def by auto
  then show "bos d = Map.empty" "shader_arenas d = []" by simp_all
qed

text \<open>Without blocks in use the free lists are empty.\<close>

lemma no_holes_left:
  assumes ok: "arenas_ok d" and none: "alloc_set d = {}"
  shows "size_mask (the_list k d) = 0"
proof -
  have core: "core_ok d" and lists: "lists_ok d" using ok by (simp_all add: arenas_ok_def)
  have "hole_set d k = {}"
  proof (rule ccontr)
    assume "hole_set d k \<noteq> {}"
    then obtain a A where A: "arenas d a = Some A" "list_of_type (arena_type A) = Some k" by (auto simp: hole_set_def)
    then obtain b where "b \<in> set (entries A)" "\<not> is_hole (blocks d b)" using core_okD(2) [OF core A(1)] list_of_type_simps [OF A(2)] unfolding arena_ok_def by blast
    then show False using alloc_set_member [OF A(1)] none by blast
  qed
  then have "free_list_ok (blocks d) {} (the_list k d)" using lists by (metis lists_ok_def)
  then have "c < 8 \<Longrightarrow> \<not> bit (size_mask (the_list k d)) c" for c by (simp add: free_list_ok_def)
  then show ?thesis by (intro bit_word_eqI) simp
qed

text \<open>Classes and powers of two.\<close>

lemma class_of_pow:
  assumes n: "8 \<le> n" "n \<le> 15" and s: "unat s \<le> 2 ^ n" and h: "2 ^ n \<le> unat z"
  shows "unat (get_size_class s True) \<le> cls z"
proof -
  have "z \<noteq> 0" using h by auto
  from logbase2_top [OF this] have "unat z < 2 ^ (unat (util_logbase2 z) + 1)" by (simp add: top_bit_def)
  then have "(2::nat) ^ n < 2 ^ (unat (util_logbase2 z) + 1)" using h by linarith
  from pow2_lessD [OF this] have z: "n \<le> unat (util_logbase2 z)" by simp
  have "unat (util_logbase2_ceil s) \<le> n"
  proof (cases "1 < unat s")
    case True
    have d: "unat (s - 1) = unat s - 1" using True by (subst unat_sub_no_wrap) simp_all
    then have "s - 1 \<noteq> 0" using True by (metis unat_0 zero_less_diff less_irrefl)
    from logbase2_top [OF this] have "2 ^ unat (util_logbase2 (s - 1)) \<le> unat s - 1" by (simp add: top_bit_def d)
    then have "(2::nat) ^ unat (util_logbase2 (s - 1)) < 2 ^ n" using s True by linarith
    from pow2_lessD [OF this] show ?thesis using logbase2_ceil_pow(2) [OF True] by simp
  next
    case False
    then show ?thesis by (simp add: util_logbase2_ceil_def word_le_nat_alt)
  qed
  then show ?thesis using z n by (simp add: get_size_class_nat) arith
qed

text \<open>Above 32 KiB every hole of the last class is looked at.\<close>

lemma find_hole_large:
  assumes "core_ok d" "lists_ok d" "32768 < unat sz" "h \<in> hole_set d k" "sz \<le> blk_size (blocks d h)"
  shows "find_hole k sz d \<noteq> None"
proof -
  let ?l = "the_list k d"
  have "(2::nat) ^ 15 < 2 ^ unat (util_logbase2_ceil sz)" using logbase2_ceil_pow(1) [of sz] assms(3) by simp
  from pow2_lessD [OF this] have s: "unat (get_size_class sz True) = 7" by (simp add: get_size_class_nat)
  have "32768 \<le> unat (blk_size (blocks d h))" using assms(3,5) by (simp add: word_le_nat_alt)
  then have c: "cls (blk_size (blocks d h)) = 7" by (rule cls_large)
  have l: "set (free_lists ?l ! 7) = {b \<in> hole_set d k. cls (blk_size (blocks d b)) = 7}" "bit (size_mask ?l) 7 \<longleftrightarrow> free_lists ?l ! 7 \<noteq> []"
    using assms(2) by (simp_all add: lists_ok_def free_list_ok_def)
  then have h: "h \<in> set (free_lists ?l ! 7)" using assms(4) c by simp
  let ?x = "ucast (size_mask ?l) AND push_bit (unat (get_size_class sz True)) (BITFIELD_MASK (unat RADV_SHADER_ALLOC_NUM_FREE_LISTS)) :: u32"
  have "free_lists ?l ! 7 \<noteq> []" using h by (metis list.set(1) empty_iff)
  then have "bit ?x 7" unfolding class_mask_bit using l(2) s by simp
  then have "ffs ?x \<noteq> 0" using ffs_0 by blast
  then obtain c where f: "ffs ?x = Suc c" by (meson not0_implies_Suc)
  have "7 \<le> c" "c < 8" using ffs_Suc(1) [OF f] s unfolding class_mask_bit by simp_all
  then have "ffs ?x = 8" using f by simp
  moreover have "find (\<lambda>hole. \<not> blk_size (blocks d hole) < sz) (free_lists ?l ! 7) \<noteq> None"
    using h assms(5) by (auto simp: find_None_iff)
  ultimately show ?thesis unfolding find_hole_def Let_def by simp
qed

lemma find_hole_pow:
  assumes "core_ok d" "lists_ok d" "n \<le> 15" "unat s \<le> 2 ^ n" "8 \<le> n" "h \<in> hole_set d k" "2 ^ n \<le> unat (blk_size (blocks d h))"
  shows "find_hole k s d \<noteq> None"
proof -
  have "(2::nat) ^ n \<le> 2 ^ 15" using assms(3) by (intro power_increasing) simp_all
  then have "unat s \<le> 32768" using assms(4) by simp
  then show ?thesis using find_hole_None [OF assms(1,2) _ _ assms(6)] class_of_pow [OF assms(5,3,4,7)] by fastforce
qed

lemma alloc_reuses:
  assumes ok: "arenas_ok d" and s: "shader_alloc_size d sz = s" "s \<noteq> 0" and k: "k = (if replayable then Capture_list else Shader_list)"
    and found: "find_hole k s d \<noteq> None"
    and r: "radv_alloc_shader_memory sz replayable ptr d = Some (res, d')"
  shows "bos d' = bos d"
proof -
  have core: "core_ok d" and lists: "lists_ok d" using ok by (simp_all add: arenas_ok_def)
  obtain g where g: "find_hole k s d = Some g" using found by blast
  then have e: "use_hole k s ptr g d = (res, d')" using r k s(1) by (simp add: radv_alloc_shader_memory_def Let_def)
  have dvd: "256 dvd unat s" using shader_alloc_size_dvd [of d sz] s(1) by simp
  from ok find_hole_Some [OF lists g] s(2) dvd show ?thesis
  proof (cases rule: use_hole_cases [where ptr = ptr])
    case (1 b d1)
    then show ?thesis using e frameD(2) [OF 1(5)] by simp
  next
    case (2 d1)
    then have "bos d1 = bos d" by (simp add: kept_def tables_def)
    then show ?thesis using e 2(1) by simp
  qed
qed

section \<open>Deviations\<close>

definition new_device :: "(u64 \<times> nat) list option \<Rightarrow> bool list \<Rightarrow> bool list \<Rightarrow> shader_device" where
  "new_device vas malloc_outcomes map_outcomes = radv_init_shader_arenas
     \<lparr>gfx11 = True, instr_prefetch_distance = 0, cpdma_prefetch_writes_memory = False, vram_size_kb = 0,
      shader_use_invisible_vram = False, shader_arenas = [], capture_replay_arena_vas = vas, shader_arena_shift = 0,
      shader_free_list = \<lparr>size_mask = 0, free_lists = []\<rparr>, capture_replay_free_list = \<lparr>size_mask = 0, free_lists = []\<rparr>,
      shader_block_obj_pool = [], blocks = (\<lambda>_. \<lparr>freelist = None, blk_arena = 0, blk_offset = 0, blk_size = 0\<rparr>),
      arenas = Map.empty, bos = Map.empty, fresh = 0, mallocs = malloc_outcomes, bo_creates = [], bo_maps = map_outcomes\<rparr>"

lemma new_device_fields:
  "mallocs (new_device vas m p) = m" "bo_maps (new_device vas m p) = p" "bo_creates (new_device vas m p) = []"
  "fresh (new_device vas m p) = 0" "shader_block_obj_pool (new_device vas m p) = []" "shader_arena_shift (new_device vas m p) = 0"
  "arenas (new_device vas m p) = Map.empty" "bos (new_device vas m p) = Map.empty" "capture_replay_arena_vas (new_device vas m p) = vas"
  by (simp_all add: new_device_def radv_init_shader_arenas_def Let_def)

lemma num_free_lists: "unat RADV_SHADER_ALLOC_NUM_FREE_LISTS = 8"
  by (simp add: RADV_SHADER_ALLOC_NUM_FREE_LISTS_def RADV_SHADER_ALLOC_MAX_SIZE_CLASS_def RADV_SHADER_ALLOC_MIN_SIZE_CLASS_def)

lemma new_device_list: "the_list k (new_device vas m p) = \<lparr>size_mask = 0, free_lists = replicate 8 []\<rparr>"
  by (cases k; simp add: new_device_def radv_init_shader_arenas_def Let_def num_free_lists)

lemma new_device_size: "shader_alloc_size (new_device vas m p) 1000 = 1024"
  by (simp add: shader_alloc_size_def new_device_def radv_init_shader_arenas_def Let_def ac_align_shader_binary_for_prefetch_def
      align32_def ALIGN_POT_def RADV_SHADER_ALLOC_ALIGNMENT_def)

lemma class_1024: "get_size_class 1024 True = 2"
  by code_simp

lemma ffs_zero: "ffs 0 = 0"
  by code_simp

lemma new_device_no_hole: "find_hole Shader_list 1024 (new_device vas m p) = None"
  unfolding find_hole_def Let_def num_free_lists class_1024 new_device_list by (simp add: ffs_zero)

lemma new_device_flags:
  "arena_bo_flags ((new_device vas m p)\<lparr>mallocs := x, fresh := y\<rparr>) False AND RADEON_FLAG_NO_CPU_ACCESS = 0"
  by (simp add: arena_bo_flags_def Let_def new_device_def radv_init_shader_arenas_def RADEON_FLAG_NO_CPU_ACCESS_def
      RADEON_FLAG_GTT_WC_def RADEON_FLAG_NO_INTERPROCESS_SHARING_def RADEON_FLAG_READ_ONLY_def RADEON_FLAG_32BIT_def
      RADEON_FLAG_PREFER_LOCAL_BO_def)

lemma new_device_arena: "new_arena_size (new_device vas m p) 1024 0 = 262144"
  by (simp add: new_arena_size_def new_device_fields RADV_SHADER_ALLOC_MAX_ARENA_SIZE_SHIFT_def RADV_SHADER_ALLOC_MIN_ARENA_SIZE_def)

lemmas first_alloc_steps = radv_alloc_shader_memory_def use_new_arena_def radv_create_shader_arena_def malloc_def succeeds_def
  radv_bo_create_def alloc_block_obj_def Let_def if_list_def new_device_size new_device_no_hole new_device_flags new_device_arena
  new_device_fields new_device_list

text \<open>When the buffer object of a new arena cannot be mapped, the block that stands for the whole arena goes to
  the pool of unused objects but stays in the free list: the arena and its buffer object are gone,
  and the next allocation finds the hole.\<close>

lemma map_failure_leaves_hole:
  "\<exists>d. radv_alloc_shader_memory 1000 False 7 (new_device None [] [False]) = Some (None, d) \<and>
    shader_block_obj_pool d = [Suc (Suc 0)] \<and> arenas d = Map.empty \<and> bos d = Map.empty \<and>
    find_hole Shader_list 1024 d = Some (Suc (Suc 0))"
proof -
  have c7: "get_size_class 262144 False = 7" by code_simp
  obtain d where d: "radv_alloc_shader_memory 1000 False 7 (new_device None [] [False]) = Some (None, d)"
    "shader_block_obj_pool d = [Suc (Suc 0)]" "arenas d = Map.empty" "bos d = Map.empty" "blk_size (blocks d (Suc (Suc 0))) = 262144"
    "the_list Shader_list d = fl_add 7 (Suc (Suc 0)) \<lparr>size_mask = 0, free_lists = replicate 8 []\<rparr>"
    by (simp add: first_alloc_steps arena_fail_def radv_bo_destroy_def c7 fun_upd_idem del: the_list.simps)
  have l: "free_lists (the_list Shader_list d) ! 7 = [Suc (Suc 0)]" "size_mask (the_list Shader_list d) = 128"
    unfolding d(6) by (simp_all add: fl_add_def)
  have "ffs (ucast (128 :: u8) AND push_bit (unat (2 :: u32)) (BITFIELD_MASK 8)) = 8" by code_simp
  then have "find_hole Shader_list 1024 d = Some (Suc (Suc 0))"
    using l d(5) unfolding find_hole_def Let_def num_free_lists class_1024 l(2) by simp
  then show ?thesis using d by blast
qed

text \<open>When the object for the rest of a new arena cannot be allocated, the result of \<open>insert_block\<close>, a null
  pointer, is written through.\<close>

lemma insert_failure_crashes:
  "radv_alloc_shader_memory 1000 False 7 (new_device None [True, True, False] []) = None"
  by (simp add: first_alloc_steps insert_block_def insert_left_def insert_right_def)

section \<open>Properties\<close>

lemma new_device_run: "vas \<in> {None, Some []} \<Longrightarrow> shader_run (new_device vas m p)"
  unfolding new_device_def by (rule shader_run.start) simp_all

lemma new_device_reliable: "reliable (new_device vas [] [])"
  by (simp add: reliable_def new_device_fields)

text \<open>The state after the first allocation on a new device.\<close>

definition one_block :: shader_device where
  "one_block = snd (the (radv_alloc_shader_memory 1000 False 7 (new_device None [] [])))"

lemma one_block_alloc:
  "\<exists>b. radv_alloc_shader_memory 1000 False 7 (new_device None [] []) = Some (Some b, one_block) \<and> alloc_set one_block = {b}"
proof -
  let ?d = "new_device None [] []"
  have run: "arenas_ok ?d" "find_hole (if False then Capture_list else Shader_list) (shader_alloc_size ?d 1000) ?d = None \<longrightarrow> can_map ?d"
    using run_ok [OF new_device_run [of None]] reliable_succeeds(4) [OF new_device_reliable] by simp_all
  have e: "alloc_set ?d = {}" by (simp add: alloc_set_def new_device_fields)
  have s: "shader_alloc_size ?d 1000 \<noteq> 0" by (simp add: new_device_size)
  from run s show ?thesis
    by (cases rule: alloc_cases [where replayable = False and ptr = 7])
      (use new_device_reliable e in \<open>auto simp: one_block_def allocated_def\<close>)
qed

lemma one_block_run: "shader_run one_block"
  using one_block_alloc shader_run.alloc [OF new_device_run [of None "[]" "[]"], of 1000 False 7] reliable_succeeds(4) [OF new_device_reliable]
  by (auto simp: new_device_size)

text \<open>C2. In every state the allocator reaches when the arenas of allocations can be mapped (the mapping of
  replayed arenas, and any other call, may fail), the arenas are tiled by their blocks without gaps and
  without two neighbouring holes, the free lists hold exactly the holes of their size class and the
  masks exactly the non-empty lists; every allocated block lies inside the buffer object of its arena, and
  at a multiple of the alignment if the arena is not one at a replayed address (there the offset is the
  serialized one); and two allocated blocks never overlap.\<close>

theorem shader_blocks_disjoint:
  assumes "shader_run d"
  shows "arenas_ok d \<and>
    (\<forall>b\<in>alloc_set d. \<exists>A v. arenas d (blk_arena (blocks d b)) = Some A \<and> bos d (arena_bo A) = Some v \<and>
       unat (blk_offset (blocks d b)) + unat (blk_size (blocks d b)) \<le> unat (bo_bytes v) \<and>
       (arena_type A \<noteq> RADV_SHADER_ARENA_REPLAYED \<longrightarrow> 256 dvd unat (blk_offset (blocks d b)))) \<and>
    (\<forall>b\<in>alloc_set d. \<forall>c\<in>alloc_set d. b \<noteq> c \<longrightarrow> blk_arena (blocks d b) = blk_arena (blocks d c) \<longrightarrow>
       {unat (blk_offset (blocks d b))..<unat (blk_offset (blocks d b)) + unat (blk_size (blocks d b))} \<inter>
       {unat (blk_offset (blocks d c))..<unat (blk_offset (blocks d c)) + unat (blk_size (blocks d c))} = {})"
proof -
  have ok: "arenas_ok d" by (rule run_ok [OF assms])
  show ?thesis by (intro conjI ballI impI ok alloc_place [OF ok] allocs_disjoint [OF ok])
qed

theorem shader_blocks_disjoint_witness:
  "\<exists>b. b \<in> alloc_set one_block \<and> arenas_ok one_block \<and>
    (\<exists>A v. arenas one_block (blk_arena (blocks one_block b)) = Some A \<and> bos one_block (arena_bo A) = Some v \<and>
       unat (blk_offset (blocks one_block b)) + unat (blk_size (blocks one_block b)) \<le> unat (bo_bytes v))"
proof -
  obtain b where b: "b \<in> alloc_set one_block" using one_block_alloc by blast
  from shader_blocks_disjoint [OF one_block_run] have "arenas_ok one_block" by (rule conjunct1)
  moreover from shader_blocks_disjoint [OF one_block_run] b
  obtain A v where "arenas one_block (blk_arena (blocks one_block b)) = Some A" "bos one_block (arena_bo A) = Some v"
    "unat (blk_offset (blocks one_block b)) + unat (blk_size (blocks one_block b)) \<le> unat (bo_bytes v)"
    by (elim conjE) (drule (1) bspec, blast)
  ultimately show ?thesis using b by blast
qed

text \<open>C14. Allocating returns a block when memory can be had: its size is the requested one rounded up, it was
  not in use, and no block in use changes. Among the holes of arenas of the requested kind (ordinary, or
  with addresses that may be captured), one is reused and no buffer object is created when the
  size is at most 32 KiB and some hole is at least as large as a power of two that bounds the size, or
  the size is above 32 KiB and some hole is large enough.\<close>

theorem shader_alloc_fits:
  assumes "shader_run d" "reliable d" "shader_alloc_size d sz \<noteq> 0"
  shows "\<exists>b d'. radv_alloc_shader_memory sz replayable ptr d = Some (Some b, d') \<and> allocated b (shader_alloc_size d sz) ptr d d' \<and>
    (\<forall>h\<in>hole_set d (if replayable then Capture_list else Shader_list).
       (if unat (shader_alloc_size d sz) \<le> 32768
        then \<exists>n\<in>{8..15}. unat (shader_alloc_size d sz) \<le> 2 ^ n \<and> 2 ^ n \<le> unat (blk_size (blocks d h))
        else shader_alloc_size d sz \<le> blk_size (blocks d h)) \<longrightarrow> bos d' = bos d)"
proof -
  let ?s = "shader_alloc_size d sz" and ?k = "if replayable then Capture_list else Shader_list"
  have ok: "arenas_ok d" "core_ok d" "lists_ok d" "find_hole ?k ?s d = None \<longrightarrow> can_map d"
    using run_ok [OF assms(1)] reliable_succeeds(4) [OF assms(2)] by (simp_all add: arenas_ok_def)
  from ok(1,4) assms(3) show ?thesis
  proof (cases rule: alloc_cases [where replayable = replayable and ptr = ptr])
    case (made b d')
    have "bos d' = bos d" if "h \<in> hole_set d ?k"
      "if unat ?s \<le> 32768 then \<exists>n\<in>{8..15}. unat ?s \<le> 2 ^ n \<and> 2 ^ n \<le> unat (blk_size (blocks d h)) else ?s \<le> blk_size (blocks d h)" for h
    proof (rule alloc_reuses [OF ok(1) refl assms(3) refl _ made(1)])
      show "find_hole ?k ?s d \<noteq> None"
        using that find_hole_pow [OF ok(2,3) _ _ _ that(1)] find_hole_large [OF ok(2,3) _ that(1)] by (auto split: if_splits)
    qed
    then show ?thesis using made by blast
  qed (use assms(2) in simp_all)
qed

theorem shader_alloc_fits_witness:
  "\<exists>b d'. radv_alloc_shader_memory 1000 False 7 (new_device None [] []) = Some (Some b, d') \<and> blk_size (blocks d' b) = 1024"
  using shader_alloc_fits [OF new_device_run new_device_reliable, of None 1000 False 7]
  by (auto simp: new_device_size allocated_def)

text \<open>C13. Freeing a block frees exactly this block and leaves every other block in use as it is. The arena of
  the block and its buffer object are destroyed if it was the last block in use there, of any kind of
  arena; otherwise all arenas and buffer objects are kept. When the last block of the device is freed,
  no bit of the masks is left, and without the table of replayed addresses no arena and no buffer object
  (with it, an arena made by a replay that found no place may be left).\<close>

theorem shader_free_releases:
  assumes "shader_run d" "c \<in> alloc_set d" "d' = radv_free_shader_memory (Some c) d"
  shows "alloc_set d' = alloc_set d - {c} \<and> (\<forall>x\<in>alloc_set d'. blocks d' x = blocks d x) \<and>
    (\<exists>A. arenas d (blk_arena (blocks d c)) = Some A \<and>
       (if \<forall>x\<in>alloc_set d. blk_arena (blocks d x) = blk_arena (blocks d c) \<longrightarrow> x = c
        then arenas d' = (arenas d)(blk_arena (blocks d c) := None) \<and> bos d' = (bos d)(arena_bo A := None)
        else dom (arenas d') = dom (arenas d) \<and> bos d' = bos d)) \<and>
    (alloc_set d = {c} \<longrightarrow> (\<forall>k. size_mask (the_list k d') = 0) \<and>
       (capture_replay_arena_vas d = None \<longrightarrow> arenas d' = Map.empty \<and> bos d' = Map.empty \<and> shader_arenas d' = []))"
proof -
  have ok: "arenas_ok d" by (rule run_ok [OF assms(1)])
  then have core: "core_ok d" by (simp add: arenas_ok_def)
  note f = free_ok [OF ok assms(2,3)]
  obtain A where A: "arenas d (blk_arena (blocks d c)) = Some A"
    using assms(2) core_okD(6) [OF core] unfolding alloc_set_def by blast
  then have "dom ((arenas d)(blk_arena (blocks d c) \<mapsto> X)) = dom (arenas d)" for X by auto
  then have "if \<forall>x\<in>alloc_set d. blk_arena (blocks d x) = blk_arena (blocks d c) \<longrightarrow> x = c
      then arenas d' = (arenas d)(blk_arena (blocks d c) := None) \<and> bos d' = (bos d)(arena_bo A := None)
      else dom (arenas d') = dom (arenas d) \<and> bos d' = bos d"
    using f(4) [OF A] by (auto split: if_splits)
  then show ?thesis using A f(2,3) nothing_left [OF f(1)] no_holes_left [OF f(1)] by (auto simp: freed_def)
qed

theorem shader_free_releases_witness:
  "\<exists>b. b \<in> alloc_set one_block \<and> bos (radv_free_shader_memory (Some b) one_block) = Map.empty \<and>
    shader_arenas (radv_free_shader_memory (Some b) one_block) = []"
proof -
  obtain b where b: "alloc_set one_block = {b}" using one_block_alloc by blast
  have "capture_replay_arena_vas one_block = None"
    by (simp add: one_block_def first_alloc_steps insert_block_def insert_left_def insert_right_def insert_link_def)
  then show ?thesis using shader_free_releases [OF one_block_run _ refl, of b] b by auto
qed

text \<open>C12. Replaying a serialized block succeeds exactly when its place is free (in a hole of the arena at that
  address, or in the arena that is created there), and then the block has the serialized offset and
  size in an arena whose buffer object has the serialized address, and no block in use changes; when
  the place is taken the result is null and the blocks in use are as before.\<close>

theorem shader_replay_exact:
  assumes "shader_run d" "reliable d" "capture_replay_arena_vas d = Some T" "src_ok src"
  shows "if room_at src d
    then \<exists>b d' A v. radv_replay_shader_arena_block src ptr d = Some (Some b, d') \<and> allocated b (src_size src) ptr d d' \<and>
      blk_offset (blocks d' b) = src_offset src \<and> arenas d' (blk_arena (blocks d' b)) = Some A \<and>
      bos d' (arena_bo A) = Some v \<and> bo_va v = src_arena_va src
    else \<exists>d'. radv_replay_shader_arena_block src ptr d = Some (None, d') \<and> alloc_set d' = alloc_set d \<and>
      (\<forall>x\<in>alloc_set d. blocks d' x = blocks d x)"
proof -
  have ok: "arenas_ok d" by (rule run_ok [OF assms(1)])
  from ok assms(3,4) show ?thesis
  proof (cases rule: replay_cases [where ptr = ptr])
    case (made b d')
    have "tables_ok d'" using made(2) by (simp add: arenas_ok_def)
    then show ?thesis using made replay_table [of d' "the (capture_replay_arena_vas d')" "src_arena_va src" "blk_arena (blocks d' b)"] by auto
  next
    case (refused d')
    then show ?thesis using assms(2) by simp
  qed
qed

theorem shader_replay_exact_witness:
  "\<exists>b d'. radv_replay_shader_arena_block \<lparr>src_offset = 512, src_size = 256, src_arena_va = 4096, src_arena_size = 1024\<rparr> 7
      (new_device (Some []) [] []) = Some (Some b, d') \<and> blk_offset (blocks d' b) = 512"
proof -
  let ?src = "\<lparr>src_offset = 512, src_size = 256, src_arena_va = 4096, src_arena_size = 1024\<rparr>" and ?d = "new_device (Some []) [] []"
  have v: "capture_replay_arena_vas ?d = Some []" by (simp add: new_device_fields)
  have "room_at ?src ?d" by (simp add: room_at_def v new_arena_size_def)
  moreover have "src_ok ?src" by (simp add: src_ok_def)
  ultimately show ?thesis
    using shader_replay_exact [OF new_device_run new_device_reliable v, of ?src 7] by auto
qed

end
