(* ===== verification/Spec2Isabelle.thy ===== *)
theory Spec2Isabelle
  imports Vma_Heap Range_Allocator Descriptor_Layout Descriptor_Pool Id_Alloc Sync_Timeline Blob Range_Remap Range_Min_Query Shader_Arena
begin

text \<open>
  A verification library for the RADV Vulkan driver of this repository. The driver turns Vulkan calls
  into work for a GPU; between the two stand resource managers that hand out addresses, descriptor
  memory, shader memory, ids and timeline points, and small data structures they are built on. The
  library models these managers as functions on explicit state and proves what their callers rely on.

  \<^bold>\<open>Parts and theories.\<close>

  \<^item> \<open>Radv_Prelude\<close>: the integer types of the sources, the macros of \<open>util/macros.h\<close> and
    \<open>util/u_math.h\<close>, and the lemmas (collection \<open>word_nat\<close>) that move word arithmetic to natural numbers.
  \<^item> \<open>Range_Allocator\<close>: the locale \<open>range_allocator\<close>, the contract between an address heap and its
    clients; the client's side (a ledger of ranges that stay apart) is proved once in it.
  \<^item> \<open>Vma_Heap\<close>: \<open>util/vma.c\<close>. The hole list with allocation from either end, allocation at an
    address, freeing with coalescing, and the source's own validation as the invariant. The heap
    interprets \<open>range_allocator\<close>. Allocation is sound and complete, freeing is exact, and the two
    are inverse to each other, without \<open>nospan_shift\<close> and for bottom-up allocation with it
    (\<open>nospan_request_ok\<close>).
  \<^item> \<open>Descriptor_Layout\<close>: \<open>radv_descriptors.c\<close> (sizes), \<open>vk_create_sorted_bindings\<close> of
    \<open>vk_descriptors.c\<close>, and the creation and support query of layouts in
    \<open>radv_descriptor_set.c\<close>. Bindings are apart, aligned and inside the layout, immutable samplers are
    read back, and the 64-bit support query agrees with the 32-bit creation below \<open>2 ^ 31\<close>. Validity
    of a create info is \<open>layout_info_valid\<close>; that the code finds the mutable type lists where the
    application put them is the separate hypothesis \<open>mutable_lists_match\<close>.
  \<^item> \<open>Descriptor_Pool\<close>: \<open>radv_descriptor_pool.c\<close> and the allocation half of
    \<open>radv_descriptor_set.c\<close>. A heap pool is a client of \<open>Vma_Heap\<close>, a set takes its size from a layout.
    In every reachable pool (\<open>pool_reachable\<close>) the sets are apart; a failed allocation restores a heap
    pool; the result code is exact. A layout whose last reference goes is recorded as destroyed.
  \<^item> \<open>Id_Alloc\<close>: \<open>util/u_idalloc.c\<close> with the plain, the thread-safe and the segmented allocator. The
    bitmap refines a set of ids; the locale \<open>id_source\<close> is interpreted for the plain and the
    thread-safe one, and \<open>mt_run\<close> is the runs of the latter.
  \<^item> \<open>Sync_Timeline\<close>: \<open>vulkan/runtime/vk_sync_timeline.c\<close>. The points live in a store; the sections
    under the mutex are the steps of \<open>tl_step\<close>, which interleaves any number of threads. Reference
    counts are exact in \<open>tl_reachable\<close> configurations, no pointer dangles and the value never
    decreases. A wait goes through a list of wake-ups; \<open>wakes_from\<close> says which ones a thread can see
    among the steps of the others. For these a wait is sound, and it returns when its points are
    signalled.
  \<^item> \<open>Blob\<close>: \<open>util/blob.c\<close>. All writers and readers, growing, fixed and measuring blobs. Writing and
    reading are inverse, and a reader over arbitrary bytes stays within them.
  \<^item> \<open>Range_Remap\<close>: \<open>util/u_range_remap.c\<close>. The ordered list, the sorted array and the two binary
    searches, both justified through the locale \<open>ordered_entries\<close>; together they implement a finite
    set of ranges.
  \<^item> \<open>Range_Min_Query\<close>: \<open>util/range_minimum_query.c\<close> and the logarithms of \<open>util/u_math.h\<close>; a query
    is the minimum of its range.
  \<^item> \<open>Shader_Arena\<close>: the shader memory allocator in the middle of \<open>radv_shader.c\<close>
    (\<open>get_size_class\<close> to \<open>radv_destroy_shader_arenas\<close>), which uses the logarithm of
    \<open>Range_Min_Query\<close>. Over \<open>shader_run\<close> the arenas are tiled by their blocks, the free lists and
    masks are exact and blocks in use are apart; allocation, freeing and replay are specified.

  Paths are relative to \<open>src/src\<close>; the \<open>radv_\<close> files are in \<open>amd/vulkan\<close>. Definitions carry the names
  of the functions they translate. A function whose loop or branch has a name of its own in the theory
  (for instance \<open>vma_scan\<close>, \<open>layout_step\<close>, \<open>range_search\<close>) is composed of these parts as in the code.

  \<^bold>\<open>Conventions.\<close> Integers keep their width (\<open>u8\<close> to \<open>u64\<close>) and wrap; reference counts of points are
  \<open>int\<close>. Assertions are those of a release build: they are not executed, and what they assume is proved or
  is a hypothesis. An access outside an array, through a null or dangling pointer, or to the first
  entry of an empty list is \<open>None\<close>; theorems that state \<open>Some\<close> therefore include memory safety. Intrusive
  lists are lists of their members in order, and a pointer into one is an index or an address.

  \<^bold>\<open>Outside code\<close> is a parameter or an input of the model: memory allocation (\<open>realloc\<close>, the host
  allocator), buffer objects of the winsys and their mapping, the binary synchronisation objects
  below a timeline, the BLAKE3 hash, the plane counts of generated format tables and the sizes of C
  structures. What is relied on is a named hypothesis, such as \<open>realloc_ok\<close>.

  \<^bold>\<open>Loops and bounds.\<close> The searches of \<open>u_idalloc.c\<close> are functions with termination proofs; the binary
  searches of \<open>u_range_remap.c\<close> are partial functions, and their theorems show that they return. The
  wait of a timeline recurses over its wake-ups and may still wait after the last one; as many as points
  were pending when it began are enough to return, since the point waited for is no longer pending
  after each of them, whoever completed it. The remaining loops are structural
  recursion over a list. Bounds in hypotheses are the limits the code needs: sizes below the width
  at which its arithmetic would wrap.

  \<^bold>\<open>Deviations.\<close> Two theorems record behaviour the code does not intend: the segmented id allocator
  repeats an id, and after a host signal below a pending point the pending points are no longer
  collected. Lemmas record others on an example each: top-down allocation with \<open>nospan_shift\<close>
  crosses the boundary (\<open>nospan_high_crosses\<close>), the guard of the support query wraps
  (\<open>layout_support_wraps\<close>), and mutable type lists are indexed after sorting (\<open>layout_unsorted_mutable\<close>).
  Lemmas in \<open>Descriptor_Pool\<close>, \<open>Blob\<close> and \<open>Shader_Arena\<close> record smaller ones.

  \<^bold>\<open>Not modelled.\<close> Command emission and submission (the GPU and the kernel interface are not in the
  repository), pipelines and the NIR and ACO compilers (a semantics of both instruction sets would be
  needed), images and formats (address library and generated tables), descriptor updates (copies of
  precomputed words), window systems, disk caches, operating-system wrappers, the other containers
  of \<open>util\<close> and generated code. Output for debugging and memory tracing is left out of the modelled
  components, and so are functions that only free memory. Weak memory effects are not modelled:
  sections under a mutex are atomic.
\<close>

end
